theory Spec2Isabelle
  imports Main "HOL-Library.Word" "HOL-Library.Multiset"
begin

section \<open>The gang scheduler of sched/gang (gang.c): data model\<close>

text \<open>
  The embedding follows \<^verbatim>\<open>src/plugins/sched/gang/gang.c\<close>. C structs are records,
  the two enums are datatypes, \<^verbatim>\<open>uint16_t\<close> and \<^verbatim>\<open>uint32_t\<close> values that take part in
  arithmetic are words. Pointers to \<^verbatim>\<open>struct gs_job\<close> are addresses into an explicit
  store, because the shadow arrays of one partition alias the jobs owned by another.
  A pointer to a \<^verbatim>\<open>struct gs_part\<close> is the index of the partition in \<^verbatim>\<open>gs_part_list\<close>
  (the C list is one array whose \<^verbatim>\<open>next\<close> fields link consecutive elements).

  \<^verbatim>\<open>xmalloc\<close> is modelled by handing out the next unused address; \<^verbatim>\<open>xfree\<close> of
  a job removes its address from the store. Memory exhaustion is not modelled.

  The capacities \<^verbatim>\<open>job_list_size\<close> and \<^verbatim>\<open>shadow_size\<close> and the reallocation they drive
  are storage management and are not modelled: \<^verbatim>\<open>job_list\<close> and \<^verbatim>\<open>shadow\<close> are the
  lists of the first \<^verbatim>\<open>num_jobs\<close> and \<^verbatim>\<open>num_shadows\<close> entries, a NULL array is the
  empty list. C reads outside an array are undefined behaviour; the model reads with
  \<open>!\<close>, whose value out of range is unspecified, so a statement about a value read
  carries the length hypotheses that keep the read in range.

  The array \<^verbatim>\<open>gs_part_sorted\<close> is the exception, because the code stores into it without
  looking at its length: \<open>gs_part_sorted\<close> is the list of its first \<^verbatim>\<open>num_sorted_part\<close>
  entries (so \<^verbatim>\<open>num_sorted_part\<close> is the length of that list), and \<open>gs_part_sorted_alloc\<close>
  is \<open>None\<close> while the pointer is NULL and otherwise the number of entries the array was
  allocated with.
\<close>

datatype entity_type = GS_NODE | GS_SOCKET | GS_CORE | GS_CPU

datatype gs_flags =
  GS_SUSPEND | GS_RESUME | GS_NO_PART | GS_SUCCESS | GS_ACTIVE | GS_NO_ACTIVE | GS_FILLER

type_synonym bitstr = "bool list"
type_synonym job_ptr = nat
type_synonym part_ptr = nat

record gs_job =
  job_id :: "32 word"
  sig_state :: gs_flags
  row_state :: gs_flags
  resmap :: bitstr
  alloc_cpus :: "16 word list option"

record gs_part =
  part_name :: string
  priority :: "16 word"
  job_list :: "job_ptr list"
  shadow :: "job_ptr list"
  jobs_active :: nat
  active_resmap :: "bitstr option"
  active_cpus :: "16 word list option"

text \<open>The node inventory (\<^verbatim>\<open>node_record_table_ptr\<close>), the allocator query
  \<^verbatim>\<open>select_g_get_job_cores\<close> and the controller call \<^verbatim>\<open>job_suspend\<close> are external
  collaborators; they are parameters of the model. The return code of \<^verbatim>\<open>job_suspend\<close>
  may differ from call to call, so it is indexed by the number of calls made before.\<close>

record node_record =
  cpus :: "16 word"
  sockets :: "16 word"
  cores :: "16 word"
  config_cpus :: "16 word"
  config_sockets :: "16 word"
  config_cores :: "16 word"

text \<open>Modelled from the spec: \<^verbatim>\<open>slurm.h\<close> and \<^verbatim>\<open>slurmctld.h\<close> are missing from the sources
  at hand. A job of the controller has an id, a partition name, a node bitmap and a state
  among Pending, Running, Suspended, Completing, Completed and further terminal states; a
  partition of the registry has a name and a priority; the configured consumable resource
  is a socket, core or CPU (or its memory-paired form), anything else means whole nodes.\<close>

datatype job_states =
  JOB_PENDING | JOB_RUNNING | JOB_SUSPENDED | JOB_COMPLETING | JOB_COMPLETE | JOB_CANCELLED
  | JOB_FAILED | JOB_TIMEOUT | JOB_NODE_FAIL

record job_record =
  jr_job_id :: "32 word"
  jr_job_state :: job_states
  jr_partition :: string
  jr_node_bitmap :: bitstr

record part_record =
  pr_name :: string
  pr_priority :: "16 word"

datatype select_type_param =
  CR_CPU | CR_SOCKET | CR_CORE | CR_MEMORY | CR_SOCKET_MEMORY | CR_CORE_MEMORY | CR_CPU_MEMORY
  | SELECT_TYPE_INFO_NONE

record slurm_env =
  node_record_table :: "node_record list"
  select_g_get_job_cores :: "32 word \<Rightarrow> nat \<Rightarrow> nat \<Rightarrow> 16 word"
  job_suspend :: "nat \<Rightarrow> 32 word \<Rightarrow> gs_flags \<Rightarrow> int"
  find_job_record :: "32 word \<Rightarrow> job_record option"
  ctld_job_list :: "job_record list option"
  ctld_part_list :: "part_record list"
  conf_select_type_param :: select_type_param
  conf_sched_time_slice :: "32 word"
  conf_fast_schedule :: "16 word"

datatype log_entry =
  SignalError int gs_flags "32 word"
  | PartitionNotFound string "32 word"

text \<open>The ways the C code can stop instead of returning: the \<^verbatim>\<open>fatal\<close> of \<^verbatim>\<open>_get_resmap\<close>,
  the \<^verbatim>\<open>xassert\<close> of \<^verbatim>\<open>_add_job_to_part\<close>, and an access to the array \<^verbatim>\<open>gs_part_sorted\<close>
  through a NULL pointer or past its last entry.\<close>

datatype gs_error = BitmapSizeChanged | AssertionFailed | InvalidArrayAccess

record gs_state =
  timeslicer_seconds :: "32 word"
  gr_type :: entity_type
  gs_fast_schedule :: "16 word"
  gs_resmap_size :: nat
  gs_cpus_per_res :: "16 word list"
  gs_cpu_count_reps :: "32 word list"
  gs_part_list :: "gs_part list"
  gs_part_sorted :: "part_ptr list"
  gs_part_sorted_alloc :: "nat option"
  heap :: "job_ptr \<rightharpoonup> gs_job"
  next_job_ptr :: job_ptr
  signals :: "(32 word \<times> gs_flags) list"
  errlog :: "log_entry list"

definition node_record_count :: "slurm_env \<Rightarrow> nat" where
  "node_record_count env = length (node_record_table env)"

definition job_at :: "gs_state \<Rightarrow> job_ptr \<Rightarrow> gs_job" where
  "job_at s a = the (heap s a)"

definition part_at :: "gs_state \<Rightarrow> part_ptr \<Rightarrow> gs_part" where
  "part_at s p = gs_part_list s ! p"

subsection \<open>Bit strings\<close>

text \<open>Modelled from the spec: \<^verbatim>\<open>src/common/bitstring.c\<close> is missing from the sources at
  hand. A resmap is a bitset of a fixed width; \<^verbatim>\<open>bit_and\<close> and \<^verbatim>\<open>bit_or\<close> combine two
  bitsets of the same width position by position into the first, \<^verbatim>\<open>bit_copybits\<close>
  overwrites the bits of the first with those of the second, \<^verbatim>\<open>bit_set_count\<close> is the
  popcount.\<close>

definition bit_size :: "bitstr \<Rightarrow> nat" where
  "bit_size b = length b"

definition bit_test :: "bitstr \<Rightarrow> nat \<Rightarrow> bool" where
  "bit_test b i = b ! i"

definition bit_copy :: "bitstr \<Rightarrow> bitstr" where
  "bit_copy b = b"

definition bit_and :: "bitstr \<Rightarrow> bitstr \<Rightarrow> bitstr" where
  "bit_and b1 b2 = map2 (\<and>) b1 b2"

definition bit_or :: "bitstr \<Rightarrow> bitstr \<Rightarrow> bitstr" where
  "bit_or b1 b2 = map2 (\<or>) b1 b2"

definition bit_copybits :: "bitstr \<Rightarrow> bitstr \<Rightarrow> bitstr" where
  "bit_copybits dest src = map2 (\<lambda>d x. x) dest src"

definition bit_set_count :: "bitstr \<Rightarrow> nat" where
  "bit_set_count b = length (filter (\<lambda>x. x) b)"

definition bit_alloc :: "nat \<Rightarrow> bitstr" where
  "bit_alloc n = replicate n False"

definition bit_set :: "bitstr \<Rightarrow> nat \<Rightarrow> bitstr" where
  "bit_set b i = b[i := True]"

subsection \<open>The physical resource table\<close>

text \<open>\<^verbatim>\<open>_get_phys_res_cnt\<close>: \<^verbatim>\<open>pos\<close> and \<^verbatim>\<open>res_index\<close> are C \<^verbatim>\<open>int\<close>s, compared signed;
  \<^verbatim>\<open>pos\<close> accumulates the \<^verbatim>\<open>uint32_t\<close> repetition counts. Walking past the last group
  reads outside the arrays; the model returns \<open>None\<close> there.\<close>

function phys_res_loop :: "32 word list \<Rightarrow> nat \<Rightarrow> 32 word \<Rightarrow> 32 word \<Rightarrow> nat option" where
  "phys_res_loop reps i pos res_index =
     (if pos \<le>s res_index
      then (if i < length reps then phys_res_loop reps (Suc i) (pos + reps ! i) res_index
            else None)
      else Some i)"
  by pat_completeness auto
termination
  by (relation "measure (\<lambda>(reps, i, pos, res_index). length reps - i)") auto

declare phys_res_loop.simps [simp del]

definition get_phys_res_cnt :: "32 word list \<Rightarrow> 16 word list \<Rightarrow> 32 word \<Rightarrow> 16 word option" where
  "get_phys_res_cnt reps cpus_per_res res_index =
     (if reps = [] then None
      else case phys_res_loop reps 1 (reps ! 0) res_index of
             None \<Rightarrow> None
           | Some i \<Rightarrow> if i - 1 < length cpus_per_res then Some (cpus_per_res ! (i - 1)) else None)"

definition phys_res_cnt :: "gs_state \<Rightarrow> nat \<Rightarrow> 16 word" where
  "phys_res_cnt s i = the (get_phys_res_cnt (gs_cpu_count_reps s) (gs_cpus_per_res s) (word_of_nat i))"

subsection \<open>The fit test\<close>

text \<open>\<^verbatim>\<open>_can_cpus_fit\<close>: the sum is formed in C \<^verbatim>\<open>int\<close> arithmetic, so it does not wrap.\<close>

function can_cpus_fit_loop ::
  "gs_state \<Rightarrow> bitstr \<Rightarrow> bitstr \<Rightarrow> 16 word list \<Rightarrow> 16 word list \<Rightarrow> nat \<Rightarrow> nat \<Rightarrow> bool" where
  "can_cpus_fit_loop s setmap jmap p_cpus j_cpus i a =
     (if i < bit_size setmap
      then (if bit_test setmap i \<and> uint (p_cpus ! i) + uint (j_cpus ! a) > uint (phys_res_cnt s i)
            then False
            else can_cpus_fit_loop s setmap jmap p_cpus j_cpus (Suc i)
                   (if bit_test jmap i then Suc a else a))
      else True)"
  by pat_completeness auto
termination
  by (relation "measure (\<lambda>(s, setmap, jmap, p_cpus, j_cpus, i, a). bit_size setmap - i)") auto

declare can_cpus_fit_loop.simps [simp del]

definition can_cpus_fit :: "gs_state \<Rightarrow> bitstr \<Rightarrow> gs_job \<Rightarrow> gs_part \<Rightarrow> bool" where
  "can_cpus_fit s setmap j p =
     (case (active_cpus p, alloc_cpus j) of
        (Some p_cpus, Some j_cpus) \<Rightarrow> can_cpus_fit_loop s setmap (resmap j) p_cpus j_cpus 0 0
      | _ \<Rightarrow> False)"

definition job_fits_in_active_row :: "gs_state \<Rightarrow> gs_job \<Rightarrow> gs_part \<Rightarrow> bool" where
  "job_fits_in_active_row s j p =
     (case active_resmap p of
        None \<Rightarrow> True
      | Some amap \<Rightarrow>
          if jobs_active p = 0 then True
          else let tmpmap = bit_and (bit_copy (resmap j)) amap;
                   count = bit_set_count tmpmap
               in if count = 0 then True
                  else if gr_type s = GS_NODE \<or> gr_type s = GS_SOCKET then False
                  else can_cpus_fit s tmpmap j p)"

subsection \<open>Updating one partition or one job in place\<close>

definition upd_part :: "part_ptr \<Rightarrow> (gs_part \<Rightarrow> gs_part) \<Rightarrow> gs_state \<Rightarrow> gs_state" where
  "upd_part p f s = s\<lparr>gs_part_list := (gs_part_list s)[p := f (gs_part_list s ! p)]\<rparr>"

definition upd_job :: "job_ptr \<Rightarrow> (gs_job \<Rightarrow> gs_job) \<Rightarrow> gs_state \<Rightarrow> gs_state" where
  "upd_job a f s = s\<lparr>heap := (heap s)(a \<mapsto> f (job_at s a))\<rparr>"

subsection \<open>The active row\<close>

text \<open>\<^verbatim>\<open>_add_job_to_active\<close>. The two loops over the bits carry the alignment index
  \<^verbatim>\<open>a\<close> into the job's CPU array. The addition is \<^verbatim>\<open>uint16_t\<close> arithmetic and wraps
  before it is compared with the limit.\<close>

definition overwrite_cpus_step ::
  "bitstr \<Rightarrow> 16 word list \<Rightarrow> nat \<Rightarrow> 16 word list \<times> nat \<Rightarrow> 16 word list \<times> nat" where
  "overwrite_cpus_step jmap j_cpus i ca =
     (case ca of (c, a) \<Rightarrow>
        if bit_test jmap i then (c[i := j_cpus ! a], Suc a) else (c[i := 0], a))"

definition merge_cpus_step ::
  "gs_state \<Rightarrow> bitstr \<Rightarrow> 16 word list \<Rightarrow> nat \<Rightarrow> 16 word list \<times> nat \<Rightarrow> 16 word list \<times> nat" where
  "merge_cpus_step s jmap j_cpus i ca =
     (case ca of (c, a) \<Rightarrow>
        if bit_test jmap i
        then (let limit = phys_res_cnt s i; v = c ! i + j_cpus ! a
              in (c[i := (if v > limit then limit else v)], Suc a))
        else (c, a))"

definition add_job_to_active :: "job_ptr \<Rightarrow> part_ptr \<Rightarrow> gs_state \<Rightarrow> gs_state" where
  "add_job_to_active a p s =
     (let j = job_at s a; q = part_at s p;
          amap = (case active_resmap q of
                    None \<Rightarrow> bit_copy (resmap j)
                  | Some m \<Rightarrow> if jobs_active q = 0 then bit_copybits m (resmap j)
                              else bit_or m (resmap j));
          acpus = (if gr_type s = GS_CPU \<or> gr_type s = GS_CORE
                   then (let sz = bit_size amap;
                             c0 = (case active_cpus q of None \<Rightarrow> replicate sz 0 | Some c \<Rightarrow> c);
                             j_cpus = the (alloc_cpus j)
                         in Some (fst (if jobs_active q = 0
                                       then fold (overwrite_cpus_step (resmap j) j_cpus) [0..<sz] (c0, 0)
                                       else fold (merge_cpus_step s (resmap j) j_cpus) [0..<sz] (c0, 0))))
                   else active_cpus q)
      in upd_part p (\<lambda>q. q\<lparr>active_resmap := Some amap, active_cpus := acpus,
                             jobs_active := jobs_active q + 1\<rparr>) s)"

subsection \<open>Signals\<close>

text \<open>\<^verbatim>\<open>_signal_job\<close>: the request is handed to \<^verbatim>\<open>job_suspend\<close>; a non-zero return code is
  logged and nothing else depends on it.\<close>

definition signal_job :: "slurm_env \<Rightarrow> 32 word \<Rightarrow> gs_flags \<Rightarrow> gs_state \<Rightarrow> gs_state" where
  "signal_job env jid sig s =
     (let op = (if sig = GS_SUSPEND then GS_SUSPEND else GS_RESUME);
          rc = job_suspend env (length (signals s)) jid op
      in s\<lparr>signals := signals s @ [(jid, op)],
            errlog := (if rc \<noteq> 0 then errlog s @ [SignalError rc sig jid] else errlog s)\<rparr>)"

subsection \<open>Resmaps of jobs\<close>

definition compute_resources :: "slurm_env \<Rightarrow> gs_state \<Rightarrow> nat \<Rightarrow> bool \<Rightarrow> 16 word" where
  "compute_resources env s i socket_count =
     (let n = node_record_table env ! i
      in if gr_type s = GS_NODE then 1
         else if gr_type s = GS_CPU
         then (if socket_count then 1
               else if gs_fast_schedule s \<noteq> 0 then config_cpus n else cpus n)
         else if socket_count \<or> gr_type s = GS_SOCKET
         then (if gs_fast_schedule s \<noteq> 0 then config_sockets n else sockets n)
         else (if gs_fast_schedule s \<noteq> 0 then config_cores n else cores n))"

definition get_resmap_size :: "slurm_env \<Rightarrow> gs_state \<Rightarrow> nat" where
  "get_resmap_size env s =
     (if gr_type s = GS_NODE \<or> gr_type s = GS_CPU then node_record_count env
      else unat (fold (\<lambda>i (count :: 32 word). count + ucast (compute_resources env s i True))
                   [0..<node_record_count env] 0))"

definition load_alloc_cpus ::
  "slurm_env \<Rightarrow> gs_state \<Rightarrow> 32 word \<Rightarrow> bitstr \<Rightarrow> bitstr \<Rightarrow> 16 word list" where
  "load_alloc_cpus env s jid jmap nodemap =
     fst (fold (\<lambda>i (arr, a, alloc_index).
                  let sockets = unat (compute_resources env s i True)
                  in if bit_test nodemap i
                     then (case fold (\<lambda>j (arr, a).
                                        let cores = select_g_get_job_cores env jid alloc_index j
                                        in if cores > 0 then (arr[a := cores], Suc a) else (arr, a))
                                  [0..<sockets] (arr, a)
                           of (arr', a') \<Rightarrow> (arr', a', Suc alloc_index))
                     else (arr, a, alloc_index))
            [0..<node_record_count env] (replicate (bit_set_count jmap) 0, 0, 0))"

definition get_resmap :: "slurm_env \<Rightarrow> gs_state \<Rightarrow> bitstr \<Rightarrow> 32 word \<Rightarrow> gs_error + bitstr" where
  "get_resmap env s origmap jid =
     (if bit_size origmap \<noteq> node_record_count env then Inl BitmapSizeChanged
      else if gr_type s = GS_NODE \<or> gr_type s = GS_CPU then Inr (bit_copy origmap)
      else Inr (fst (fold (\<lambda>i (newmap, alloc_index, map_index).
                  let sockets = unat (compute_resources env s i True)
                  in if bit_test origmap i
                     then (case fold (\<lambda>j (newmap, map_index).
                                        let cores = select_g_get_job_cores env jid alloc_index j
                                        in ((if cores > 0 then bit_set newmap map_index else newmap),
                                            Suc map_index))
                                  [0..<sockets] (newmap, map_index)
                           of (newmap', map_index') \<Rightarrow> (newmap', Suc alloc_index, map_index'))
                     else (newmap, alloc_index, map_index + sockets))
            [0..<node_record_count env] (bit_alloc (gs_resmap_size s), 0, 0))))"

subsection \<open>Sorting the partitions\<close>

text \<open>\<^verbatim>\<open>_sort_partitions\<close>. When the number of partitions differs from \<^verbatim>\<open>num_sorted_part\<close>
  the array is freed, allocated anew with one entry for each partition and loaded in list
  order. With fewer than two partitions the code then stores the head of the partition list
  in element 0 and returns: with no partition that store goes through the NULL pointer (a
  plugin that never had a partition), or past the end of an array allocated with no entry;
  only an array left over from an earlier, non-empty partition list takes it, and the
  stored NULL lies beyond \<^verbatim>\<open>num_sorted_part\<close>. The exchange sort reads and writes the first
  \<^verbatim>\<open>size\<close> entries.\<close>

definition sort_swap :: "gs_part list \<Rightarrow> nat \<Rightarrow> nat \<Rightarrow> part_ptr list \<Rightarrow> part_ptr list" where
  "sort_swap parts j i srt =
     (if priority (parts ! (srt ! i)) > priority (parts ! (srt ! j))
      then srt[j := srt ! i, i := srt ! j]
      else srt)"

definition sort_partitions :: "gs_state \<Rightarrow> gs_error + gs_state" where
  "sort_partitions s =
     (let size = length (gs_part_list s);
          s1 = (if size \<noteq> length (gs_part_sorted s)
                then s\<lparr>gs_part_sorted := [0..<size], gs_part_sorted_alloc := Some size\<rparr>
                else s)
      in case gs_part_sorted_alloc s1 of
           None \<Rightarrow> Inl InvalidArrayAccess
         | Some n \<Rightarrow>
            if size \<le> 1
            then (if n = 0 then Inl InvalidArrayAccess
                  else Inr (s1\<lparr>gs_part_sorted := (gs_part_sorted s1)[0 := 0]\<rparr>))
            else (if n < size then Inl InvalidArrayAccess
                  else Inr (s1\<lparr>gs_part_sorted :=
                              fold (\<lambda>j srt. fold (sort_swap (gs_part_list s1) j) [Suc j..<size] srt)
                                [0..<size] (gs_part_sorted s1)\<rparr>)))"

subsection \<open>Shadows\<close>

definition cast_shadow_part :: "job_ptr \<Rightarrow> 16 word \<Rightarrow> gs_part \<Rightarrow> gs_part" where
  "cast_shadow_part a prio q =
     (if priority q \<ge> prio then q
      else if a \<in> set (shadow q) then q
      else q\<lparr>shadow := shadow q @ [a]\<rparr>)"

definition cast_shadow :: "job_ptr \<Rightarrow> 16 word \<Rightarrow> gs_state \<Rightarrow> gs_state" where
  "cast_shadow a prio s = s\<lparr>gs_part_list := map (cast_shadow_part a prio) (gs_part_list s)\<rparr>"

definition clear_shadow :: "job_ptr \<Rightarrow> gs_state \<Rightarrow> gs_state" where
  "clear_shadow a s =
     s\<lparr>gs_part_list := map (\<lambda>q. q\<lparr>shadow := remove1 a (shadow q)\<rparr>) (gs_part_list s)\<rparr>"

subsection \<open>Rebuilding the active row of a partition\<close>

definition suspend_preempted :: "slurm_env \<Rightarrow> job_ptr \<Rightarrow> gs_state \<Rightarrow> gs_state" where
  "suspend_preempted env a s =
     (let s1 = (if sig_state (job_at s a) \<noteq> GS_SUSPEND
                then clear_shadow a
                       (upd_job a (\<lambda>j. j\<lparr>sig_state := GS_SUSPEND\<rparr>)
                          (signal_job env (job_id (job_at s a)) GS_SUSPEND s))
                else s)
      in upd_job a (\<lambda>j. j\<lparr>row_state := GS_NO_ACTIVE\<rparr>) s1)"

definition update_row_existing ::
  "slurm_env \<Rightarrow> gs_flags \<Rightarrow> part_ptr \<Rightarrow> job_ptr \<Rightarrow> gs_state \<Rightarrow> gs_state" where
  "update_row_existing env st p a s =
     (if row_state (job_at s a) \<noteq> st then s
      else if job_fits_in_active_row s (job_at s a) (part_at s p)
      then cast_shadow a (priority (part_at s p)) (add_job_to_active a p s)
      else suspend_preempted env a s)"

definition update_row_new :: "slurm_env \<Rightarrow> part_ptr \<Rightarrow> job_ptr \<Rightarrow> gs_state \<Rightarrow> gs_state" where
  "update_row_new env p a s =
     (if row_state (job_at s a) \<noteq> GS_NO_ACTIVE then s
      else if job_fits_in_active_row s (job_at s a) (part_at s p)
      then (let s1 = cast_shadow a (priority (part_at s p)) (add_job_to_active a p s);
                s2 = upd_job a (\<lambda>j. j\<lparr>row_state := GS_FILLER\<rparr>) s1
            in if sig_state (job_at s2 a) = GS_SUSPEND
               then upd_job a (\<lambda>j. j\<lparr>sig_state := GS_RESUME\<rparr>)
                      (signal_job env (job_id (job_at s2 a)) GS_RESUME s2)
               else s2)
      else s)"

definition update_active_row :: "slurm_env \<Rightarrow> part_ptr \<Rightarrow> bool \<Rightarrow> gs_state \<Rightarrow> gs_state" where
  "update_active_row env p add_new_jobs s =
     (let s0 = upd_part p (\<lambda>q. q\<lparr>jobs_active := 0\<rparr>) s;
          s1 = fold (\<lambda>a. add_job_to_active a p) (shadow (part_at s0 p)) s0;
          s2 = fold (update_row_existing env GS_ACTIVE p) (job_list (part_at s1 p)) s1;
          s3 = fold (update_row_existing env GS_FILLER p) (job_list (part_at s2 p)) s2
      in if \<not> add_new_jobs then s3
         else fold (update_row_new env p) (job_list (part_at s3 p)) s3)"

definition update_all_active_rows :: "slurm_env \<Rightarrow> gs_state \<Rightarrow> gs_error + gs_state" where
  "update_all_active_rows env s =
     (case sort_partitions s of
        Inl e \<Rightarrow> Inl e
      | Inr s1 \<Rightarrow> Inr (fold (\<lambda>p. update_active_row env p True) (gs_part_sorted s1) s1))"

subsection \<open>Removing and adding jobs\<close>

text \<open>\<^verbatim>\<open>_find_job_index\<close> returns the index of the first job with the given id, or -1;
  the model returns \<open>None\<close> for -1. \<^verbatim>\<open>_find_gs_part\<close> returns the first partition with
  the given name, or NULL.\<close>

fun find_job_from :: "(job_ptr \<rightharpoonup> gs_job) \<Rightarrow> job_ptr list \<Rightarrow> 32 word \<Rightarrow> nat \<Rightarrow> nat option" where
  "find_job_from h [] jid i = None"
| "find_job_from h (a # as) jid i =
     (if job_id (the (h a)) = jid then Some i else find_job_from h as jid (Suc i))"

definition find_job_index :: "gs_state \<Rightarrow> part_ptr \<Rightarrow> 32 word \<Rightarrow> nat option" where
  "find_job_index s p jid = find_job_from (heap s) (job_list (part_at s p)) jid 0"

fun find_part_from :: "gs_part list \<Rightarrow> string \<Rightarrow> nat \<Rightarrow> part_ptr option" where
  "find_part_from [] name i = None"
| "find_part_from (q # qs) name i =
     (if name = part_name q then Some i else find_part_from qs name (Suc i))"

definition find_gs_part :: "gs_state \<Rightarrow> string \<Rightarrow> part_ptr option" where
  "find_gs_part s name = find_part_from (gs_part_list s) name 0"

definition remove_job_from_part ::
  "slurm_env \<Rightarrow> 32 word \<Rightarrow> part_ptr option \<Rightarrow> gs_state \<Rightarrow> gs_state" where
  "remove_job_from_part env jid popt s =
     (if jid = 0 then s
      else case popt of
        None \<Rightarrow> s
      | Some p \<Rightarrow>
         (case find_job_index s p jid of
            None \<Rightarrow> s
          | Some i \<Rightarrow>
             (let a = job_list (part_at s p) ! i;
                  s1 = clear_shadow a s;
                  s2 = upd_part p (\<lambda>q. q\<lparr>job_list := take i (job_list q) @ drop (Suc i) (job_list q)\<rparr>) s1;
                  s3 = (if sig_state (job_at s2 a) = GS_SUSPEND
                        then signal_job env (job_id (job_at s2 a)) GS_RESUME s2
                        else s2)
              in s3\<lparr>heap := (heap s3)(a := None)\<rparr>)))"

text \<open>\<^verbatim>\<open>_add_job_to_part\<close> returns the signal state of the new job. The \<^verbatim>\<open>xassert\<close> on the
  job id and the \<^verbatim>\<open>fatal\<close> of \<^verbatim>\<open>_get_resmap\<close> end the program; they are the error results.\<close>

definition add_job_to_part ::
  "slurm_env \<Rightarrow> part_ptr \<Rightarrow> 32 word \<Rightarrow> bitstr \<Rightarrow> gs_state \<Rightarrow> gs_error + (gs_flags \<times> gs_state)" where
  "add_job_to_part env p jid job_bitmap s =
     (if jid = 0 then Inl AssertionFailed
      else
       (let s1 = (case find_job_index s p jid of
                    None \<Rightarrow> s
                  | Some i \<Rightarrow> update_active_row env p False
                               (remove_job_from_part env jid (Some p) s))
        in case get_resmap env s1 job_bitmap jid of
             Inl e \<Rightarrow> Inl e
           | Inr rm \<Rightarrow>
              (let a = next_job_ptr s1;
                   j = \<lparr>job_id = jid, sig_state = GS_RESUME, row_state = GS_NO_ACTIVE, resmap = rm,
                        alloc_cpus = (if gr_type s1 = GS_CORE \<or> gr_type s1 = GS_CPU
                                      then Some (load_alloc_cpus env s1 jid rm job_bitmap)
                                      else None)\<rparr>;
                   s2 = s1\<lparr>heap := (heap s1)(a \<mapsto> j), next_job_ptr := Suc a\<rparr>;
                   s3 = upd_part p (\<lambda>q. q\<lparr>job_list := job_list q @ [a]\<rparr>) s2
               in if job_fits_in_active_row s3 (job_at s3 a) (part_at s3 p)
                  then (let s4 = add_job_to_active a p s3;
                            s5 = upd_job a (\<lambda>j. j\<lparr>row_state := GS_FILLER\<rparr>) s4;
                            s6 = cast_shadow a (priority (part_at s5 p)) s5
                        in Inr (sig_state (job_at s6 a), s6))
                  else (let s4 = signal_job env (job_id (job_at s3 a)) GS_SUSPEND s3;
                            s5 = upd_job a (\<lambda>j. j\<lparr>sig_state := GS_SUSPEND\<rparr>) s4
                        in Inr (sig_state (job_at s5 a), s5)))))"

subsection \<open>The timeslicer\<close>

text \<open>\<^verbatim>\<open>_build_active_row\<close> returns at once when the partition has no job.\<close>

definition build_active_row :: "part_ptr \<Rightarrow> gs_state \<Rightarrow> gs_state" where
  "build_active_row p s =
     (let s0 = upd_part p (\<lambda>q. q\<lparr>jobs_active := 0\<rparr>) s
      in if job_list (part_at s0 p) = [] then s0
         else (let s1 = fold (\<lambda>a. add_job_to_active a p) (shadow (part_at s0 p)) s0
               in fold (\<lambda>a st. if job_fits_in_active_row st (job_at st a) (part_at st p)
                                then upd_job a (\<lambda>j. j\<lparr>row_state := GS_ACTIVE\<rparr>)
                                       (add_job_to_active a p st)
                                else st)
                    (job_list (part_at s1 p)) s1))"

text \<open>The first loop of \<^verbatim>\<open>_cycle_job_list\<close>: while the job at index \<^verbatim>\<open>i\<close> is active it is
  de-activated and moved behind the last job; a filler is de-activated where it stands.
  Every round of the inner loop takes one job out of the active ones, which is why it ends.\<close>

function cycle_reorder ::
  "nat \<Rightarrow> job_ptr list \<Rightarrow> (job_ptr \<rightharpoonup> gs_job) \<Rightarrow> job_ptr list \<times> (job_ptr \<rightharpoonup> gs_job)" where
  "cycle_reorder i jl h =
     (if i < length jl
      then (if row_state (the (h (jl ! i))) = GS_ACTIVE
            then cycle_reorder i (take i jl @ drop (Suc i) jl @ [jl ! i])
                   (h(jl ! i \<mapsto> (the (h (jl ! i)))\<lparr>row_state := GS_NO_ACTIVE\<rparr>))
            else cycle_reorder (Suc i) jl
                   (if row_state (the (h (jl ! i))) = GS_FILLER
                    then h(jl ! i \<mapsto> (the (h (jl ! i)))\<lparr>row_state := GS_NO_ACTIVE\<rparr>)
                    else h))
      else (jl, h))"
  by pat_completeness auto

termination
proof (relation "measures [\<lambda>(i, jl, h). length jl - i,
         \<lambda>(i, jl, h). length (filter (\<lambda>a. row_state (the (h a)) = GS_ACTIVE) jl)]")
  show "wf (measures [\<lambda>(i, jl, h). length jl - i,
         \<lambda>(i, jl, h). length (filter (\<lambda>a. row_state (the (h a)) = GS_ACTIVE) jl)])"
    by simp
next
  fix i :: nat and jl :: "job_ptr list" and h :: "job_ptr \<rightharpoonup> gs_job"
  assume i: "i < length jl" and act: "row_state (the (h (jl ! i))) = GS_ACTIVE"
  let ?a = "jl ! i"
  let ?h = "h(?a \<mapsto> (the (h ?a))\<lparr>row_state := GS_NO_ACTIVE\<rparr>)"
  let ?P = "\<lambda>a. row_state (the (h a)) = GS_ACTIVE"
  let ?Q = "\<lambda>a. row_state (the (?h a)) = GS_ACTIVE"
  have le: "length (filter ?Q xs) \<le> length (filter ?P xs)" for xs
    by (induction xs) auto
  have split: "jl = take i jl @ ?a # drop (Suc i) jl"
    using i by (rule id_take_nth_drop)
  have "length (filter ?P jl) = length (filter ?P (take i jl)) + 1 + length (filter ?P (drop (Suc i) jl))"
    using act by (subst split) simp
  moreover have "length (filter ?Q (take i jl @ drop (Suc i) jl @ [?a]))
      = length (filter ?Q (take i jl)) + length (filter ?Q (drop (Suc i) jl))"
    by simp
  ultimately have "length (filter ?Q (take i jl @ drop (Suc i) jl @ [?a])) < length (filter ?P jl)"
    using le[of "take i jl"] le[of "drop (Suc i) jl"] by linarith
  moreover have "length (take i jl @ drop (Suc i) jl @ [?a]) = length jl"
    using i by simp
  ultimately show "((i, take i jl @ drop (Suc i) jl @ [?a], ?h), (i, jl, h))
      \<in> measures [\<lambda>(i, jl, h). length jl - i,
         \<lambda>(i, jl, h). length (filter (\<lambda>a. row_state (the (h a)) = GS_ACTIVE) jl)]"
    by simp
next
  fix i :: nat and jl :: "job_ptr list" and h :: "job_ptr \<rightharpoonup> gs_job"
  assume "i < length jl"
  then show "((Suc i, jl, if row_state (the (h (jl ! i))) = GS_FILLER
                then h(jl ! i \<mapsto> (the (h (jl ! i)))\<lparr>row_state := GS_NO_ACTIVE\<rparr>) else h), (i, jl, h))
      \<in> measures [\<lambda>(i, jl, h). length jl - i,
         \<lambda>(i, jl, h). length (filter (\<lambda>a. row_state (the (h a)) = GS_ACTIVE) jl)]"
    by auto
qed

declare cycle_reorder.simps [simp del]


definition suspend_not_active :: "slurm_env \<Rightarrow> job_ptr \<Rightarrow> gs_state \<Rightarrow> gs_state" where
  "suspend_not_active env a s =
     (if row_state (job_at s a) = GS_NO_ACTIVE \<and> sig_state (job_at s a) = GS_RESUME
      then clear_shadow a
             (upd_job a (\<lambda>j. j\<lparr>sig_state := GS_SUSPEND\<rparr>)
                (signal_job env (job_id (job_at s a)) GS_SUSPEND s))
      else s)"

definition resume_active :: "slurm_env \<Rightarrow> part_ptr \<Rightarrow> job_ptr \<Rightarrow> gs_state \<Rightarrow> gs_state" where
  "resume_active env p a s =
     (if row_state (job_at s a) = GS_ACTIVE \<and> sig_state (job_at s a) = GS_SUSPEND
      then cast_shadow a (priority (part_at s p))
             (upd_job a (\<lambda>j. j\<lparr>sig_state := GS_RESUME\<rparr>)
                (signal_job env (job_id (job_at s a)) GS_RESUME s))
      else s)"

definition cycle_job_list :: "slurm_env \<Rightarrow> part_ptr \<Rightarrow> gs_state \<Rightarrow> gs_state" where
  "cycle_job_list env p s =
     (case cycle_reorder 0 (job_list (part_at s p)) (heap s) of
        (jl, h) \<Rightarrow>
          (let s1 = upd_part p (\<lambda>q. q\<lparr>job_list := jl\<rparr>) (s\<lparr>heap := h\<rparr>);
               s2 = build_active_row p s1;
               s3 = fold (suspend_not_active env) (job_list (part_at s2 p)) s2
           in fold (resume_active env p) (job_list (part_at s3 p)) s3))"

text \<open>One pass of the loop of \<^verbatim>\<open>_timeslicer_thread\<close>, between taking and releasing the
  data lock.\<close>

definition timeslicer_tick :: "slurm_env \<Rightarrow> gs_state \<Rightarrow> gs_error + gs_state" where
  "timeslicer_tick env s =
     (case sort_partitions s of
        Inl e \<Rightarrow> Inl e
      | Inr s1 \<Rightarrow>
         Inr (fold (\<lambda>p st. if jobs_active (part_at st p)
                                 < length (job_list (part_at st p)) + length (shadow (part_at st p))
                             then cycle_job_list env p st else st)
                (gs_part_sorted s1) s1))"

subsection \<open>The hooks of the controller\<close>

fun efold :: "('a \<Rightarrow> 's \<Rightarrow> 'e + 's) \<Rightarrow> 'a list \<Rightarrow> 's \<Rightarrow> 'e + 's" where
  "efold f [] s = Inr s"
| "efold f (x # xs) s = (case f x s of Inl e \<Rightarrow> Inl e | Inr s' \<Rightarrow> efold f xs s')"

definition scan_job :: "slurm_env \<Rightarrow> job_record \<Rightarrow> gs_state \<Rightarrow> gs_error + gs_state" where
  "scan_job env jr s =
     (if jr_job_state jr = JOB_PENDING then Inr s
      else if jr_job_state jr = JOB_SUSPENDED \<or> jr_job_state jr = JOB_RUNNING
      then (case find_gs_part s (jr_partition jr) of
              None \<Rightarrow> Inr s
            | Some p \<Rightarrow>
               (case find_job_index s p (jr_job_id jr) of
                  Some i \<Rightarrow> Inr s
                | None \<Rightarrow>
                   (let s1 = (if jr_job_state jr = JOB_SUSPENDED
                              then signal_job env (jr_job_id jr) GS_RESUME s else s)
                    in case add_job_to_part env p (jr_job_id jr) (jr_node_bitmap jr) s1 of
                         Inl e \<Rightarrow> Inl e
                       | Inr (st, s2) \<Rightarrow> Inr s2)))
      else (case find_gs_part s (jr_partition jr) of
              None \<Rightarrow> Inr s
            | Some p \<Rightarrow> Inr (remove_job_from_part env (jr_job_id jr) (Some p) s)))"

definition scan_slurm_job_list :: "slurm_env \<Rightarrow> gs_state \<Rightarrow> gs_error + gs_state" where
  "scan_slurm_job_list env s =
     (case ctld_job_list env of
        None \<Rightarrow> Inr s
      | Some jl \<Rightarrow>
         (case efold (scan_job env) jl s of
            Inl e \<Rightarrow> Inl e
          | Inr s1 \<Rightarrow> update_all_active_rows env s1))"

definition gs_job_start :: "slurm_env \<Rightarrow> job_record \<Rightarrow> gs_state \<Rightarrow> gs_error + gs_state" where
  "gs_job_start env jr s =
     (case find_gs_part s (jr_partition jr) of
        None \<Rightarrow> Inr (s\<lparr>errlog := errlog s @ [PartitionNotFound (jr_partition jr) (jr_job_id jr)]\<rparr>)
      | Some p \<Rightarrow>
         (case add_job_to_part env p (jr_job_id jr) (jr_node_bitmap jr) s of
            Inl e \<Rightarrow> Inl e
          | Inr (job_state, s1) \<Rightarrow>
              if job_state = GS_RESUME then update_all_active_rows env s1 else Inr s1))"

definition gs_job_scan :: "slurm_env \<Rightarrow> gs_state \<Rightarrow> gs_error + gs_state" where
  "gs_job_scan env s = scan_slurm_job_list env s"

definition gs_job_fini :: "slurm_env \<Rightarrow> job_record \<Rightarrow> gs_state \<Rightarrow> gs_error + gs_state" where
  "gs_job_fini env jr s =
     (case find_gs_part s (jr_partition jr) of
        None \<Rightarrow> Inr s
      | Some p \<Rightarrow> update_all_active_rows env (remove_job_from_part env (jr_job_id jr) (Some p) s))"

subsection \<open>Building and destroying the partition list\<close>

definition free_jobs :: "gs_part list \<Rightarrow> (job_ptr \<rightharpoonup> gs_job) \<Rightarrow> (job_ptr \<rightharpoonup> gs_job)" where
  "free_jobs parts h = fold (\<lambda>a h. h(a := None)) (concat (map job_list parts)) h"

definition destroy_parts :: "gs_state \<Rightarrow> gs_state" where
  "destroy_parts s = s\<lparr>heap := free_jobs (gs_part_list s) (heap s), gs_part_list := []\<rparr>"

definition new_part :: "part_record \<Rightarrow> gs_part" where
  "new_part pr = \<lparr>part_name = pr_name pr, priority = pr_priority pr, job_list = [], shadow = [],
                  jobs_active = 0, active_resmap = None, active_cpus = None\<rparr>"

definition build_parts :: "slurm_env \<Rightarrow> gs_state \<Rightarrow> gs_state" where
  "build_parts env s =
     (let s1 = (if gs_part_list s \<noteq> [] then destroy_parts s else s);
          s2 = s1\<lparr>gs_part_sorted := []\<rparr>
      in if ctld_part_list env = [] then s2
         else s2\<lparr>gs_part_list := map new_part (ctld_part_list env)\<rparr>)"

definition get_gr_type :: "slurm_env \<Rightarrow> entity_type" where
  "get_gr_type env =
     (case conf_select_type_param env of
        CR_CORE \<Rightarrow> GS_CORE | CR_CORE_MEMORY \<Rightarrow> GS_CORE
      | CR_CPU \<Rightarrow> GS_CPU | CR_CPU_MEMORY \<Rightarrow> GS_CPU
      | CR_SOCKET \<Rightarrow> GS_SOCKET | CR_SOCKET_MEMORY \<Rightarrow> GS_SOCKET
      | _ \<Rightarrow> GS_NODE)"

text \<open>\<^verbatim>\<open>_load_phys_res_cnt\<close>. The two C arrays are zero filled; the lists hold their entries
  up to and including the current group \<^verbatim>\<open>gs_num_groups\<close>.\<close>

definition load_phys_res_step ::
  "slurm_env \<Rightarrow> gs_state \<Rightarrow> nat \<Rightarrow> 16 word list \<times> 32 word list \<Rightarrow> 16 word list \<times> 32 word list" where
  "load_phys_res_step env s i cr =
     (case cr of (c, r) \<Rightarrow>
        (let res = compute_resources env s i False;
             adder = (if gr_type s = GS_CORE then ucast (compute_resources env s i True) else 1)
         in if last c = res then (c, butlast r @ [last r + adder])
            else if last c \<noteq> 0 then (c @ [res], r @ [adder])
            else (butlast c @ [res], butlast r @ [adder])))"

definition load_phys_res_cnt :: "slurm_env \<Rightarrow> gs_state \<Rightarrow> gs_state" where
  "load_phys_res_cnt env s =
     (if gr_type s = GS_NODE \<or> gr_type s = GS_SOCKET
      then s\<lparr>gs_cpus_per_res := [], gs_cpu_count_reps := []\<rparr>
      else (case fold (load_phys_res_step env s) [0..<node_record_count env] ([0], [0]) of
              (c, r) \<Rightarrow> s\<lparr>gs_cpus_per_res := c, gs_cpu_count_reps := r\<rparr>))"

subsection \<open>Start, reconfiguration and end of the plugin\<close>

definition gs_init :: "slurm_env \<Rightarrow> gs_state \<Rightarrow> gs_error + gs_state" where
  "gs_init env s =
     (let s1 = s\<lparr>timeslicer_seconds := conf_sched_time_slice env,
                 gs_fast_schedule := conf_fast_schedule env,
                 gr_type := get_gr_type env\<rparr>;
          s2 = s1\<lparr>gs_resmap_size := get_resmap_size env s1\<rparr>;
          s3 = load_phys_res_cnt env s2
      in scan_slurm_job_list env (build_parts env s3))"

definition resume_removed :: "slurm_env \<Rightarrow> job_ptr \<Rightarrow> gs_state \<Rightarrow> gs_state" where
  "resume_removed env a s =
     (if sig_state (job_at s a) = GS_SUSPEND
      then upd_job a (\<lambda>j. j\<lparr>sig_state := GS_RESUME\<rparr>)
             (signal_job env (job_id (job_at s a)) GS_RESUME s)
      else s)"

definition transfer_job :: "slurm_env \<Rightarrow> part_ptr \<Rightarrow> job_ptr \<Rightarrow> gs_state \<Rightarrow> gs_error + gs_state" where
  "transfer_job env newp a s =
     (case find_job_record env (job_id (job_at s a)) of
        None \<Rightarrow> Inr s
      | Some jr \<Rightarrow>
         (let s1 = (if jr_job_state jr = JOB_SUSPENDED
                    then signal_job env (jr_job_id jr) GS_RESUME s else s)
          in if jr_job_state jr = JOB_SUSPENDED \<or> jr_job_state jr = JOB_RUNNING
             then (case add_job_to_part env newp (jr_job_id jr) (jr_node_bitmap jr) s1 of
                     Inl e \<Rightarrow> Inl e
                   | Inr (st, s2) \<Rightarrow> Inr s2)
             else Inr s1))"

definition transfer_part :: "slurm_env \<Rightarrow> gs_part \<Rightarrow> gs_state \<Rightarrow> gs_error + gs_state" where
  "transfer_part env q s =
     (case find_gs_part s (part_name q) of
        None \<Rightarrow> Inr (fold (resume_removed env) (job_list q) s)
      | Some newp \<Rightarrow>
         (if job_list q = [] then Inr s else efold (transfer_job env newp) (job_list q) s))"

definition gs_reconfig :: "slurm_env \<Rightarrow> gs_state \<Rightarrow> gs_error + gs_state" where
  "gs_reconfig env s =
     (let old_part_list = gs_part_list s;
          s1 = build_parts env (s\<lparr>gs_part_list := []\<rparr>)
      in case efold (transfer_part env) old_part_list s1 of
           Inl e \<Rightarrow> Inl e
         | Inr s2 \<Rightarrow>
            (case scan_slurm_job_list env s2 of
               Inl e \<Rightarrow> Inl e
             | Inr s3 \<Rightarrow> Inr (s3\<lparr>heap := free_jobs old_part_list (heap s3)\<rparr>)))"

text \<open>\<^verbatim>\<open>gs_fini\<close> frees the sorted array and leaves \<^verbatim>\<open>num_sorted_part\<close> as it is.\<close>

definition gs_fini :: "gs_state \<Rightarrow> gs_state" where
  "gs_fini s = (destroy_parts s)\<lparr>gs_part_sorted_alloc := None, gs_cpus_per_res := [], gs_cpu_count_reps := []\<rparr>"

section \<open>Notions used in the statements\<close>

text \<open>The number of resmap bits covered by the first \<open>k\<close> runs of the capacity table.\<close>

definition reps_upto :: "32 word list \<Rightarrow> nat \<Rightarrow> nat" where
  "reps_upto reps k = sum_list (map unat (take k reps))"

text \<open>The alignment index of bit \<open>i\<close>: the number of set bits of the job's resmap strictly
  below \<open>i\<close>. A bit is shared when it is set in the job's resmap and in the active resmap.\<close>

definition align_index :: "bitstr \<Rightarrow> nat \<Rightarrow> nat" where
  "align_index jmap i = bit_set_count (take i jmap)"

definition shared_bit :: "gs_job \<Rightarrow> bitstr \<Rightarrow> nat \<Rightarrow> bool" where
  "shared_bit j amap i = (i < length (resmap j) \<and> i < length amap \<and> resmap j ! i \<and> amap ! i)"

text \<open>The signal state of the job with a given id in a partition, if the partition tracks it.\<close>

definition job_sig_state :: "gs_state \<Rightarrow> part_ptr \<Rightarrow> 32 word \<Rightarrow> gs_flags option" where
  "job_sig_state s p jid =
     (case find_job_index s p jid of
        None \<Rightarrow> None
      | Some i \<Rightarrow> Some (sig_state (job_at s (job_list (part_at s p) ! i))))"

subsection \<open>Scenario S1: two nodes, one partition, two jobs on the first node\<close>

definition S1_node :: node_record where
  "S1_node = \<lparr>cpus = 4, sockets = 1, cores = 4, config_cpus = 4, config_sockets = 1, config_cores = 4\<rparr>"

definition S1_env :: slurm_env where
  "S1_env = \<lparr>node_record_table = [S1_node, S1_node], select_g_get_job_cores = (\<lambda>_ _ _. 0),
     job_suspend = (\<lambda>_ _ _. 0), find_job_record = (\<lambda>_. None), ctld_job_list = None,
     ctld_part_list = [], conf_select_type_param = SELECT_TYPE_INFO_NONE,
     conf_sched_time_slice = 30, conf_fast_schedule = 1\<rparr>"

definition S1_part :: gs_part where
  "S1_part = \<lparr>part_name = ''p'', priority = 1, job_list = [], shadow = [], jobs_active = 0,
      active_resmap = None, active_cpus = None\<rparr>"

definition S1_init :: gs_state where
  "S1_init = \<lparr>timeslicer_seconds = 30, gr_type = GS_NODE, gs_fast_schedule = 1, gs_resmap_size = 2,
     gs_cpus_per_res = [], gs_cpu_count_reps = [], gs_part_list = [S1_part], gs_part_sorted = [],
     gs_part_sorted_alloc = None,
     heap = Map.empty, next_job_ptr = 0, signals = [], errlog = []\<rparr>"

definition S1_jobA :: job_record where
  "S1_jobA = \<lparr>jr_job_id = 1, jr_job_state = JOB_RUNNING, jr_partition = ''p'',
     jr_node_bitmap = [True, False]\<rparr>"

definition S1_jobB :: job_record where
  "S1_jobB = \<lparr>jr_job_id = 2, jr_job_state = JOB_RUNNING, jr_partition = ''p'',
     jr_node_bitmap = [True, False]\<rparr>"

definition S1_started :: "gs_error + gs_state" where
  "S1_started = (case gs_job_start S1_env S1_jobA S1_init of
                   Inl e \<Rightarrow> Inl e | Inr s \<Rightarrow> gs_job_start S1_env S1_jobB s)"

fun S1_cycles :: "nat \<Rightarrow> gs_error + gs_state" where
  "S1_cycles 0 = S1_started"
| "S1_cycles (Suc n) = map_sum id (cycle_job_list S1_env 0) (S1_cycles n)"

definition S1_sig_states :: "gs_state \<Rightarrow> gs_flags option \<times> gs_flags option" where
  "S1_sig_states s = (job_sig_state s 0 1, job_sig_state s 0 2)"

definition S1_sigs :: "gs_error + gs_state \<Rightarrow> gs_error + gs_flags option \<times> gs_flags option" where
  "S1_sigs r = map_sum id S1_sig_states r"

definition S1_running :: gs_state where
  "S1_running = (case S1_started of Inr s \<Rightarrow> s | Inl e \<Rightarrow> S1_init)"

subsection \<open>Scenario S3: core granularity, one socket with four cores\<close>

definition S3_state :: gs_state where
  "S3_state = \<lparr>timeslicer_seconds = 30, gr_type = GS_CORE, gs_fast_schedule = 1, gs_resmap_size = 1,
     gs_cpus_per_res = [4], gs_cpu_count_reps = [1], gs_part_list = [], gs_part_sorted = [],
     gs_part_sorted_alloc = None,
     heap = Map.empty, next_job_ptr = 0, signals = [], errlog = []\<rparr>"

definition S3_row :: "16 word list option \<Rightarrow> gs_part" where
  "S3_row c = \<lparr>part_name = ''p'', priority = 1, job_list = [], shadow = [], jobs_active = 1,
      active_resmap = Some [True], active_cpus = c\<rparr>"

definition S3_job :: "16 word list option \<Rightarrow> gs_job" where
  "S3_job c = \<lparr>job_id = 2, sig_state = GS_RESUME, row_state = GS_NO_ACTIVE, resmap = [True],
      alloc_cpus = c\<rparr>"

subsection \<open>Order of the sorted partition array\<close>

text \<open>\<open>prio_desc\<close>: the priorities along the array never increase. \<open>sorted_upto\<close> is the
  invariant of the outer loop of \<^verbatim>\<open>_sort_partitions\<close>: each of the first \<open>j\<close> entries has a
  priority at least that of every later entry.\<close>

definition prio_desc :: "gs_part list \<Rightarrow> part_ptr list \<Rightarrow> bool" where
  "prio_desc parts srt = sorted_wrt (\<lambda>p q. priority (parts ! q) \<le> priority (parts ! p)) srt"

definition sorted_upto :: "gs_part list \<Rightarrow> nat \<Rightarrow> part_ptr list \<Rightarrow> bool" where
  "sorted_upto parts j srt =
     (\<forall>p q. p < j \<and> p < q \<and> q < length srt \<longrightarrow> priority (parts ! (srt ! q)) \<le> priority (parts ! (srt ! p)))"

definition C4_part :: "string \<Rightarrow> 16 word \<Rightarrow> gs_part" where
  "C4_part name prio = \<lparr>part_name = name, priority = prio, job_list = [], shadow = [],
      jobs_active = 0, active_resmap = None, active_cpus = None\<rparr>"

definition C4_state :: "part_ptr list \<Rightarrow> gs_state" where
  "C4_state srt = \<lparr>timeslicer_seconds = 30, gr_type = GS_NODE, gs_fast_schedule = 1, gs_resmap_size = 2,
     gs_cpus_per_res = [], gs_cpu_count_reps = [],
     gs_part_list = [C4_part ''a'' 1, C4_part ''b'' 1, C4_part ''c'' 2], gs_part_sorted = srt,
     gs_part_sorted_alloc = (if srt = [] then None else Some (length srt)),
     heap = Map.empty, next_job_ptr = 0, signals = [], errlog = []\<rparr>"

subsection \<open>The scheduler state without the error log\<close>

text \<open>\<open>sched_view\<close> forgets the error log and keeps everything else: partitions, jobs,
  active rows, shadows and the list of emitted signals.\<close>

definition sched_view :: "gs_state \<Rightarrow> gs_state" where
  "sched_view s = s\<lparr>errlog := []\<rparr>"

definition sched_result :: "gs_error + gs_state \<Rightarrow> gs_error + gs_state" where
  "sched_result r = map_sum id sched_view r"

definition sched_result2 :: "gs_error + gs_flags \<times> gs_state \<Rightarrow> gs_error + gs_flags \<times> gs_state" where
  "sched_result2 r = map_sum id (map_prod id sched_view) r"

subsection \<open>The invariant of the shadow lists\<close>

text \<open>Priority monotonicity as the specification states it: every job in the shadow list of
  a partition is in the job list of a partition of strictly higher priority.\<close>

definition shadow_prio_ok :: "gs_part list \<Rightarrow> bool" where
  "shadow_prio_ok ps =
     (\<forall>q \<in> set ps. \<forall>a \<in> set (shadow q).
        \<exists>q' \<in> set ps. a \<in> set (job_list q') \<and> priority q < priority q')"

text \<open>When the sorted array has as many entries as there are partitions, it holds every
  partition exactly once and, unless there is no partition, it was allocated with that
  many entries (otherwise \<^verbatim>\<open>_sort_partitions\<close> allocates and reloads it).\<close>

definition sorted_ok :: "gs_state \<Rightarrow> bool" where
  "sorted_ok s =
     (length (gs_part_sorted s) = length (gs_part_list s) \<longrightarrow>
        mset (gs_part_sorted s) = mset [0..<length (gs_part_list s)]
        \<and> (gs_part_list s \<noteq> [] \<longrightarrow> gs_part_sorted_alloc s = Some (length (gs_part_list s))))"

text \<open>The invariant of the shadow lists: no job is twice in one shadow list (\<^verbatim>\<open>_cast_shadow\<close>
  looks the job up first) and priority monotonicity holds.\<close>

definition shadows_wf :: "gs_part list \<Rightarrow> bool" where
  "shadows_wf ps = ((\<forall>q \<in> set ps. distinct (shadow q)) \<and> shadow_prio_ok ps)"

definition gs_inv :: "gs_state \<Rightarrow> bool" where
  "gs_inv s = (sorted_ok s \<and> shadows_wf (gs_part_list s))"

text \<open>Relations between the partitions before and after a step, used to carry the invariant
  across it.\<close>

definition part_le :: "gs_part \<Rightarrow> gs_part \<Rightarrow> bool" where
  "part_le q q' =
     (priority q' = priority q \<and> set (job_list q) \<subseteq> set (job_list q')
      \<and> set (shadow q') \<subseteq> set (shadow q) \<and> (distinct (shadow q) \<longrightarrow> distinct (shadow q')))"

definition same_jobs :: "gs_state \<Rightarrow> gs_state \<Rightarrow> bool" where
  "same_jobs s s' =
     (map priority (gs_part_list s') = map priority (gs_part_list s)
      \<and> map job_list (gs_part_list s') = map job_list (gs_part_list s)
      \<and> gs_part_sorted s' = gs_part_sorted s
      \<and> gs_part_sorted_alloc s' = gs_part_sorted_alloc s)"

definition inv_step :: "gs_state \<Rightarrow> gs_state \<Rightarrow> bool" where
  "inv_step s s' = (gs_inv s' \<and> same_jobs s s')"

definition inv_len :: "gs_state \<Rightarrow> gs_state \<Rightarrow> bool" where
  "inv_len s s' = (gs_inv s' \<and> map priority (gs_part_list s') = map priority (gs_part_list s))"

text \<open>The invariant as a function that can be evaluated on a concrete state.\<close>

definition gs_inv_check :: "gs_state \<Rightarrow> bool" where
  "gs_inv_check s =
     ((if length (gs_part_sorted s) = length (gs_part_list s)
       then sort (gs_part_sorted s) = [0..<length (gs_part_list s)]
            \<and> (if gs_part_list s = [] then True
                else gs_part_sorted_alloc s = Some (length (gs_part_list s)))
       else True)
      \<and> list_all (\<lambda>q. distinct (shadow q)
            \<and> list_all (\<lambda>a. list_ex (\<lambda>q'. a \<in> set (job_list q') \<and> priority q < priority q')
                                   (gs_part_list s)) (shadow q))
          (gs_part_list s))"

subsection \<open>Scenario S4: a high and a low partition competing for the first node\<close>

definition S4_part :: "string \<Rightarrow> 16 word \<Rightarrow> gs_part" where
  "S4_part name prio = \<lparr>part_name = name, priority = prio, job_list = [], shadow = [],
      jobs_active = 0, active_resmap = None, active_cpus = None\<rparr>"

definition S4_init :: gs_state where
  "S4_init = \<lparr>timeslicer_seconds = 30, gr_type = GS_NODE, gs_fast_schedule = 1, gs_resmap_size = 2,
     gs_cpus_per_res = [], gs_cpu_count_reps = [],
     gs_part_list = [S4_part ''low'' 10, S4_part ''high'' 100], gs_part_sorted = [],
     gs_part_sorted_alloc = None,
     heap = Map.empty, next_job_ptr = 0, signals = [], errlog = []\<rparr>"

definition S4_jobX :: job_record where
  "S4_jobX = \<lparr>jr_job_id = 1, jr_job_state = JOB_RUNNING, jr_partition = ''low'',
     jr_node_bitmap = [True, False]\<rparr>"

definition S4_jobY :: job_record where
  "S4_jobY = \<lparr>jr_job_id = 2, jr_job_state = JOB_RUNNING, jr_partition = ''high'',
     jr_node_bitmap = [True, False]\<rparr>"

definition S4_running :: gs_state where
  "S4_running = (case gs_job_start S1_env S4_jobX S4_init of
                   Inl e \<Rightarrow> S4_init
                 | Inr s \<Rightarrow> (case gs_job_start S1_env S4_jobY s of Inl e \<Rightarrow> S4_init | Inr s' \<Rightarrow> s'))"


subsection \<open>The count of the active row\<close>

text \<open>A job is seated when its row state is Active or Filler. \<open>row_count_ok\<close> is the
  equation of the specification for one partition: the count of the active row is the
  number of seated jobs of the partition plus the number of its shadows. \<open>all_rows_ok\<close>
  states it for every partition, as a function that can be evaluated.\<close>

definition seated :: "gs_state \<Rightarrow> job_ptr \<Rightarrow> bool" where
  "seated s a = (row_state (job_at s a) = GS_ACTIVE \<or> row_state (job_at s a) = GS_FILLER)"

definition row_count_ok :: "gs_state \<Rightarrow> part_ptr \<Rightarrow> bool" where
  "row_count_ok s p =
     (jobs_active (part_at s p)
        = length (filter (seated s) (job_list (part_at s p))) + length (shadow (part_at s p)))"

definition all_rows_ok :: "gs_state \<Rightarrow> bool" where
  "all_rows_ok s = list_all (row_count_ok s) [0..<length (gs_part_list s)]"

text \<open>No job is in two job lists or twice in one, and every job of a list was handed out by
  the allocator of the model. \<open>jobs_rng\<close> adds a lower bound, for the jobs created since a
  reconfiguration began.\<close>

definition jobs_wf :: "gs_state \<Rightarrow> bool" where
  "jobs_wf s =
     (distinct (concat (map job_list (gs_part_list s)))
      \<and> list_all (\<lambda>a. a < next_job_ptr s) (concat (map job_list (gs_part_list s))))"

definition jobs_rng :: "nat \<Rightarrow> gs_state \<Rightarrow> bool" where
  "jobs_rng n0 s =
     (jobs_wf s \<and> n0 \<le> next_job_ptr s
      \<and> list_all (\<lambda>a. n0 \<le> a) (concat (map job_list (gs_part_list s))))"

definition wf_rng :: "nat \<Rightarrow> gs_state \<Rightarrow> bool" where
  "wf_rng n0 s = (gs_inv s \<and> jobs_rng n0 s)"

text \<open>What the rebuild of partition \<open>p\<close> leaves alone: the job lists and priorities, the
  shadow lists of the partitions at least as high as \<open>p\<close>, the counts of the other
  partitions, and the jobs that are not in the job list of \<open>p\<close>.\<close>

definition row_frame :: "part_ptr \<Rightarrow> gs_state \<Rightarrow> gs_state \<Rightarrow> bool" where
  "row_frame p s s' =
     (same_jobs s s' \<and> next_job_ptr s' = next_job_ptr s
      \<and> (\<forall>q < length (gs_part_list s). priority (part_at s p) \<le> priority (part_at s q)
             \<longrightarrow> shadow (part_at s' q) = shadow (part_at s q))
      \<and> (\<forall>q < length (gs_part_list s). q \<noteq> p \<longrightarrow> jobs_active (part_at s' q) = jobs_active (part_at s q))
      \<and> (\<forall>b. b \<notin> set (job_list (part_at s p)) \<longrightarrow> job_at s' b = job_at s b))"

text \<open>The invariant carried through the loops of \<^verbatim>\<open>_cycle_job_list\<close>.\<close>

definition count_inv :: "part_ptr \<Rightarrow> job_ptr list \<Rightarrow> gs_state \<Rightarrow> bool" where
  "count_inv p JL s =
     (gs_inv s \<and> jobs_wf s \<and> p < length (gs_part_list s) \<and> job_list (part_at s p) = JL
      \<and> row_count_ok s p)"

subsection \<open>Scenario for the counts: three jobs of the high partition, one of the low\<close>

definition C2_jobA :: job_record where
  "C2_jobA = \<lparr>jr_job_id = 1, jr_job_state = JOB_RUNNING, jr_partition = ''high'',
     jr_node_bitmap = [True, True]\<rparr>"

definition C2_jobB :: job_record where
  "C2_jobB = \<lparr>jr_job_id = 2, jr_job_state = JOB_RUNNING, jr_partition = ''high'',
     jr_node_bitmap = [True, False]\<rparr>"

definition C2_jobC :: job_record where
  "C2_jobC = \<lparr>jr_job_id = 3, jr_job_state = JOB_RUNNING, jr_partition = ''high'',
     jr_node_bitmap = [False, True]\<rparr>"

definition C2_jobX :: job_record where
  "C2_jobX = \<lparr>jr_job_id = 4, jr_job_state = JOB_RUNNING, jr_partition = ''low'',
     jr_node_bitmap = [False, True]\<rparr>"

definition C2_started :: gs_state where
  "C2_started = (case efold (gs_job_start S1_env) [C2_jobA, C2_jobB, C2_jobC, C2_jobX] S4_init of
                   Inl e \<Rightarrow> S4_init | Inr s \<Rightarrow> s)"

definition C2_cycled :: gs_state where
  "C2_cycled = cycle_job_list S1_env 1 C2_started"

definition C2_shadowed :: gs_state where
  "C2_shadowed = (case gs_job_start S1_env S4_jobY S4_init of Inl e \<Rightarrow> S4_init | Inr s \<Rightarrow> s)"

definition C2_env :: slurm_env where
  "C2_env = S1_env\<lparr>
     find_job_record := (\<lambda>i. if i = 1 then Some S4_jobX else if i = 2 then Some S4_jobY else None),
     ctld_job_list := Some [S4_jobX, S4_jobY],
     ctld_part_list := [\<lparr>pr_name = ''low'', pr_priority = 10\<rparr>, \<lparr>pr_name = ''high'', pr_priority = 100\<rparr>]\<rparr>"


section \<open>The capacity of a resmap bit\<close>

lemma sint_of_nat_small:
  assumes "n < 2 ^ 31" shows "sint (word_of_nat n :: 32 word) = int n"
proof -
  have "signed_take_bit 31 (int n) = int n"
    using assms by (intro signed_take_bit_int_eq_self) auto
  then show ?thesis by (simp add: signed_of_nat)
qed

lemma sle_of_nat_small:
  "m < 2 ^ 31 \<Longrightarrow> n < 2 ^ 31 \<Longrightarrow> ((word_of_nat m :: 32 word) \<le>s word_of_nat n) = (m \<le> n)"
  by (simp add: word_sle_eq sint_of_nat_small)

lemma reps_upto_Suc:
  "k < length reps \<Longrightarrow> reps_upto reps (Suc k) = reps_upto reps k + unat (reps ! k)"
  by (simp add: reps_upto_def take_Suc_conv_app_nth)

lemma reps_upto_mono: "k \<le> k' \<Longrightarrow> reps_upto reps k \<le> reps_upto reps k'"
proof -
  assume "k \<le> k'"
  then obtain d where "k' = k + d" using le_Suc_ex by blast
  then show ?thesis by (simp add: reps_upto_def take_add)
qed

lemma phys_res_loop_run:
  assumes "reps_upto reps (length reps) < 2 ^ 31" "r < reps_upto reps (length reps)"
    and "n \<le> length reps" "0 < n" "reps_upto reps (n - 1) \<le> r"
  shows "\<exists>m. phys_res_loop reps n (word_of_nat (reps_upto reps n)) (word_of_nat r) = Some m
           \<and> 0 < m \<and> m \<le> length reps \<and> reps_upto reps (m - 1) \<le> r \<and> r < reps_upto reps m"
  using assms
proof (induction "length reps - n" arbitrary: n)
  case 0
  then have n: "n = length reps" by simp
  with 0 have "\<not> (reps_upto reps n \<le> r)" by simp
  moreover have "reps_upto reps n < 2 ^ 31" "r < 2 ^ 31" using 0 n by auto
  ultimately have "\<not> ((word_of_nat (reps_upto reps n) :: 32 word) \<le>s word_of_nat r)"
    by (simp add: sle_of_nat_small)
  then show ?case using 0 n by (subst phys_res_loop.simps) auto
next
  case (Suc d)
  then have n: "n < length reps" by simp
  have b: "reps_upto reps n < 2 ^ 31" "r < 2 ^ 31"
    using Suc.prems reps_upto_mono[of n "length reps" reps] by auto
  show ?case
  proof (cases "reps_upto reps n \<le> r")
    case True
    have w: "(word_of_nat (reps_upto reps n) :: 32 word) + reps ! n = word_of_nat (reps_upto reps (Suc n))"
      using n by (simp add: reps_upto_Suc)
    have d: "d = length reps - Suc n" using Suc.hyps by simp
    have "\<exists>m. phys_res_loop reps (Suc n) (word_of_nat (reps_upto reps (Suc n))) (word_of_nat r) = Some m
           \<and> 0 < m \<and> m \<le> length reps \<and> reps_upto reps (m - 1) \<le> r \<and> r < reps_upto reps m"
    proof (rule Suc.hyps(1)[OF d Suc.prems(1,2)])
      show "Suc n \<le> length reps" using n by simp
      show "0 < Suc n" by simp
      show "reps_upto reps (Suc n - 1) \<le> r" using True by simp
    qed
    moreover have "phys_res_loop reps n (word_of_nat (reps_upto reps n)) (word_of_nat r)
        = phys_res_loop reps (Suc n) (word_of_nat (reps_upto reps (Suc n))) (word_of_nat r)"
      using True b n by (subst phys_res_loop.simps) (simp add: sle_of_nat_small w)
    ultimately show ?thesis by simp
  next
    case False
    then show ?thesis using b Suc.prems
      by (subst phys_res_loop.simps) (simp add: sle_of_nat_small)
  qed
qed


text \<open>Claim C8. For every bit index \<open>i\<close> covered by the run-length table (and a table
  whose total stays below \<open>2^31\<close>, so that the C \<^verbatim>\<open>int\<close> position does not overflow),
  \<^verbatim>\<open>_get_phys_res_cnt\<close> returns the capacity of the run \<open>k\<close> that contains bit \<open>i\<close>: the
  runs before \<open>k\<close> cover at most \<open>i\<close> bits, the runs up to and including \<open>k\<close> cover
  more than \<open>i\<close> bits, and \<open>k\<close> is the only run with that property.\<close>

theorem get_phys_res_cnt_run:
  assumes "sum_list (map unat reps) < 2 ^ 31" "length cpus_per_res = length reps"
    and "i < sum_list (map unat reps)"
  shows "\<exists>k<length reps.
           get_phys_res_cnt reps cpus_per_res (word_of_nat i) = Some (cpus_per_res ! k)
         \<and> sum_list (map unat (take k reps)) \<le> i
         \<and> i < sum_list (map unat (take (Suc k) reps))
         \<and> (\<forall>k'<length reps. sum_list (map unat (take k' reps)) \<le> i
                \<and> i < sum_list (map unat (take (Suc k') reps)) \<longrightarrow> k' = k)"
proof -
  have ne: "reps \<noteq> []" using assms(3) by auto
  have tot: "reps_upto reps (length reps) = sum_list (map unat reps)" by (simp add: reps_upto_def)
  have zero: "reps_upto reps 0 = 0" by (simp add: reps_upto_def)
  have one: "(reps ! 0) = word_of_nat (reps_upto reps 1)"
    using ne by (cases reps) (simp_all add: reps_upto_def)
  have "\<exists>m. phys_res_loop reps 1 (word_of_nat (reps_upto reps 1)) (word_of_nat i) = Some m
           \<and> 0 < m \<and> m \<le> length reps \<and> reps_upto reps (m - 1) \<le> i \<and> i < reps_upto reps m"
  proof (rule phys_res_loop_run)
    show "reps_upto reps (length reps) < 2 ^ 31" using assms(1) tot by simp
    show "i < reps_upto reps (length reps)" using assms(3) tot by simp
    show "1 \<le> length reps" using ne by (simp add: Suc_le_eq)
    show "0 < (1::nat)" by simp
    show "reps_upto reps (1 - 1) \<le> i" using zero by simp
  qed
  then obtain m where m: "phys_res_loop reps 1 (word_of_nat (reps_upto reps 1)) (word_of_nat i) = Some m"
      "0 < m" "m \<le> length reps" "reps_upto reps (m - 1) \<le> i" "i < reps_upto reps m"
    by blast
  define k where "k = m - 1"
  have k: "k < length reps" "Suc k = m" using m by (auto simp: k_def)
  have uniq: "k' = k" if "k' < length reps" "reps_upto reps k' \<le> i" "i < reps_upto reps (Suc k')" for k'
  proof (rule ccontr)
    assume "k' \<noteq> k"
    then consider "Suc k' \<le> k" | "m \<le> k'" using k by linarith
    then show False
    proof cases
      case 1
      then show ?thesis using reps_upto_mono[of "Suc k'" k reps] that m(4) by (simp add: k_def)
    next
      case 2
      then show ?thesis using reps_upto_mono[of m k' reps] that m(5) by simp
    qed
  qed
  have g: "get_phys_res_cnt reps cpus_per_res (word_of_nat i) = Some (cpus_per_res ! k)"
    using ne m(1) k assms(2) by (simp add: get_phys_res_cnt_def one k_def)
  have "k < length reps \<and> get_phys_res_cnt reps cpus_per_res (word_of_nat i) = Some (cpus_per_res ! k)
         \<and> reps_upto reps k \<le> i \<and> i < reps_upto reps (Suc k)
         \<and> (\<forall>k'<length reps. reps_upto reps k' \<le> i \<and> i < reps_upto reps (Suc k') \<longrightarrow> k' = k)"
  proof -
    have mk1: "reps_upto reps k \<le> i" using m(4) unfolding k_def .
    have mk2: "i < reps_upto reps (Suc k)" using m(5) k(2) by simp
    show ?thesis using k(1) g mk1 mk2 uniq by blast
  qed
  then show ?thesis unfolding reps_upto_def by (intro exI[of _ k]) simp
qed

theorem get_phys_res_cnt_run_witness:
  "sum_list (map unat [2, 3 :: 32 word]) < 2 ^ 31 \<and> length [4, 8 :: 16 word] = length [2, 3 :: 32 word]
   \<and> 3 < sum_list (map unat [2, 3 :: 32 word])
   \<and> get_phys_res_cnt [2, 3] [4, 8] (word_of_nat 3) = Some 8"
proof -
  have a: "sum_list (map unat [2, 3 :: 32 word]) < 2 ^ 31" by simp
  have b: "length [4, 8 :: 16 word] = length [2, 3 :: 32 word]" by simp
  have c: "3 < sum_list (map unat [2, 3 :: 32 word])" by simp
  from get_phys_res_cnt_run[OF a b c]
  obtain k where k: "k < length [2, 3 :: 32 word]"
     "get_phys_res_cnt [2, 3] [4, 8 :: 16 word] (word_of_nat 3) = Some ([4, 8] ! k)"
     "3 < sum_list (map unat (take (Suc k) [2, 3 :: 32 word]))"
    by blast
  from k(1) have "k = 0 \<or> k = 1" by auto
  with k(3) have "k = 1" by auto
  with k(2) have "get_phys_res_cnt [2, 3] [4, 8 :: 16 word] (word_of_nat 3) = Some 8" by simp
  with a b c show ?thesis by (intro conjI)
qed

section \<open>The fit test\<close>

lemma align_index_Suc:
  "i < length jmap \<Longrightarrow> align_index jmap (Suc i) = (if bit_test jmap i then Suc (align_index jmap i) else align_index jmap i)"
  by (simp add: align_index_def bit_set_count_def bit_test_def take_Suc_conv_app_nth)

lemma can_cpus_fit_loop_all:
  assumes "length setmap \<le> length jmap" "i \<le> length setmap"
  shows "can_cpus_fit_loop s setmap jmap p_cpus j_cpus i (align_index jmap i)
         = (\<forall>k. i \<le> k \<and> k < length setmap \<and> setmap ! k \<longrightarrow>
              uint (p_cpus ! k) + uint (j_cpus ! align_index jmap k) \<le> uint (phys_res_cnt s k))"
  using assms
proof (induction "length setmap - i" arbitrary: i)
  case 0
  then have "i = length setmap" by simp
  then show ?case by (subst can_cpus_fit_loop.simps) (simp add: bit_size_def)
next
  case (Suc d)
  then have i: "i < length setmap" "i < length jmap" by auto
  have d: "d = length setmap - Suc i" using Suc.hyps by simp
  have IH: "can_cpus_fit_loop s setmap jmap p_cpus j_cpus (Suc i) (align_index jmap (Suc i))
         = (\<forall>k. Suc i \<le> k \<and> k < length setmap \<and> setmap ! k \<longrightarrow>
              uint (p_cpus ! k) + uint (j_cpus ! align_index jmap k) \<le> uint (phys_res_cnt s k))"
    using Suc.hyps(1)[OF d Suc.prems(1)] i by simp
  have split: "(\<forall>k. i \<le> k \<and> k < length setmap \<and> setmap ! k \<longrightarrow> Q k)
      = ((setmap ! i \<longrightarrow> Q i) \<and> (\<forall>k. Suc i \<le> k \<and> k < length setmap \<and> setmap ! k \<longrightarrow> Q k))" for Q
    using i(1) by (metis Suc_leI le_neq_implies_less Suc_leD order_refl)
  have nxt: "(if bit_test jmap i then Suc (align_index jmap i) else align_index jmap i) = align_index jmap (Suc i)"
    using i by (simp add: align_index_Suc)
  show ?case
    apply (subst can_cpus_fit_loop.simps)
    apply (subst split)
    apply (simp only: nxt IH)
    using i apply (auto simp: bit_size_def bit_test_def)
    done
qed

lemma bit_set_count_and_0:
  "(bit_set_count (bit_and xs ys) = 0) = (\<forall>i. i < length xs \<and> i < length ys \<longrightarrow> \<not> (xs ! i \<and> ys ! i))"
proof -
  have "(bit_set_count (bit_and xs ys) = 0) = (\<forall>b \<in> set (map2 (\<and>) xs ys). \<not> b)"
    by (simp add: bit_set_count_def bit_and_def filter_empty_conv)
  also have "\<dots> = (\<forall>i < length (map2 (\<and>) xs ys). \<not> (map2 (\<and>) xs ys ! i))"
    by (simp only: all_set_conv_all_nth)
  also have "\<dots> = (\<forall>i. i < length xs \<and> i < length ys \<longrightarrow> \<not> (xs ! i \<and> ys ! i))"
    by auto
  finally show ?thesis .
qed


text \<open>Claim C3. \<^verbatim>\<open>_job_fits_in_active_row\<close> answers true when the partition has no active
  resmap or no active job; otherwise true when the job's resmap and the active resmap share
  no set bit; with a shared bit it answers false for node and socket granularity; and for
  core and CPU granularity it answers true exactly when both CPU vectors exist and, at
  every shared bit \<open>i\<close>, the active CPU count plus the job's count at the alignment index
  of \<open>i\<close> stays within the capacity of \<open>i\<close>. Nothing is assumed of the state, the job or
  the partition.\<close>

theorem job_fits_in_active_row_spec:
  "job_fits_in_active_row s j p =
     (if active_resmap p = None \<or> jobs_active p = 0 then True
      else if \<forall>i. \<not> shared_bit j (the (active_resmap p)) i then True
      else if gr_type s = GS_NODE \<or> gr_type s = GS_SOCKET then False
      else active_cpus p \<noteq> None \<and> alloc_cpus j \<noteq> None
           \<and> (\<forall>i. shared_bit j (the (active_resmap p)) i \<longrightarrow>
                 uint (the (active_cpus p) ! i) + uint (the (alloc_cpus j) ! align_index (resmap j) i)
                   \<le> uint (phys_res_cnt s i)))"
proof (cases "active_resmap p")
  case None
  then show ?thesis by (simp add: job_fits_in_active_row_def)
next
  case (Some amap)
  let ?tmp = "bit_and (bit_copy (resmap j)) amap"
  have cnt: "(bit_set_count ?tmp = 0) = (\<forall>i. \<not> shared_bit j amap i)"
    unfolding bit_copy_def bit_set_count_and_0 shared_bit_def by blast
  show ?thesis
  proof (cases "jobs_active p = 0 \<or> (\<forall>i. \<not> shared_bit j amap i) \<or> gr_type s = GS_NODE \<or> gr_type s = GS_SOCKET")
    case True
    then show ?thesis using Some cnt by (auto simp: job_fits_in_active_row_def Let_def)
  next
    case False
    show ?thesis
    proof (cases "active_cpus p = None \<or> alloc_cpus j = None")
      case True
      then have "\<not> can_cpus_fit s ?tmp j p"
        by (auto simp: can_cpus_fit_def split: option.splits)
      then show ?thesis using False Some cnt True
        by (auto simp: job_fits_in_active_row_def Let_def)
    next
      case nn: False
      then obtain pc jc where v: "active_cpus p = Some pc" "alloc_cpus j = Some jc" by auto
      have len: "length ?tmp \<le> length (resmap j)" by (simp add: bit_and_def bit_copy_def)
      have nth: "k < length ?tmp \<and> ?tmp ! k \<longleftrightarrow> shared_bit j amap k" for k
        by (auto simp: bit_and_def bit_copy_def shared_bit_def)
      have "can_cpus_fit s ?tmp j p = can_cpus_fit_loop s ?tmp (resmap j) pc jc 0 (align_index (resmap j) 0)"
        using v by (simp add: can_cpus_fit_def align_index_def bit_set_count_def)
      also have "\<dots> = (\<forall>k. 0 \<le> k \<and> k < length ?tmp \<and> ?tmp ! k \<longrightarrow>
                uint (pc ! k) + uint (jc ! align_index (resmap j) k) \<le> uint (phys_res_cnt s k))"
        by (rule can_cpus_fit_loop_all[OF len]) simp
      also have "\<dots> = (\<forall>k. shared_bit j amap k \<longrightarrow>
                uint (pc ! k) + uint (jc ! align_index (resmap j) k) \<le> uint (phys_res_cnt s k))"
        using nth by auto
      finally show ?thesis using False Some cnt v by (simp add: job_fits_in_active_row_def Let_def)
    qed
  qed
qed

theorem job_fits_in_active_row_spec_witness:
  "gr_type S3_state = GS_CORE
   \<and> \<not> job_fits_in_active_row S3_state (S3_job (Some [2])) (S3_row (Some [3]))
   \<and> job_fits_in_active_row S3_state (S3_job (Some [2])) (S3_row (Some [2]))
   \<and> job_fits_in_active_row S3_state (S3_job None) (new_part \<lparr>pr_name = ''p'', pr_priority = 1\<rparr>)"
proof -
  have sh: "shared_bit (S3_job c) [True] i = (i = 0)" for i c
    by (auto simp: shared_bit_def S3_job_def)
  have r: "active_resmap (S3_row c) = Some [True]" "jobs_active (S3_row c) = 1"
      "active_cpus (S3_row c) = c" "alloc_cpus (S3_job c) = c" "resmap (S3_job c) = [True]"
      "gr_type S3_state = GS_CORE" for c
    by (simp_all add: S3_row_def S3_job_def S3_state_def)
  have a3: "\<not> uint ([3 :: 16 word] ! 0) + uint ([2 :: 16 word] ! align_index [True] 0)
              \<le> uint (phys_res_cnt S3_state 0)"
    by code_simp
  have a2: "uint ([2 :: 16 word] ! 0) + uint ([2 :: 16 word] ! align_index [True] 0)
              \<le> uint (phys_res_cnt S3_state 0)"
    by code_simp
  have f3: "\<not> job_fits_in_active_row S3_state (S3_job (Some [2])) (S3_row (Some [3]))"
    using a3 by (subst job_fits_in_active_row_spec) (simp add: r sh)
  have f2: "job_fits_in_active_row S3_state (S3_job (Some [2])) (S3_row (Some [2]))"
    using a2 by (subst job_fits_in_active_row_spec) (simp add: r sh)
  have f0: "job_fits_in_active_row S3_state (S3_job None) (new_part \<lparr>pr_name = ''p'', pr_priority = 1\<rparr>)"
    by (subst job_fits_in_active_row_spec) (simp add: new_part_def)
  show ?thesis using r(6) f3 f2 f0 by (intro conjI)
qed

text \<open>Claim C10. For core or CPU granularity, with a non-empty active row and a shared bit,
  the fit test answers false whenever the partition's active CPU vector or the job's CPU
  vector is NULL.\<close>

theorem job_fits_null_cpus:
  assumes "gr_type s = GS_CORE \<or> gr_type s = GS_CPU"
    and "active_resmap p = Some amap" "jobs_active p > 0"
    and "shared_bit j amap i"
    and "active_cpus p = None \<or> alloc_cpus j = None"
  shows "\<not> job_fits_in_active_row s j p"
proof -
  have "bit_set_count (bit_and (bit_copy (resmap j)) amap) \<noteq> 0"
    using assms(4) by (auto simp: bit_copy_def bit_set_count_and_0 shared_bit_def)
  moreover have "\<not> can_cpus_fit s m j p" for m
    using assms(5) by (auto simp: can_cpus_fit_def split: option.splits)
  ultimately show ?thesis using assms(1,2,3)
    by (auto simp: job_fits_in_active_row_def Let_def)
qed

theorem job_fits_null_cpus_witness:
  "(gr_type S3_state = GS_CORE \<or> gr_type S3_state = GS_CPU)
   \<and> active_resmap (S3_row None) = Some [True] \<and> jobs_active (S3_row None) > 0
   \<and> shared_bit (S3_job (Some [2])) [True] 0
   \<and> (active_cpus (S3_row None) = None \<or> alloc_cpus (S3_job (Some [2])) = None)
   \<and> \<not> job_fits_in_active_row S3_state (S3_job (Some [2])) (S3_row None)
   \<and> \<not> job_fits_in_active_row S3_state (S3_job None) (S3_row (Some [2]))"
proof -
  have a: "gr_type S3_state = GS_CORE \<or> gr_type S3_state = GS_CPU" by (simp add: S3_state_def)
  have b: "active_resmap (S3_row c) = Some [True]" for c by (simp add: S3_row_def)
  have c: "jobs_active (S3_row c) > 0" for c by (simp add: S3_row_def)
  have d: "shared_bit (S3_job c) [True] 0" for c by (simp add: shared_bit_def S3_job_def)
  have e1: "active_cpus (S3_row None) = None \<or> alloc_cpus (S3_job (Some [2])) = None"
    by (simp add: S3_row_def)
  have e2: "active_cpus (S3_row (Some [2])) = None \<or> alloc_cpus (S3_job None) = None"
    by (simp add: S3_job_def)
  note r1 = job_fits_null_cpus[OF a b c d e1]
  note r2 = job_fits_null_cpus[OF a b c d e2]
  show ?thesis using a b[of None] c[of None] d[of "Some [2]"] e1 r1 r2 by (intro conjI)
qed

section \<open>Removing a job that is not there\<close>

lemma find_job_from_None:
  "(\<forall>a \<in> set as. job_id (the (h a)) \<noteq> jid) \<Longrightarrow> find_job_from h as jid i = None"
  by (induction as arbitrary: i) auto

text \<open>Claim C9. When the job id is 0, the partition pointer is NULL, or no job of the
  partition has the id, \<^verbatim>\<open>_remove_job_from_part\<close> returns the state it was given: no job
  list, shadow list or active row changes, and the list of emitted signals is the same.\<close>

theorem remove_job_from_part_absent:
  assumes "jid = 0 \<or> popt = None
           \<or> (\<exists>p. popt = Some p \<and> (\<forall>a \<in> set (job_list (part_at s p)). job_id (job_at s a) \<noteq> jid))"
  shows "remove_job_from_part env jid popt s = s"
proof (cases "jid = 0 \<or> popt = None")
  case True
  then show ?thesis by (auto simp: remove_job_from_part_def)
next
  case False
  with assms obtain p where p: "popt = Some p"
      "\<forall>a \<in> set (job_list (part_at s p)). job_id (job_at s a) \<noteq> jid"
    by auto
  then have "find_job_index s p jid = None"
    unfolding find_job_index_def job_at_def by (intro find_job_from_None) simp
  then show ?thesis using p by (simp add: remove_job_from_part_def)
qed

theorem remove_job_from_part_absent_witness:
  "map (\<lambda>a. job_id (job_at S1_running a)) (job_list (part_at S1_running 0)) = [1, 2]
   \<and> remove_job_from_part S1_env 7 (Some 0) S1_running = S1_running
   \<and> remove_job_from_part S1_env 0 (Some 0) S1_running = S1_running
   \<and> remove_job_from_part S1_env 1 None S1_running = S1_running"
proof -
  have ids: "map (\<lambda>a. job_id (job_at S1_running a)) (job_list (part_at S1_running 0)) = [1, 2]"
    by code_simp
  have a: "\<forall>a \<in> set (job_list (part_at S1_running 0)). job_id (job_at S1_running a) \<noteq> 7"
  proof
    fix a assume "a \<in> set (job_list (part_at S1_running 0))"
    then have "job_id (job_at S1_running a)
        \<in> set (map (\<lambda>a. job_id (job_at S1_running a)) (job_list (part_at S1_running 0)))"
      by simp
    then show "job_id (job_at S1_running a) \<noteq> 7" unfolding ids by auto
  qed
  have r1: "remove_job_from_part S1_env 7 (Some 0) S1_running = S1_running"
    by (rule remove_job_from_part_absent) (use a in blast)
  have r2: "remove_job_from_part S1_env 0 (Some 0) S1_running = S1_running"
    by (rule remove_job_from_part_absent) simp
  have r3: "remove_job_from_part S1_env 1 None S1_running = S1_running"
    by (rule remove_job_from_part_absent) simp
  show ?thesis using ids r1 r2 r3 by (intro conjI)
qed

section \<open>Scenario S1\<close>

text \<open>Claim C1, as stated, fails: after the two starts job A (id 1) runs and job B (id 2)
  is suspended, but one cycle of the partition does not exchange them.\<close>

theorem S1_one_cycle_counterexample:
  "S1_sigs (S1_cycles 0) = Inr (Some GS_RESUME, Some GS_SUSPEND)
   \<and> S1_sigs (S1_cycles 1) \<noteq> Inr (Some GS_SUSPEND, Some GS_RESUME)"
  by code_simp

text \<open>Claim C1, amended. After \<^verbatim>\<open>gs_job_start\<close> of A and then of B, A runs and B is
  suspended. A was seated as a filler, and a filler is de-activated in place by
  \<^verbatim>\<open>_cycle_job_list\<close>, not moved behind B: after one cycle A still runs and B is still
  suspended; after the second cycle B runs and A is suspended.\<close>

theorem S1_two_cycles:
  "S1_sigs (S1_cycles 0) = Inr (Some GS_RESUME, Some GS_SUSPEND)
   \<and> S1_sigs (S1_cycles 1) = Inr (Some GS_RESUME, Some GS_SUSPEND)
   \<and> S1_sigs (S1_cycles 2) = Inr (Some GS_SUSPEND, Some GS_RESUME)"
  by code_simp

section \<open>Sorting the partitions and rebuilding all rows\<close>

lemma sort_swap_length [simp]: "length (sort_swap parts j i srt) = length srt"
  by (simp add: sort_swap_def)

lemma sort_swap_mset:
  "i < length srt \<Longrightarrow> j < length srt \<Longrightarrow> mset (sort_swap parts j i srt) = mset srt"
  by (simp add: sort_swap_def mset_swap)

lemma sort_swap_step:
  assumes "j < i" "i < length srt" "sorted_upto parts j srt"
    and "\<forall>q. j < q \<and> q < i \<longrightarrow> priority (parts ! (srt ! q)) \<le> priority (parts ! (srt ! j))"
  shows "sorted_upto parts j (sort_swap parts j i srt)
       \<and> (\<forall>q. j < q \<and> q < Suc i \<longrightarrow>
             priority (parts ! (sort_swap parts j i srt ! q)) \<le> priority (parts ! (sort_swap parts j i srt ! j)))"
proof (cases "priority (parts ! (srt ! i)) > priority (parts ! (srt ! j))")
  case False
  then have "sort_swap parts j i srt = srt" by (simp add: sort_swap_def)
  moreover have "\<forall>q. j < q \<and> q < Suc i \<longrightarrow> priority (parts ! (srt ! q)) \<le> priority (parts ! (srt ! j))"
    using assms(4) False by (auto simp: less_Suc_eq)
  ultimately show ?thesis using assms(3) by simp
next
  case True
  let ?s = "srt[j := srt ! i, i := srt ! j]"
  have eq: "sort_swap parts j i srt = ?s" using True by (simp add: sort_swap_def)
  have nth: "?s ! q = (if q = i then srt ! j else if q = j then srt ! i else srt ! q)" if "q < length srt" for q
    using that assms(1,2) by (auto simp: nth_list_update)
  have a: "sorted_upto parts j ?s"
    unfolding sorted_upto_def
  proof (intro allI impI)
    fix p q assume h: "p < j \<and> p < q \<and> q < length ?s"
    then have pq: "p < j" "p < q" "q < length srt" by auto
    have "?s ! p = srt ! p" using pq assms(1,2) by (simp add: nth)
    moreover have "priority (parts ! (?s ! q)) \<le> priority (parts ! (srt ! p))"
      using assms(3) pq assms(1,2) unfolding sorted_upto_def
      by (simp add: nth)
    ultimately show "priority (parts ! (?s ! q)) \<le> priority (parts ! (?s ! p))" by simp
  qed
  have b: "priority (parts ! (?s ! q)) \<le> priority (parts ! (?s ! j))" if "j < q" "q < Suc i" for q
  proof -
    have sj: "?s ! j = srt ! i" using assms(1,2) by (simp add: nth)
    show ?thesis
    proof (cases "q = i")
      case True
      then show ?thesis using sj True assms(1,2) \<open>priority (parts ! (srt ! j)) < priority (parts ! (srt ! i))\<close>
        by (simp add: nth)
    next
      case False
      then have "q < i" using that by simp
      then have "priority (parts ! (srt ! q)) \<le> priority (parts ! (srt ! j))" using assms(4) that by simp
      then show ?thesis using sj False that assms(1,2) \<open>priority (parts ! (srt ! j)) < priority (parts ! (srt ! i))\<close>
        by (simp add: nth)
    qed
  qed
  show ?thesis unfolding eq using a b by blast
qed

lemma sort_inner:
  assumes "j < length srt" "sorted_upto parts j srt" "Suc j \<le> m" "m \<le> length srt"
  shows "length (fold (sort_swap parts j) [Suc j..<m] srt) = length srt
       \<and> mset (fold (sort_swap parts j) [Suc j..<m] srt) = mset srt
       \<and> sorted_upto parts j (fold (sort_swap parts j) [Suc j..<m] srt)
       \<and> (\<forall>q. j < q \<and> q < m \<longrightarrow>
             priority (parts ! (fold (sort_swap parts j) [Suc j..<m] srt ! q))
               \<le> priority (parts ! (fold (sort_swap parts j) [Suc j..<m] srt ! j)))"
  using assms(3,4)
proof (induction m)
  case 0
  then show ?case by simp
next
  case (Suc m)
  show ?case
  proof (cases "Suc j \<le> m")
    case False
    then have "m = j" using Suc.prems by simp
    then show ?thesis using assms(2) by auto
  next
    case True
    let ?a = "fold (sort_swap parts j) [Suc j..<m] srt"
    have IH: "length ?a = length srt" "mset ?a = mset srt" "sorted_upto parts j ?a"
        "\<forall>q. j < q \<and> q < m \<longrightarrow> priority (parts ! (?a ! q)) \<le> priority (parts ! (?a ! j))"
      using Suc.IH[OF True] Suc.prems by auto
    have f: "fold (sort_swap parts j) [Suc j..<Suc m] srt = sort_swap parts j m ?a"
      using True by simp
    have m: "j < m" "m < length ?a" using True Suc.prems IH(1) by auto
    from sort_swap_step[OF m IH(3,4)] sort_swap_mset[OF m(2), of j parts] assms(1) IH(1,2)
    show ?thesis unfolding f by simp
  qed
qed

lemma sorted_upto_Suc:
  assumes "sorted_upto parts j srt"
    and "\<forall>q. j < q \<and> q < length srt \<longrightarrow> priority (parts ! (srt ! q)) \<le> priority (parts ! (srt ! j))"
  shows "sorted_upto parts (Suc j) srt"
  using assms unfolding sorted_upto_def by (auto simp: less_Suc_eq)

lemma sort_outer:
  assumes "m \<le> length srt"
  shows "length (fold (\<lambda>j a. fold (sort_swap parts j) [Suc j..<length srt] a) [0..<m] srt) = length srt
       \<and> mset (fold (\<lambda>j a. fold (sort_swap parts j) [Suc j..<length srt] a) [0..<m] srt) = mset srt
       \<and> sorted_upto parts m (fold (\<lambda>j a. fold (sort_swap parts j) [Suc j..<length srt] a) [0..<m] srt)"
  using assms
proof (induction m)
  case 0
  then show ?case by (simp add: sorted_upto_def)
next
  case (Suc m)
  let ?a = "fold (\<lambda>j a. fold (sort_swap parts j) [Suc j..<length srt] a) [0..<m] srt"
  have IH: "length ?a = length srt" "mset ?a = mset srt" "sorted_upto parts m ?a"
    using Suc by auto
  have f: "fold (\<lambda>j a. fold (sort_swap parts j) [Suc j..<length srt] a) [0..<Suc m] srt
         = fold (sort_swap parts m) [Suc m..<length srt] ?a"
    by simp
  have m: "m < length ?a" "Suc m \<le> length srt" "length srt \<le> length ?a" using Suc.prems IH(1) by auto
  note r = sort_inner[OF m(1) IH(3) m(2,3)]
  have "sorted_upto parts (Suc m) (fold (sort_swap parts m) [Suc m..<length srt] ?a)"
    using r IH(1) by (intro sorted_upto_Suc) auto
  then show ?case unfolding f using r IH by simp
qed

lemma sorted_upto_all:
  "sorted_upto parts (length srt) srt \<Longrightarrow> prio_desc parts srt"
  unfolding sorted_upto_def prio_desc_def sorted_wrt_iff_nth_less by auto

text \<open>What \<^verbatim>\<open>_sort_partitions\<close> returns, and when it returns.\<close>

lemma sort_partitions_Inr:
  assumes "sort_partitions s = Inr s1"
  shows "s1 = s\<lparr>gs_part_sorted_alloc := gs_part_sorted_alloc s1, gs_part_sorted := gs_part_sorted s1\<rparr>"
  using assms by (auto simp: sort_partitions_def Let_def split: if_splits option.splits)

lemma sort_partitions_parts:
  assumes "sort_partitions s = Inr s1"
  shows "gs_part_list s1 = gs_part_list s"
  by (subst sort_partitions_Inr[OF assms]) simp

lemma sort_partitions_sorted:
  assumes "sorted_ok s" "sort_partitions s = Inr s1"
  shows "mset (gs_part_sorted s1) = mset [0..<length (gs_part_list s)]
       \<and> prio_desc (gs_part_list s) (gs_part_sorted s1)
       \<and> (gs_part_list s \<noteq> [] \<longrightarrow> gs_part_sorted_alloc s1 = Some (length (gs_part_list s)))"
proof -
  define n where "n = length (gs_part_list s)"
  define srt where "srt = (if n \<noteq> length (gs_part_sorted s) then [0..<n] else gs_part_sorted s)"
  define al where "al = (if n \<noteq> length (gs_part_sorted s) then Some n else gs_part_sorted_alloc s)"
  have len: "length srt = n" by (simp add: srt_def)
  have ms: "mset srt = mset [0..<n]" using assms(1) by (simp add: srt_def n_def sorted_ok_def)
  have al: "gs_part_list s \<noteq> [] \<longrightarrow> al = Some n" using assms(1) by (auto simp: al_def n_def sorted_ok_def)
  have al1: "gs_part_sorted_alloc s1 = al"
    using assms(2) by (auto simp: sort_partitions_def Let_def al_def n_def split: if_splits option.splits)
  show ?thesis
  proof (cases "n \<le> 1")
    case True
    have r: "gs_part_sorted s1 = srt[0 := 0]"
      using True assms(2)
      by (auto simp: sort_partitions_def Let_def srt_def n_def split: if_splits option.splits)
    have "srt[0 := 0] = [0..<n]"
    proof (cases "n = 0")
      case True
      then show ?thesis using len by simp
    next
      case False
      then have "n = 1" using \<open>n \<le> 1\<close> by simp
      then obtain x where "srt = [x]" using len by (cases srt) auto
      then show ?thesis using \<open>n = 1\<close> by simp
    qed
    moreover have "prio_desc (gs_part_list s) [0..<n]"
      using True by (cases "n = 0") (simp_all add: prio_desc_def le_Suc_eq)
    ultimately show ?thesis unfolding r al1 n_def[symmetric] using al by simp
  next
    case False
    have r: "gs_part_sorted s1
        = fold (\<lambda>j a. fold (sort_swap (gs_part_list s) j) [Suc j..<length srt] a) [0..<length srt] srt"
      using False assms(2) unfolding len
      by (auto simp: sort_partitions_def Let_def srt_def n_def split: if_splits option.splits)
    have o: "length (fold (\<lambda>j a. fold (sort_swap (gs_part_list s) j) [Suc j..<length srt] a) [0..<length srt] srt) = length srt
       \<and> mset (fold (\<lambda>j a. fold (sort_swap (gs_part_list s) j) [Suc j..<length srt] a) [0..<length srt] srt) = mset srt
       \<and> sorted_upto (gs_part_list s) (length srt) (fold (\<lambda>j a. fold (sort_swap (gs_part_list s) j) [Suc j..<length srt] a) [0..<length srt] srt)"
      by (rule sort_outer) simp
    have "sorted_upto (gs_part_list s) (length (gs_part_sorted s1)) (gs_part_sorted s1)"
      unfolding r using o by simp
    then have "prio_desc (gs_part_list s) (gs_part_sorted s1)"
      by (rule sorted_upto_all)
    moreover have "mset (gs_part_sorted s1) = mset [0..<n]"
      unfolding r using o ms by simp
    ultimately show ?thesis unfolding al1 n_def[symmetric] using al by simp
  qed
qed

lemma sort_partitions_returns:
  assumes "sorted_ok s" "gs_part_list s \<noteq> []"
  shows "\<exists>s1. sort_partitions s = Inr s1"
proof (cases "length (gs_part_list s) \<noteq> length (gs_part_sorted s)")
  case True
  then show ?thesis using assms(2) by (simp add: sort_partitions_def Let_def)
next
  case False
  then have "gs_part_sorted_alloc s = Some (length (gs_part_list s))"
    using assms by (simp add: sorted_ok_def)
  then show ?thesis using False assms(2) by (auto simp: sort_partitions_def Let_def)
qed

text \<open>With no partition the sort returns only into an array left over from an earlier
  partition list; through the NULL pointer of a plugin that never had a partition it fails.\<close>

lemma sort_partitions_no_partition:
  assumes "gs_part_list s = []"
  shows "sort_partitions s =
     (if gs_part_sorted s = []
      then (case gs_part_sorted_alloc s of
              None \<Rightarrow> Inl InvalidArrayAccess
            | Some n \<Rightarrow> if n = 0 then Inl InvalidArrayAccess else Inr s)
      else Inl InvalidArrayAccess)"
  using assms by (auto simp: sort_partitions_def Let_def split: option.splits)

text \<open>Claim C4, as stated, fails: the sort of \<^verbatim>\<open>_sort_partitions\<close> is an exchange sort and
  is not stable. Partitions a, b, c with priorities 1, 1, 2 are rebuilt in the order
  c, b, a: b comes before a although a precedes b in the partition list.\<close>

theorem sort_partitions_unstable_counterexample:
  "map priority (gs_part_list (C4_state [])) = [1, 1, 2]
   \<and> map_sum id gs_part_sorted (sort_partitions (C4_state [])) = Inr [2, 1, 0]
   \<and> update_all_active_rows S1_env (C4_state [])
       = map_sum id (fold (\<lambda>p. update_active_row S1_env p True) [2, 1, 0])
           (sort_partitions (C4_state []))"
proof -
  have p: "map priority (gs_part_list (C4_state [])) = [1, 1, 2]" by code_simp
  have s: "map_sum id gs_part_sorted (sort_partitions (C4_state [])) = Inr [2, 1, 0]" by code_simp
  obtain s1 where s1: "sort_partitions (C4_state []) = Inr s1" "gs_part_sorted s1 = [2, 1, 0]"
    using s by (cases "sort_partitions (C4_state [])") auto
  have u: "update_all_active_rows S1_env (C4_state [])
       = map_sum id (fold (\<lambda>p. update_active_row S1_env p True) [2, 1, 0])
           (sort_partitions (C4_state []))"
    unfolding update_all_active_rows_def s1(1) using s1(2) by simp
  show ?thesis using p s u by (intro conjI)
qed

text \<open>Claim C4, amended. With at least one partition, \<^verbatim>\<open>_update_all_active_rows\<close> first sorts:
  the sort returns, the sorted array holds every partition exactly once, in an order in which
  the priority never increases (nothing is promised about the relative order of partitions
  of equal priority); then it rebuilds each partition, admitting new jobs, in the order of
  the sorted array. The hypothesis on the sorted array is the invariant \<open>sorted_ok\<close>, which
  every operation keeps.\<close>

theorem update_all_active_rows_sorted:
  assumes "gs_part_list s \<noteq> []" and "sorted_ok s"
  shows "\<exists>s1. sort_partitions s = Inr s1
       \<and> mset (gs_part_sorted s1) = mset [0..<length (gs_part_list s)]
       \<and> prio_desc (gs_part_list s) (gs_part_sorted s1)
       \<and> update_all_active_rows env s
           = Inr (fold (\<lambda>p. update_active_row env p True) (gs_part_sorted s1) s1)"
proof -
  obtain s1 where s1: "sort_partitions s = Inr s1"
    using sort_partitions_returns[OF assms(2,1)] by blast
  show ?thesis using sort_partitions_sorted[OF assms(2) s1] s1
    by (simp add: update_all_active_rows_def)
qed

theorem update_all_active_rows_sorted_witness:
  "gs_part_list (C4_state [1, 0, 2]) \<noteq> []
   \<and> length (gs_part_sorted (C4_state [1, 0, 2])) = length (gs_part_list (C4_state [1, 0, 2]))
   \<and> mset (gs_part_sorted (C4_state [1, 0, 2])) = mset [0..<length (gs_part_list (C4_state [1, 0, 2]))]
   \<and> gs_part_sorted_alloc (C4_state [1, 0, 2]) = Some (length (gs_part_list (C4_state [1, 0, 2])))
   \<and> (\<exists>s1. sort_partitions (C4_state [1, 0, 2]) = Inr s1
       \<and> mset (gs_part_sorted s1) = mset [0..<length (gs_part_list (C4_state [1, 0, 2]))]
       \<and> prio_desc (gs_part_list (C4_state [1, 0, 2])) (gs_part_sorted s1)
       \<and> update_all_active_rows S1_env (C4_state [1, 0, 2])
           = Inr (fold (\<lambda>p. update_active_row S1_env p True) (gs_part_sorted s1) s1))"
proof -
  have n: "gs_part_list (C4_state [1, 0, 2]) \<noteq> []" by (simp add: C4_state_def)
  have l: "length (gs_part_sorted (C4_state [1, 0, 2])) = length (gs_part_list (C4_state [1, 0, 2]))"
    by (simp add: C4_state_def)
  have m: "mset (gs_part_sorted (C4_state [1, 0, 2])) = mset [0..<length (gs_part_list (C4_state [1, 0, 2]))]"
    by (simp add: C4_state_def upt_rec)
  have a: "gs_part_sorted_alloc (C4_state [1, 0, 2]) = Some (length (gs_part_list (C4_state [1, 0, 2])))"
    by (simp add: C4_state_def)
  have h: "sorted_ok (C4_state [1, 0, 2])" using m a by (simp add: sorted_ok_def)
  note t = update_all_active_rows_sorted[OF n h, of S1_env]
  show ?thesis using n l m a t by (intro conjI)
qed

section \<open>Failing signals\<close>

lemma sched_view_errlog [simp]: "sched_view (s\<lparr>errlog := l\<rparr>) = sched_view s"
  by (simp add: sched_view_def)

lemma sched_view_eqD: "sched_view s = sched_view t \<Longrightarrow> t = s\<lparr>errlog := errlog t\<rparr>"
proof -
  assume "sched_view s = sched_view t"
  then have "(sched_view s)\<lparr>errlog := errlog t\<rparr> = (sched_view t)\<lparr>errlog := errlog t\<rparr>" by simp
  then show ?thesis by (simp add: sched_view_def)
qed

subsection \<open>What is read from the state does not depend on the log\<close>

lemma job_at_errlog [simp]: "job_at (s\<lparr>errlog := l\<rparr>) = job_at s"
  by (rule ext) (simp add: job_at_def)

lemma part_at_errlog [simp]: "part_at (s\<lparr>errlog := l\<rparr>) = part_at s"
  by (rule ext) (simp add: part_at_def)

lemma phys_res_cnt_errlog [simp]: "phys_res_cnt (s\<lparr>errlog := l\<rparr>) = phys_res_cnt s"
  by (rule ext) (simp add: phys_res_cnt_def)

lemma can_cpus_fit_loop_errlog [simp]:
  "can_cpus_fit_loop (s\<lparr>errlog := l\<rparr>) setmap jmap pc jc i a = can_cpus_fit_loop s setmap jmap pc jc i a"
proof (induction "bit_size setmap - i" arbitrary: i a)
  case 0
  then show ?case by (simp add: can_cpus_fit_loop.simps[of _ setmap jmap pc jc i a])
next
  case (Suc d)
  then have "d = bit_size setmap - Suc i" by simp
  from Suc.hyps(1)[OF this] show ?case
    by (simp add: can_cpus_fit_loop.simps[of _ setmap jmap pc jc i a])
qed

lemma can_cpus_fit_errlog [simp]: "can_cpus_fit (s\<lparr>errlog := l\<rparr>) m j q = can_cpus_fit s m j q"
  by (simp add: can_cpus_fit_def split: option.splits)

lemma job_fits_errlog [simp]:
  "job_fits_in_active_row (s\<lparr>errlog := l\<rparr>) j q = job_fits_in_active_row s j q"
  by (simp add: job_fits_in_active_row_def Let_def split: option.splits)

lemma find_job_index_errlog [simp]: "find_job_index (s\<lparr>errlog := l\<rparr>) p jid = find_job_index s p jid"
  by (simp add: find_job_index_def)

lemma find_gs_part_errlog [simp]: "find_gs_part (s\<lparr>errlog := l\<rparr>) = find_gs_part s"
  by (rule ext) (simp add: find_gs_part_def)

lemma compute_resources_errlog [simp]:
  "compute_resources env (s\<lparr>errlog := l\<rparr>) = compute_resources env s"
  by (rule ext, rule ext) (simp add: compute_resources_def Let_def)

lemma get_resmap_errlog [simp]: "get_resmap env (s\<lparr>errlog := l\<rparr>) = get_resmap env s"
  by (rule ext, rule ext) (simp add: get_resmap_def Let_def)

lemma load_alloc_cpus_errlog [simp]: "load_alloc_cpus env (s\<lparr>errlog := l\<rparr>) = load_alloc_cpus env s"
  by (rule ext, rule ext, rule ext) (simp add: load_alloc_cpus_def Let_def)

lemma get_resmap_size_errlog [simp]: "get_resmap_size env (s\<lparr>errlog := l\<rparr>) = get_resmap_size env s"
  by (simp add: get_resmap_size_def Let_def)

lemma compute_resources_rc [simp]:
  "compute_resources (env\<lparr>job_suspend := rc\<rparr>) = compute_resources env"
  by (rule ext, rule ext, rule ext) (simp add: compute_resources_def Let_def)

lemma node_record_count_rc [simp]: "node_record_count (env\<lparr>job_suspend := rc\<rparr>) = node_record_count env"
  by (simp add: node_record_count_def)

lemma select_cores_rc:
  "select_g_get_job_cores (env\<lparr>job_suspend := rc\<rparr>) = select_g_get_job_cores env"
  by simp

lemma get_resmap_rc [simp]: "get_resmap (env\<lparr>job_suspend := rc\<rparr>) = get_resmap env"
  unfolding get_resmap_def compute_resources_rc node_record_count_rc select_cores_rc ..

lemma load_alloc_cpus_rc [simp]: "load_alloc_cpus (env\<lparr>job_suspend := rc\<rparr>) = load_alloc_cpus env"
  unfolding load_alloc_cpus_def compute_resources_rc node_record_count_rc select_cores_rc ..

lemma get_resmap_size_rc [simp]: "get_resmap_size (env\<lparr>job_suspend := rc\<rparr>) = get_resmap_size env"
  by (rule ext) (simp add: get_resmap_size_def Let_def)

subsection \<open>Steps that carry the log along unchanged\<close>

lemma upd_part_errlog [simp]: "upd_part p f (s\<lparr>errlog := l\<rparr>) = (upd_part p f s)\<lparr>errlog := l\<rparr>"
  by (simp add: upd_part_def)

lemma upd_job_errlog [simp]: "upd_job a f (s\<lparr>errlog := l\<rparr>) = (upd_job a f s)\<lparr>errlog := l\<rparr>"
  by (simp add: upd_job_def)

lemma merge_cpus_step_errlog [simp]:
  "merge_cpus_step (s\<lparr>errlog := l\<rparr>) = merge_cpus_step s"
  unfolding merge_cpus_step_def phys_res_cnt_errlog ..

lemma add_job_to_active_errlog [simp]:
  "add_job_to_active a p (s\<lparr>errlog := l\<rparr>) = (add_job_to_active a p s)\<lparr>errlog := l\<rparr>"
  by (simp add: add_job_to_active_def Let_def)

lemma cast_shadow_errlog [simp]:
  "cast_shadow a prio (s\<lparr>errlog := l\<rparr>) = (cast_shadow a prio s)\<lparr>errlog := l\<rparr>"
  by (simp add: cast_shadow_def)

lemma clear_shadow_errlog [simp]:
  "clear_shadow a (s\<lparr>errlog := l\<rparr>) = (clear_shadow a s)\<lparr>errlog := l\<rparr>"
  by (simp add: clear_shadow_def)

lemma sort_partitions_errlog:
  "sort_partitions (s\<lparr>errlog := l\<rparr>) = map_sum id (\<lambda>s. s\<lparr>errlog := l\<rparr>) (sort_partitions s)"
  by (auto simp: sort_partitions_def Let_def split: option.splits)

lemma fold_errlog:
  assumes "\<And>x s l. f x (s\<lparr>errlog := l\<rparr>) = (f x s)\<lparr>errlog := l\<rparr>"
  shows "fold f xs (s\<lparr>errlog := l\<rparr>) = (fold f xs s)\<lparr>errlog := l\<rparr>"
  by (induction xs arbitrary: s) (simp_all add: assms)

lemma build_active_row_errlog [simp]:
  "build_active_row p (s\<lparr>errlog := l\<rparr>) = (build_active_row p s)\<lparr>errlog := l\<rparr>"
proof -
  have a: "fold (\<lambda>a. add_job_to_active a p) xs (s\<lparr>errlog := l\<rparr>)
      = (fold (\<lambda>a. add_job_to_active a p) xs s)\<lparr>errlog := l\<rparr>" for xs s
    by (rule fold_errlog) simp
  have b: "fold (\<lambda>a st. if job_fits_in_active_row st (job_at st a) (part_at st p)
                                then upd_job a (\<lambda>j. j\<lparr>row_state := GS_ACTIVE\<rparr>)
                                       (add_job_to_active a p st)
                                else st) xs (s\<lparr>errlog := l\<rparr>)
      = (fold (\<lambda>a st. if job_fits_in_active_row st (job_at st a) (part_at st p)
                                then upd_job a (\<lambda>j. j\<lparr>row_state := GS_ACTIVE\<rparr>)
                                       (add_job_to_active a p st)
                                else st) xs s)\<lparr>errlog := l\<rparr>" for xs s
    by (rule fold_errlog) simp
  show ?thesis by (simp add: build_active_row_def Let_def a b)
qed

lemma destroy_parts_errlog [simp]:
  "destroy_parts (s\<lparr>errlog := l\<rparr>) = (destroy_parts s)\<lparr>errlog := l\<rparr>"
  by (simp add: destroy_parts_def)

lemma build_parts_errlog [simp]:
  "build_parts env (s\<lparr>errlog := l\<rparr>) = (build_parts env s)\<lparr>errlog := l\<rparr>"
  by (simp add: build_parts_def Let_def)

lemma build_parts_rc [simp]: "build_parts (env\<lparr>job_suspend := rc\<rparr>) = build_parts env"
  by (rule ext) (simp add: build_parts_def Let_def)

lemma load_phys_res_step_errlog [simp]:
  "load_phys_res_step env (s\<lparr>errlog := l\<rparr>) = load_phys_res_step env s"
  unfolding load_phys_res_step_def compute_resources_errlog by simp

lemma load_phys_res_step_rc [simp]:
  "load_phys_res_step (env\<lparr>job_suspend := rc\<rparr>) = load_phys_res_step env"
  unfolding load_phys_res_step_def compute_resources_rc ..

lemma load_phys_res_cnt_errlog [simp]:
  "load_phys_res_cnt env (s\<lparr>errlog := l\<rparr>) = (load_phys_res_cnt env s)\<lparr>errlog := l\<rparr>"
  by (simp add: load_phys_res_cnt_def split: prod.splits)

lemma load_phys_res_cnt_rc [simp]:
  "load_phys_res_cnt (env\<lparr>job_suspend := rc\<rparr>) = load_phys_res_cnt env"
  by (rule ext) (simp add: load_phys_res_cnt_def)

lemma view_part_at: "sched_view s = sched_view t \<Longrightarrow> part_at s = part_at t"
  by (drule sched_view_eqD) (metis part_at_errlog)

lemma view_job_at: "sched_view s = sched_view t \<Longrightarrow> job_at s = job_at t"
  by (drule sched_view_eqD) (metis job_at_errlog)

lemma view_sorted: "sched_view s = sched_view t \<Longrightarrow> gs_part_sorted s = gs_part_sorted t"
proof -
  assume "sched_view s = sched_view t"
  then have "gs_part_sorted (sched_view s) = gs_part_sorted (sched_view t)" by simp
  then show ?thesis by (simp add: sched_view_def)
qed

lemma sort_partitions_view:
  assumes "sched_view s = sched_view t"
  shows "sched_result (sort_partitions s) = sched_result (sort_partitions t)"
proof -
  from assms have "t = s\<lparr>errlog := errlog t\<rparr>" by (rule sched_view_eqD)
  then have "sort_partitions t = map_sum id (\<lambda>s. s\<lparr>errlog := errlog t\<rparr>) (sort_partitions s)"
    using sort_partitions_errlog[where s=s and l="errlog t"] by simp
  then show ?thesis by (cases "sort_partitions s") (simp_all add: sched_result_def)
qed

lemma sched_result_cases:
  assumes "sched_result r = sched_result r'"
  shows "(\<exists>e. r = Inl e \<and> r' = Inl e)
       \<or> (\<exists>s t. r = Inr s \<and> r' = Inr t \<and> sched_view s = sched_view t)"
  using assms by (cases r; cases r') (simp_all add: sched_result_def)

lemma view_cong:
  assumes "\<And>s l. g (s\<lparr>errlog := l\<rparr>) = (g s)\<lparr>errlog := l\<rparr>" and "sched_view s = sched_view t"
  shows "sched_view (g s) = sched_view (g t)"
proof -
  from assms(2) have "t = s\<lparr>errlog := errlog t\<rparr>" by (rule sched_view_eqD)
  then have "g t = (g s)\<lparr>errlog := errlog t\<rparr>" using assms(1) by metis
  then show ?thesis by simp
qed

lemma fold_view:
  assumes "\<And>x s t. sched_view s = sched_view t \<Longrightarrow> sched_view (f x s) = sched_view (g x t)"
    and "sched_view s = sched_view t"
  shows "sched_view (fold f xs s) = sched_view (fold g xs t)"
  using assms(2) by (induction xs arbitrary: s t) (simp_all add: assms(1))

lemma efold_view:
  assumes "\<And>x s t. sched_view s = sched_view t \<Longrightarrow> sched_result (f x s) = sched_result (g x t)"
    and "sched_view s = sched_view t"
  shows "sched_result (efold f xs s) = sched_result (efold g xs t)"
  using assms(2)
proof (induction xs arbitrary: s t)
  case Nil
  then show ?case by (simp add: sched_result_def)
next
  case (Cons x xs)
  from assms(1)[OF Cons.prems, of x] show ?case
    using Cons.IH by (cases "f x s"; cases "g x t") (auto simp: sched_result_def)
qed

lemma signal_job_view:
  assumes "sched_view s = sched_view t"
  shows "sched_view (signal_job (env\<lparr>job_suspend := rc\<rparr>) jid sig s) = sched_view (signal_job env jid sig t)"
proof -
  from assms obtain l where t: "t = s\<lparr>errlog := l\<rparr>" using sched_view_eqD by blast
  show ?thesis unfolding t by (simp add: signal_job_def Let_def sched_view_def)
qed

lemma suspend_preempted_view:
  assumes "sched_view s = sched_view t"
  shows "sched_view (suspend_preempted (env\<lparr>job_suspend := rc\<rparr>) a s) = sched_view (suspend_preempted env a t)"
proof -
  note j = view_job_at[OF assms]
  have "sched_view (clear_shadow a (upd_job a (\<lambda>j. j\<lparr>sig_state := GS_SUSPEND\<rparr>)
          (signal_job (env\<lparr>job_suspend := rc\<rparr>) (job_id (job_at s a)) GS_SUSPEND s)))
      = sched_view (clear_shadow a (upd_job a (\<lambda>j. j\<lparr>sig_state := GS_SUSPEND\<rparr>)
          (signal_job env (job_id (job_at s a)) GS_SUSPEND t)))"
    by (intro view_cong[where g="clear_shadow a"] view_cong[where g="upd_job a _"]
          signal_job_view assms) simp_all
  then show ?thesis using assms unfolding suspend_preempted_def Let_def j
    by (auto intro!: view_cong[where g="upd_job a _"])
qed

lemma update_row_existing_view:
  assumes "sched_view s = sched_view t"
  shows "sched_view (update_row_existing (env\<lparr>job_suspend := rc\<rparr>) st p a s)
       = sched_view (update_row_existing env st p a t)"
proof -
  from assms obtain l where t: "t = s\<lparr>errlog := l\<rparr>" using sched_view_eqD by blast
  have sp: "sched_view (suspend_preempted (env\<lparr>job_suspend := rc\<rparr>) a s)
          = sched_view (suspend_preempted env a (s\<lparr>errlog := l\<rparr>))"
    by (rule suspend_preempted_view) simp
  show ?thesis unfolding t update_row_existing_def using sp by simp
qed

lemma update_row_new_view:
  assumes "sched_view s = sched_view t"
  shows "sched_view (update_row_new (env\<lparr>job_suspend := rc\<rparr>) p a s)
       = sched_view (update_row_new env p a t)"
proof -
  from assms obtain l where t: "t = s\<lparr>errlog := l\<rparr>" using sched_view_eqD by blast
  show ?thesis unfolding t update_row_new_def
    by (simp add: Let_def signal_job_def sched_view_def)
qed

lemma update_active_row_view:
  assumes "sched_view s = sched_view t"
  shows "sched_view (update_active_row (env\<lparr>job_suspend := rc\<rparr>) p b s)
       = sched_view (update_active_row env p b t)"
proof -
  let ?e = "env\<lparr>job_suspend := rc\<rparr>"
  define s0 where "s0 = upd_part p (\<lambda>q. q\<lparr>jobs_active := 0\<rparr>) s"
  define t0 where "t0 = upd_part p (\<lambda>q. q\<lparr>jobs_active := 0\<rparr>) t"
  define s1 where "s1 = fold (\<lambda>a. add_job_to_active a p) (shadow (part_at s0 p)) s0"
  define t1 where "t1 = fold (\<lambda>a. add_job_to_active a p) (shadow (part_at t0 p)) t0"
  define s2 where "s2 = fold (update_row_existing ?e GS_ACTIVE p) (job_list (part_at s1 p)) s1"
  define t2 where "t2 = fold (update_row_existing env GS_ACTIVE p) (job_list (part_at t1 p)) t1"
  define s3 where "s3 = fold (update_row_existing ?e GS_FILLER p) (job_list (part_at s2 p)) s2"
  define t3 where "t3 = fold (update_row_existing env GS_FILLER p) (job_list (part_at t2 p)) t2"
  have r0: "sched_view s0 = sched_view t0"
    unfolding s0_def t0_def by (rule view_cong[OF _ assms]) simp
  have r1: "sched_view s1 = sched_view t1"
    unfolding s1_def t1_def view_part_at[OF r0]
    by (rule fold_view[OF _ r0]) (rule view_cong, simp)
  have r2: "sched_view s2 = sched_view t2"
    unfolding s2_def t2_def view_part_at[OF r1]
    by (rule fold_view[OF _ r1]) (rule update_row_existing_view)
  have r3: "sched_view s3 = sched_view t3"
    unfolding s3_def t3_def view_part_at[OF r2]
    by (rule fold_view[OF _ r2]) (rule update_row_existing_view)
  have r4: "sched_view (fold (update_row_new ?e p) (job_list (part_at s3 p)) s3)
          = sched_view (fold (update_row_new env p) (job_list (part_at t3 p)) t3)"
    unfolding view_part_at[OF r3]
    by (rule fold_view[OF _ r3]) (rule update_row_new_view)
  show ?thesis
    unfolding update_active_row_def Let_def
    using r3 r4 unfolding s3_def t3_def s2_def t2_def s1_def t1_def s0_def t0_def
    by simp
qed

lemma update_all_active_rows_view:
  assumes "sched_view s = sched_view t"
  shows "sched_result (update_all_active_rows (env\<lparr>job_suspend := rc\<rparr>) s)
       = sched_result (update_all_active_rows env t)"
proof -
  from sched_result_cases[OF sort_partitions_view[OF assms]] show ?thesis
  proof (elim disjE exE conjE)
    fix e assume "sort_partitions s = Inl e" "sort_partitions t = Inl e"
    then show ?thesis by (simp add: update_all_active_rows_def)
  next
    fix s1 t1 assume s1: "sort_partitions s = Inr s1" and t1: "sort_partitions t = Inr t1"
      and r: "sched_view s1 = sched_view t1"
    have "sched_view (fold (\<lambda>p. update_active_row (env\<lparr>job_suspend := rc\<rparr>) p True) (gs_part_sorted t1) s1)
        = sched_view (fold (\<lambda>p. update_active_row env p True) (gs_part_sorted t1) t1)"
      by (rule fold_view[OF _ r]) (rule update_active_row_view)
    then show ?thesis using view_sorted[OF r]
      by (simp add: update_all_active_rows_def s1 t1 sched_result_def)
  qed
qed

lemma view_heap: "sched_view s = sched_view t \<Longrightarrow> heap s = heap t"
proof -
  assume "sched_view s = sched_view t"
  then have "heap (sched_view s) = heap (sched_view t)" by simp
  then show ?thesis by (simp add: sched_view_def)
qed

lemma errlog_swap:
  "(s\<lparr>errlog := l\<rparr>)\<lparr>heap := h\<rparr> = (s\<lparr>heap := h\<rparr>)\<lparr>errlog := l\<rparr>"
  "(s\<lparr>errlog := l\<rparr>)\<lparr>next_job_ptr := n\<rparr> = (s\<lparr>next_job_ptr := n\<rparr>)\<lparr>errlog := l\<rparr>"
  "(s\<lparr>errlog := l\<rparr>)\<lparr>gs_part_list := ps\<rparr> = (s\<lparr>gs_part_list := ps\<rparr>)\<lparr>errlog := l\<rparr>"
  "(s\<lparr>errlog := l\<rparr>)\<lparr>gs_part_sorted := srt\<rparr> = (s\<lparr>gs_part_sorted := srt\<rparr>)\<lparr>errlog := l\<rparr>"
  "(s\<lparr>errlog := l\<rparr>)\<lparr>gs_part_sorted_alloc := al\<rparr> = (s\<lparr>gs_part_sorted_alloc := al\<rparr>)\<lparr>errlog := l\<rparr>"
  "(s\<lparr>errlog := l\<rparr>)\<lparr>timeslicer_seconds := ts\<rparr> = (s\<lparr>timeslicer_seconds := ts\<rparr>)\<lparr>errlog := l\<rparr>"
  "(s\<lparr>errlog := l\<rparr>)\<lparr>gr_type := g\<rparr> = (s\<lparr>gr_type := g\<rparr>)\<lparr>errlog := l\<rparr>"
  "(s\<lparr>errlog := l\<rparr>)\<lparr>gs_fast_schedule := fs\<rparr> = (s\<lparr>gs_fast_schedule := fs\<rparr>)\<lparr>errlog := l\<rparr>"
  "(s\<lparr>errlog := l\<rparr>)\<lparr>gs_resmap_size := n'\<rparr> = (s\<lparr>gs_resmap_size := n'\<rparr>)\<lparr>errlog := l\<rparr>"
  by simp_all

lemma remove_job_from_part_view:
  assumes "sched_view s = sched_view t"
  shows "sched_view (remove_job_from_part (env\<lparr>job_suspend := rc\<rparr>) jid popt s)
       = sched_view (remove_job_from_part env jid popt t)"
proof -
  from assms obtain l where t: "t = s\<lparr>errlog := l\<rparr>" using sched_view_eqD by blast
  show ?thesis unfolding t remove_job_from_part_def
    by (simp add: Let_def signal_job_def sched_view_def split: option.splits)
qed

lemma add_job_to_part_view:
  assumes "sched_view s = sched_view t"
  shows "sched_result2 (add_job_to_part (env\<lparr>job_suspend := rc\<rparr>) p jid bm s)
       = sched_result2 (add_job_to_part env p jid bm t)"
proof -
  let ?e = "env\<lparr>job_suspend := rc\<rparr>"
  from assms obtain l where t: "t = s\<lparr>errlog := l\<rparr>" using sched_view_eqD by blast
  define s1 where "s1 = (case find_job_index s p jid of None \<Rightarrow> s
      | Some i \<Rightarrow> update_active_row ?e p False (remove_job_from_part ?e jid (Some p) s))"
  define t1 where "t1 = (case find_job_index t p jid of None \<Rightarrow> t
      | Some i \<Rightarrow> update_active_row env p False (remove_job_from_part env jid (Some p) t))"
  have r1: "sched_view s1 = sched_view t1"
    unfolding s1_def t1_def using assms
    by (auto simp: t split: option.splits intro!: update_active_row_view remove_job_from_part_view)
  then obtain l1 where t1: "t1 = s1\<lparr>errlog := l1\<rparr>" using sched_view_eqD by blast
  have "sched_result2 (add_job_to_part ?e p jid bm s) = sched_result2 (add_job_to_part env p jid bm t)"
    unfolding add_job_to_part_def s1_def[symmetric] t1_def[symmetric] Let_def
    unfolding t1 sched_result2_def
    by (simp add: signal_job_def Let_def errlog_swap split: sum.splits)
  then show ?thesis .
qed

lemma suspend_not_active_view:
  assumes "sched_view s = sched_view t"
  shows "sched_view (suspend_not_active (env\<lparr>job_suspend := rc\<rparr>) a s) = sched_view (suspend_not_active env a t)"
proof -
  from assms obtain l where t: "t = s\<lparr>errlog := l\<rparr>" using sched_view_eqD by blast
  show ?thesis unfolding t suspend_not_active_def
    by (simp add: Let_def signal_job_def sched_view_def)
qed

lemma resume_active_view:
  assumes "sched_view s = sched_view t"
  shows "sched_view (resume_active (env\<lparr>job_suspend := rc\<rparr>) p a s) = sched_view (resume_active env p a t)"
proof -
  from assms obtain l where t: "t = s\<lparr>errlog := l\<rparr>" using sched_view_eqD by blast
  show ?thesis unfolding t resume_active_def
    by (simp add: Let_def signal_job_def sched_view_def)
qed

lemma resume_removed_view:
  assumes "sched_view s = sched_view t"
  shows "sched_view (resume_removed (env\<lparr>job_suspend := rc\<rparr>) a s) = sched_view (resume_removed env a t)"
proof -
  from assms obtain l where t: "t = s\<lparr>errlog := l\<rparr>" using sched_view_eqD by blast
  show ?thesis unfolding t resume_removed_def
    by (simp add: Let_def signal_job_def sched_view_def)
qed

lemma cycle_job_list_view:
  assumes "sched_view s = sched_view t"
  shows "sched_view (cycle_job_list (env\<lparr>job_suspend := rc\<rparr>) p s) = sched_view (cycle_job_list env p t)"
proof -
  let ?e = "env\<lparr>job_suspend := rc\<rparr>"
  obtain jl h where c: "cycle_reorder 0 (job_list (part_at s p)) (heap s) = (jl, h)"
    by (cases "cycle_reorder 0 (job_list (part_at s p)) (heap s)") auto
  then have c': "cycle_reorder 0 (job_list (part_at t p)) (heap t) = (jl, h)"
    using view_part_at[OF assms] view_heap[OF assms] by simp
  from assms obtain l where t: "t = s\<lparr>errlog := l\<rparr>" using sched_view_eqD by blast
  define s2 where "s2 = build_active_row p (upd_part p (\<lambda>q. q\<lparr>job_list := jl\<rparr>) (s\<lparr>heap := h\<rparr>))"
  define t2 where "t2 = build_active_row p (upd_part p (\<lambda>q. q\<lparr>job_list := jl\<rparr>) (t\<lparr>heap := h\<rparr>))"
  have r2: "sched_view s2 = sched_view t2" unfolding s2_def t2_def t by (simp add: errlog_swap)
  define s3 where "s3 = fold (suspend_not_active ?e) (job_list (part_at s2 p)) s2"
  define t3 where "t3 = fold (suspend_not_active env) (job_list (part_at t2 p)) t2"
  have r3: "sched_view s3 = sched_view t3"
    unfolding s3_def t3_def view_part_at[OF r2]
    by (rule fold_view[OF _ r2]) (rule suspend_not_active_view)
  have r4: "sched_view (fold (resume_active ?e p) (job_list (part_at s3 p)) s3)
          = sched_view (fold (resume_active env p) (job_list (part_at t3 p)) t3)"
    unfolding view_part_at[OF r3]
    by (rule fold_view[OF _ r3]) (rule resume_active_view)
  show ?thesis unfolding cycle_job_list_def c c' Let_def
    using r4 unfolding s3_def t3_def s2_def t2_def by simp
qed

lemma timeslicer_tick_view:
  assumes "sched_view s = sched_view t"
  shows "sched_result (timeslicer_tick (env\<lparr>job_suspend := rc\<rparr>) s) = sched_result (timeslicer_tick env t)"
proof -
  have step: "sched_view (if jobs_active (part_at a p) < length (job_list (part_at a p)) + length (shadow (part_at a p))
                  then cycle_job_list (env\<lparr>job_suspend := rc\<rparr>) p a else a)
      = sched_view (if jobs_active (part_at b p) < length (job_list (part_at b p)) + length (shadow (part_at b p))
                  then cycle_job_list env p b else b)" if "sched_view a = sched_view b" for a b p
    using that view_part_at[OF that] cycle_job_list_view[OF that] by simp
  from sched_result_cases[OF sort_partitions_view[OF assms]] show ?thesis
  proof (elim disjE exE conjE)
    fix e assume "sort_partitions s = Inl e" "sort_partitions t = Inl e"
    then show ?thesis by (simp add: timeslicer_tick_def)
  next
    fix s1 t1 assume s1: "sort_partitions s = Inr s1" and t1: "sort_partitions t = Inr t1"
      and r: "sched_view s1 = sched_view t1"
    have "sched_view (fold (\<lambda>p st. if jobs_active (part_at st p)
                                 < length (job_list (part_at st p)) + length (shadow (part_at st p))
                             then cycle_job_list (env\<lparr>job_suspend := rc\<rparr>) p st else st) (gs_part_sorted t1) s1)
        = sched_view (fold (\<lambda>p st. if jobs_active (part_at st p)
                                 < length (job_list (part_at st p)) + length (shadow (part_at st p))
                             then cycle_job_list env p st else st) (gs_part_sorted t1) t1)"
      by (rule fold_view[OF _ r]) (rule step)
    then show ?thesis using view_sorted[OF r]
      by (simp add: timeslicer_tick_def s1 t1 sched_result_def)
  qed
qed

lemma sched_result2_drop:
  assumes "sched_result2 r1 = sched_result2 r2"
  shows "(case r1 of Inl e \<Rightarrow> Inl e | Inr (st, s2) \<Rightarrow> Inr (sched_view s2))
       = (case r2 of Inl e \<Rightarrow> Inl e | Inr (st, s2) \<Rightarrow> Inr (sched_view s2))"
  using assms by (cases r1; cases r2) (auto simp: sched_result2_def)

lemma scan_job_view:
  assumes "sched_view s = sched_view t"
  shows "sched_result (scan_job (env\<lparr>job_suspend := rc\<rparr>) jr s) = sched_result (scan_job env jr t)"
proof -
  let ?e = "env\<lparr>job_suspend := rc\<rparr>"
  from assms obtain l where t: "t = s\<lparr>errlog := l\<rparr>" using sched_view_eqD by blast
  have a: "sched_result2 (add_job_to_part ?e p jid bm (if c then signal_job ?e jid GS_RESUME s else s))
         = sched_result2 (add_job_to_part env p jid bm (if c then signal_job env jid GS_RESUME t else t))"
    for p jid bm c
    by (rule add_job_to_part_view) (simp add: signal_job_view assms)
  have a': "(case add_job_to_part ?e p jid bm (if c then signal_job ?e jid GS_RESUME s else s) of
               Inl e \<Rightarrow> Inl e | Inr (st, s2) \<Rightarrow> Inr (sched_view s2))
          = (case add_job_to_part env p jid bm (if c then signal_job env jid GS_RESUME t else t) of
               Inl e \<Rightarrow> Inl e | Inr (st, s2) \<Rightarrow> Inr (sched_view s2))" for p jid bm c
    by (rule sched_result2_drop[OF a])
  have rm: "sched_view (remove_job_from_part ?e jid popt s) = sched_view (remove_job_from_part env jid popt t)"
    for jid popt by (rule remove_job_from_part_view[OF assms])
  have "sched_result (scan_job ?e jr s)
      = (if jr_job_state jr = JOB_PENDING then Inr (sched_view s)
      else if jr_job_state jr = JOB_SUSPENDED \<or> jr_job_state jr = JOB_RUNNING
      then (case find_gs_part s (jr_partition jr) of
              None \<Rightarrow> Inr (sched_view s)
            | Some p \<Rightarrow>
               (case find_job_index s p (jr_job_id jr) of
                  Some i \<Rightarrow> Inr (sched_view s)
                | None \<Rightarrow>
                   (case add_job_to_part ?e p (jr_job_id jr) (jr_node_bitmap jr)
                           (if jr_job_state jr = JOB_SUSPENDED
                              then signal_job ?e (jr_job_id jr) GS_RESUME s else s) of
                         Inl e \<Rightarrow> Inl e
                       | Inr (st, s2) \<Rightarrow> Inr (sched_view s2))))
      else (case find_gs_part s (jr_partition jr) of
              None \<Rightarrow> Inr (sched_view s)
            | Some p \<Rightarrow> Inr (sched_view (remove_job_from_part ?e (jr_job_id jr) (Some p) s))))"
    unfolding scan_job_def sched_result_def Let_def
    by (auto split: option.splits sum.splits prod.splits)
  moreover have "sched_result (scan_job env jr t)
      = (if jr_job_state jr = JOB_PENDING then Inr (sched_view t)
      else if jr_job_state jr = JOB_SUSPENDED \<or> jr_job_state jr = JOB_RUNNING
      then (case find_gs_part t (jr_partition jr) of
              None \<Rightarrow> Inr (sched_view t)
            | Some p \<Rightarrow>
               (case find_job_index t p (jr_job_id jr) of
                  Some i \<Rightarrow> Inr (sched_view t)
                | None \<Rightarrow>
                   (case add_job_to_part env p (jr_job_id jr) (jr_node_bitmap jr)
                           (if jr_job_state jr = JOB_SUSPENDED
                              then signal_job env (jr_job_id jr) GS_RESUME t else t) of
                         Inl e \<Rightarrow> Inl e
                       | Inr (st, s2) \<Rightarrow> Inr (sched_view s2))))
      else (case find_gs_part t (jr_partition jr) of
              None \<Rightarrow> Inr (sched_view t)
            | Some p \<Rightarrow> Inr (sched_view (remove_job_from_part env (jr_job_id jr) (Some p) t))))"
    unfolding scan_job_def sched_result_def Let_def
    by (auto split: option.splits sum.splits prod.splits)
  moreover have f1: "find_gs_part t = find_gs_part s" by (simp add: t)
  moreover have f2: "find_job_index t = find_job_index s" by (rule ext, rule ext) (simp add: t)
  ultimately show ?thesis
    by (simp only: f1 f2 assms[symmetric] a'[symmetric] rm[symmetric])
qed

lemma scan_slurm_job_list_view:
  assumes "sched_view s = sched_view t"
  shows "sched_result (scan_slurm_job_list (env\<lparr>job_suspend := rc\<rparr>) s)
       = sched_result (scan_slurm_job_list env t)"
proof (cases "ctld_job_list env")
  case None
  then show ?thesis using assms by (simp add: scan_slurm_job_list_def sched_result_def)
next
  case (Some jl)
  have e: "sched_result (efold (scan_job (env\<lparr>job_suspend := rc\<rparr>)) jl s)
         = sched_result (efold (scan_job env) jl t)"
    by (rule efold_view[OF _ assms]) (rule scan_job_view)
  from sched_result_cases[OF e] show ?thesis
  proof (elim disjE exE conjE)
    fix e assume "efold (scan_job (env\<lparr>job_suspend := rc\<rparr>)) jl s = Inl e" "efold (scan_job env) jl t = Inl e"
    then show ?thesis using Some by (simp add: scan_slurm_job_list_def)
  next
    fix s1 t1 assume s1: "efold (scan_job (env\<lparr>job_suspend := rc\<rparr>)) jl s = Inr s1"
      and t1: "efold (scan_job env) jl t = Inr t1" and r: "sched_view s1 = sched_view t1"
    show ?thesis using Some s1 t1 update_all_active_rows_view[OF r, where env=env and rc=rc]
      by (simp add: scan_slurm_job_list_def)
  qed
qed

lemma gs_job_start_view:
  assumes "sched_view s = sched_view t"
  shows "sched_result (gs_job_start (env\<lparr>job_suspend := rc\<rparr>) jr s) = sched_result (gs_job_start env jr t)"
proof -
  from assms obtain l where t: "t = s\<lparr>errlog := l\<rparr>" using sched_view_eqD by blast
  show ?thesis
  proof (cases "find_gs_part s (jr_partition jr)")
    case None
    then show ?thesis unfolding t gs_job_start_def sched_result_def by (simp add: sched_view_def)
  next
    case (Some p)
    note a = add_job_to_part_view[OF assms, where env=env and rc=rc and p=p
        and jid="jr_job_id jr" and bm="jr_node_bitmap jr"]
    show ?thesis
    proof (cases "add_job_to_part (env\<lparr>job_suspend := rc\<rparr>) p (jr_job_id jr) (jr_node_bitmap jr) s")
      case (Inl e)
      then have "add_job_to_part env p (jr_job_id jr) (jr_node_bitmap jr) t = Inl e"
        using a by (cases "add_job_to_part env p (jr_job_id jr) (jr_node_bitmap jr) t")
          (simp_all add: sched_result2_def)
      then show ?thesis using Inl Some unfolding gs_job_start_def t by simp
    next
      case (Inr x)
      obtain st s1 where x: "x = (st, s1)" by (cases x)
      obtain t1 where t1: "add_job_to_part env p (jr_job_id jr) (jr_node_bitmap jr) t = Inr (st, t1)"
        and r: "sched_view s1 = sched_view t1"
        using a Inr x by (cases "add_job_to_part env p (jr_job_id jr) (jr_node_bitmap jr) t")
          (auto simp: sched_result2_def)
      have f: "find_gs_part t (jr_partition jr) = Some p" using Some by (simp add: t)
      have g1: "gs_job_start (env\<lparr>job_suspend := rc\<rparr>) jr s
          = (if st = GS_RESUME then update_all_active_rows (env\<lparr>job_suspend := rc\<rparr>) s1 else Inr s1)"
        using Some Inr x by (simp add: gs_job_start_def)
      have g2: "gs_job_start env jr t
          = (if st = GS_RESUME then update_all_active_rows env t1 else Inr t1)"
        using f t1 by (simp add: gs_job_start_def)
      show ?thesis
        using update_all_active_rows_view[OF r, where env=env and rc=rc] r
        unfolding g1 g2 by (simp add: sched_result_def)
    qed
  qed
qed

lemma gs_job_fini_view:
  assumes "sched_view s = sched_view t"
  shows "sched_result (gs_job_fini (env\<lparr>job_suspend := rc\<rparr>) jr s) = sched_result (gs_job_fini env jr t)"
proof -
  from assms obtain l where t: "t = s\<lparr>errlog := l\<rparr>" using sched_view_eqD by blast
  show ?thesis
  proof (cases "find_gs_part s (jr_partition jr)")
    case None
    then show ?thesis using assms by (simp add: gs_job_fini_def t sched_result_def)
  next
    case (Some p)
    have f: "find_gs_part t (jr_partition jr) = Some p" using Some by (simp add: t)
    have r: "sched_view (remove_job_from_part (env\<lparr>job_suspend := rc\<rparr>) (jr_job_id jr) (Some p) s)
           = sched_view (remove_job_from_part env (jr_job_id jr) (Some p) t)"
      by (rule remove_job_from_part_view[OF assms])
    show ?thesis unfolding gs_job_fini_def Some f using update_all_active_rows_view[OF r, where env=env and rc=rc]
      by simp
  qed
qed

lemma transfer_job_view:
  assumes "sched_view s = sched_view t"
  shows "sched_result (transfer_job (env\<lparr>job_suspend := rc\<rparr>) newp a s)
       = sched_result (transfer_job env newp a t)"
proof (cases "find_job_record env (job_id (job_at s a))")
  case None
  then show ?thesis using assms view_job_at[OF assms]
    by (simp add: transfer_job_def sched_result_def)
next
  case (Some jr)
  let ?e = "env\<lparr>job_suspend := rc\<rparr>"
  define s1 where "s1 = (if jr_job_state jr = JOB_SUSPENDED then signal_job ?e (jr_job_id jr) GS_RESUME s else s)"
  define t1 where "t1 = (if jr_job_state jr = JOB_SUSPENDED then signal_job env (jr_job_id jr) GS_RESUME t else t)"
  have r1: "sched_view s1 = sched_view t1"
    unfolding s1_def t1_def using assms by (simp add: signal_job_view)
  note a = sched_result2_drop[OF add_job_to_part_view[OF r1, where env=env and rc=rc and p=newp
        and jid="jr_job_id jr" and bm="jr_node_bitmap jr"]]
  have l: "sched_result (transfer_job ?e newp a s)
      = (if jr_job_state jr = JOB_SUSPENDED \<or> jr_job_state jr = JOB_RUNNING
         then (case add_job_to_part ?e newp (jr_job_id jr) (jr_node_bitmap jr) s1 of
                 Inl e \<Rightarrow> Inl e | Inr (st, s2) \<Rightarrow> Inr (sched_view s2))
         else Inr (sched_view s1))"
    using Some unfolding transfer_job_def sched_result_def Let_def s1_def
    by (auto split: sum.splits prod.splits)
  have r: "sched_result (transfer_job env newp a t)
      = (if jr_job_state jr = JOB_SUSPENDED \<or> jr_job_state jr = JOB_RUNNING
         then (case add_job_to_part env newp (jr_job_id jr) (jr_node_bitmap jr) t1 of
                 Inl e \<Rightarrow> Inl e | Inr (st, s2) \<Rightarrow> Inr (sched_view s2))
         else Inr (sched_view t1))"
    using Some view_job_at[OF assms] unfolding transfer_job_def sched_result_def Let_def t1_def
    by (auto split: sum.splits prod.splits)
  show ?thesis unfolding l r using a r1 by simp
qed

lemma transfer_part_view:
  assumes "sched_view s = sched_view t"
  shows "sched_result (transfer_part (env\<lparr>job_suspend := rc\<rparr>) q s)
       = sched_result (transfer_part env q t)"
proof -
  have f: "find_gs_part t = find_gs_part s"
    using sched_view_eqD[OF assms] by (metis find_gs_part_errlog)
  show ?thesis
  proof (cases "find_gs_part s (part_name q)")
    case None
    have "sched_view (fold (resume_removed (env\<lparr>job_suspend := rc\<rparr>)) (job_list q) s)
        = sched_view (fold (resume_removed env) (job_list q) t)"
      by (rule fold_view[OF _ assms]) (rule resume_removed_view)
    then show ?thesis using None f by (simp add: transfer_part_def sched_result_def)
  next
    case (Some newp)
    have "sched_result (efold (transfer_job (env\<lparr>job_suspend := rc\<rparr>) newp) (job_list q) s)
        = sched_result (efold (transfer_job env newp) (job_list q) t)"
      by (rule efold_view[OF _ assms]) (rule transfer_job_view)
    then show ?thesis using Some f assms by (simp add: transfer_part_def sched_result_def)
  qed
qed

lemma get_gr_type_rc [simp]: "get_gr_type (env\<lparr>job_suspend := rc\<rparr>) = get_gr_type env"
  by (simp add: get_gr_type_def)

lemma gs_init_view:
  assumes "sched_view s = sched_view t"
  shows "sched_result (gs_init (env\<lparr>job_suspend := rc\<rparr>) s) = sched_result (gs_init env t)"
proof -
  from assms obtain l where t: "t = s\<lparr>errlog := l\<rparr>" using sched_view_eqD by blast
  show ?thesis unfolding gs_init_def Let_def t
    by (rule scan_slurm_job_list_view) (simp add: errlog_swap)
qed

lemma gs_reconfig_view:
  assumes "sched_view s = sched_view t"
  shows "sched_result (gs_reconfig (env\<lparr>job_suspend := rc\<rparr>) s) = sched_result (gs_reconfig env t)"
proof -
  let ?e = "env\<lparr>job_suspend := rc\<rparr>"
  from assms obtain l where t: "t = s\<lparr>errlog := l\<rparr>" using sched_view_eqD by blast
  have old: "gs_part_list t = gs_part_list s" by (simp add: t)
  have r1: "sched_view (build_parts ?e (s\<lparr>gs_part_list := []\<rparr>))
          = sched_view (build_parts env (t\<lparr>gs_part_list := []\<rparr>))"
    by (simp add: t errlog_swap)
  have r2: "sched_result (efold (transfer_part ?e) (gs_part_list s) (build_parts ?e (s\<lparr>gs_part_list := []\<rparr>)))
          = sched_result (efold (transfer_part env) (gs_part_list s) (build_parts env (t\<lparr>gs_part_list := []\<rparr>)))"
    by (rule efold_view[OF _ r1]) (rule transfer_part_view)
  show ?thesis
  proof (cases "efold (transfer_part ?e) (gs_part_list s) (build_parts ?e (s\<lparr>gs_part_list := []\<rparr>))")
    case (Inl e)
    then show ?thesis using r2 unfolding gs_reconfig_def Let_def old sched_result_def
      by (cases "efold (transfer_part env) (gs_part_list s) (build_parts env (t\<lparr>gs_part_list := []\<rparr>))") auto
  next
    case (Inr s2)
    then obtain t2 where t2: "efold (transfer_part env) (gs_part_list s) (build_parts env (t\<lparr>gs_part_list := []\<rparr>)) = Inr t2"
      and v2: "sched_view s2 = sched_view t2"
      using r2 unfolding sched_result_def
      by (cases "efold (transfer_part env) (gs_part_list s) (build_parts env (t\<lparr>gs_part_list := []\<rparr>))") auto
    note r3 = scan_slurm_job_list_view[OF v2, where env=env and rc=rc]
    show ?thesis
    proof (cases "scan_slurm_job_list ?e s2")
      case (Inl e)
      then show ?thesis using r3 Inr t2 unfolding gs_reconfig_def Let_def old sched_result_def
        by (cases "scan_slurm_job_list env t2") auto
    next
      case i3: (Inr s3)
      then obtain t3 where t3: "scan_slurm_job_list env t2 = Inr t3" and v3: "sched_view s3 = sched_view t3"
        using r3 unfolding sched_result_def by (cases "scan_slurm_job_list env t2") auto
      from v3 obtain l3 where "t3 = s3\<lparr>errlog := l3\<rparr>" using sched_view_eqD by blast
      then have "sched_view (s3\<lparr>heap := free_jobs (gs_part_list s) (heap s3)\<rparr>)
               = sched_view (t3\<lparr>heap := free_jobs (gs_part_list s) (heap t3)\<rparr>)"
        by (simp add: errlog_swap)
      then show ?thesis using Inr t2 i3 t3 unfolding gs_reconfig_def Let_def old sched_result_def
        by simp
    qed
  qed
qed


section \<open>Priority monotonicity of the shadows\<close>

lemma part_le_refl [simp]: "part_le q q"
  by (simp add: part_le_def)

lemma shadows_wf_rel:
  assumes "shadows_wf ps" "list_all2 part_le ps ps'"
  shows "shadows_wf ps'"
  unfolding shadows_wf_def shadow_prio_ok_def
proof (intro conjI ballI)
  fix q' assume "q' \<in> set ps'"
  then obtain i where i: "i < length ps'" "q' = ps' ! i" by (auto simp: in_set_conv_nth)
  have len: "length ps = length ps'" using assms(2) by (rule list_all2_lengthD)
  have le: "part_le (ps ! i) q'" using assms(2) i by (simp add: list_all2_conv_all_nth)
  have q: "ps ! i \<in> set ps" using i len by simp
  then show "distinct (shadow q')" using assms(1) le by (auto simp: shadows_wf_def part_le_def)
  fix a assume "a \<in> set (shadow q')"
  then have "a \<in> set (shadow (ps ! i))" using le by (auto simp: part_le_def)
  then obtain o1 where o1: "o1 \<in> set ps" "a \<in> set (job_list o1)" "priority (ps ! i) < priority o1"
    using assms(1) q unfolding shadows_wf_def shadow_prio_ok_def by blast
  then obtain k where k: "k < length ps" "o1 = ps ! k" by (auto simp: in_set_conv_nth)
  have "part_le o1 (ps' ! k)" using assms(2) k by (simp add: list_all2_conv_all_nth)
  then have "a \<in> set (job_list (ps' ! k)) \<and> priority q' < priority (ps' ! k)"
    using o1 le by (auto simp: part_le_def)
  moreover have "ps' ! k \<in> set ps'" using k len by simp
  ultimately show "\<exists>q''\<in>set ps'. a \<in> set (job_list q'') \<and> priority q' < priority q''" by blast
qed

lemma list_all2_upd_same:
  assumes "\<And>q. R q q" "R (ps ! p) x"
  shows "list_all2 R ps (ps[p := x])"
proof -
  have "list_all2 R (ps[p := ps ! p]) (ps[p := x])"
    by (rule list_all2_update_cong) (simp_all add: list_all2_conv_all_nth assms)
  then show ?thesis by simp
qed

lemma list_all2_map_same:
  assumes "\<And>q. q \<in> set ps \<Longrightarrow> R q (g q)"
  shows "list_all2 R ps (map g ps)"
  using assms by (simp add: list_all2_conv_all_nth)

lemma shadows_wf_upd:
  assumes "shadows_wf ps" "part_le (ps ! p) x"
  shows "shadows_wf (ps[p := x])"
  by (rule shadows_wf_rel[OF assms(1)]) (rule list_all2_upd_same, simp_all add: assms(2))

lemma shadows_wf_clear:
  assumes "shadows_wf ps"
  shows "shadows_wf (map (\<lambda>q. q\<lparr>shadow := remove1 a (shadow q)\<rparr>) ps)"
  by (rule shadows_wf_rel[OF assms]) (rule list_all2_map_same, auto simp: part_le_def dest: set_remove1_subset[THEN subsetD])

lemma cleared_notin:
  assumes "shadows_wf ps" "q \<in> set (map (\<lambda>q. q\<lparr>shadow := remove1 a (shadow q)\<rparr>) ps)"
  shows "a \<notin> set (shadow q)"
  using assms by (auto simp: shadows_wf_def)

lemma shadows_wf_cast:
  assumes "shadows_wf ps" "\<exists>o1 \<in> set ps. a \<in> set (job_list o1) \<and> prio \<le> priority o1"
  shows "shadows_wf (map (cast_shadow_part a prio) ps)"
  unfolding shadows_wf_def shadow_prio_ok_def
proof (intro conjI ballI)
  have keep: "priority (cast_shadow_part a prio q) = priority q"
      "job_list (cast_shadow_part a prio q) = job_list q" for q
    by (simp_all add: cast_shadow_part_def)
  fix q' assume "q' \<in> set (map (cast_shadow_part a prio) ps)"
  then obtain q where q: "q \<in> set ps" "q' = cast_shadow_part a prio q" by auto
  show "distinct (shadow q')" using assms(1) q by (auto simp: shadows_wf_def cast_shadow_part_def)
  fix b assume b: "b \<in> set (shadow q')"
  show "\<exists>q''\<in>set (map (cast_shadow_part a prio) ps). b \<in> set (job_list q'') \<and> priority q' < priority q''"
  proof (cases "b \<in> set (shadow q)")
    case True
    then obtain o1 where "o1 \<in> set ps" "b \<in> set (job_list o1)" "priority q < priority o1"
      using assms(1) q(1) unfolding shadows_wf_def shadow_prio_ok_def by blast
    then show ?thesis using keep q(2) by (intro bexI[of _ "cast_shadow_part a prio o1"]) auto
  next
    case False
    then have "b = a" "priority q < prio" using b q(2)
      by (auto simp: cast_shadow_part_def split: if_splits)
    moreover obtain o1 where "o1 \<in> set ps" "a \<in> set (job_list o1)" "prio \<le> priority o1"
      using assms(2) by blast
    ultimately show ?thesis using keep q(2) by (intro bexI[of _ "cast_shadow_part a prio o1"]) auto
  qed
qed

lemma same_jobs_refl [simp]: "same_jobs s s"
  by (simp add: same_jobs_def)

lemma same_jobs_trans: "same_jobs s s' \<Longrightarrow> same_jobs s' s'' \<Longrightarrow> same_jobs s s''"
  by (simp add: same_jobs_def)

lemma same_jobs_length: "same_jobs s s' \<Longrightarrow> length (gs_part_list s') = length (gs_part_list s)"
  unfolding same_jobs_def by (metis length_map)

lemma same_jobs_job_list:
  "same_jobs s s' \<Longrightarrow> p < length (gs_part_list s) \<Longrightarrow> job_list (part_at s' p) = job_list (part_at s p)"
  unfolding same_jobs_def part_at_def by (metis length_map nth_map)

lemma same_jobs_priority:
  "same_jobs s s' \<Longrightarrow> p < length (gs_part_list s) \<Longrightarrow> priority (part_at s' p) = priority (part_at s p)"
  unfolding same_jobs_def part_at_def by (metis length_map nth_map)

lemma same_jobs_sorted_ok: "same_jobs s s' \<Longrightarrow> sorted_ok s \<Longrightarrow> sorted_ok s'"
  using same_jobs_length[of s s'] by (auto simp: sorted_ok_def same_jobs_def)

lemma gs_invI: "same_jobs s s' \<Longrightarrow> gs_inv s \<Longrightarrow> shadows_wf (gs_part_list s') \<Longrightarrow> gs_inv s'"
  by (simp add: gs_inv_def same_jobs_sorted_ok)

subsection \<open>The primitive steps\<close>

lemma upd_job_parts [simp]:
  "gs_part_list (upd_job a f s) = gs_part_list s" "gs_part_sorted (upd_job a f s) = gs_part_sorted s"
  "gs_part_sorted_alloc (upd_job a f s) = gs_part_sorted_alloc s"
  by (simp_all add: upd_job_def)

lemma signal_job_parts [simp]:
  "gs_part_list (signal_job env jid sig s) = gs_part_list s"
  "gs_part_sorted (signal_job env jid sig s) = gs_part_sorted s"
  "gs_part_sorted_alloc (signal_job env jid sig s) = gs_part_sorted_alloc s"
  by (simp_all add: signal_job_def Let_def)

lemma upd_part_parts [simp]:
  "gs_part_list (upd_part p f s) = (gs_part_list s)[p := f (gs_part_list s ! p)]"
  "gs_part_sorted (upd_part p f s) = gs_part_sorted s"
  "gs_part_sorted_alloc (upd_part p f s) = gs_part_sorted_alloc s"
  by (simp_all add: upd_part_def)

lemma cast_shadow_parts [simp]:
  "gs_part_list (cast_shadow a prio s) = map (cast_shadow_part a prio) (gs_part_list s)"
  "gs_part_sorted (cast_shadow a prio s) = gs_part_sorted s"
  "gs_part_sorted_alloc (cast_shadow a prio s) = gs_part_sorted_alloc s"
  by (simp_all add: cast_shadow_def)

lemma clear_shadow_parts [simp]:
  "gs_part_list (clear_shadow a s) = map (\<lambda>q. q\<lparr>shadow := remove1 a (shadow q)\<rparr>) (gs_part_list s)"
  "gs_part_sorted (clear_shadow a s) = gs_part_sorted s"
  "gs_part_sorted_alloc (clear_shadow a s) = gs_part_sorted_alloc s"
  by (simp_all add: clear_shadow_def)

lemma part_at_upd_job [simp]: "part_at (upd_job a f s) = part_at s"
  by (rule ext) (simp add: part_at_def)

lemma part_at_signal_job [simp]: "part_at (signal_job env jid sig s) = part_at s"
  by (rule ext) (simp add: part_at_def)

lemma same_jobs_upd_job [simp]: "same_jobs s (upd_job a f s)"
  by (simp add: same_jobs_def)

lemma same_jobs_signal_job [simp]: "same_jobs s (signal_job env jid sig s)"
  by (simp add: same_jobs_def)

lemma same_jobs_cast [simp]: "same_jobs s (cast_shadow a prio s)"
  by (simp add: same_jobs_def cast_shadow_part_def comp_def)

lemma same_jobs_clear [simp]: "same_jobs s (clear_shadow a s)"
  by (simp add: same_jobs_def comp_def)

lemma map_update_same: "(map f xs)[p := f (xs ! p)] = map f xs"
  by (metis list_update_id map_update)

lemma same_jobs_upd_part:
  assumes "\<And>q. priority (f q) = priority q" "\<And>q. job_list (f q) = job_list q"
  shows "same_jobs s (upd_part p f s)"
  unfolding same_jobs_def by (simp add: map_update assms map_update_same)

lemma add_job_to_active_upd:
  "\<exists>amap acpus. add_job_to_active a p s
      = upd_part p (\<lambda>q. q\<lparr>active_resmap := Some amap, active_cpus := acpus,
                             jobs_active := jobs_active q + 1\<rparr>) s"
  unfolding add_job_to_active_def Let_def by blast

lemma add_job_to_active_parts:
  "\<exists>x. gs_part_list (add_job_to_active a p s) = (gs_part_list s)[p := x]
       \<and> priority x = priority (gs_part_list s ! p)
       \<and> job_list x = job_list (gs_part_list s ! p) \<and> shadow x = shadow (gs_part_list s ! p)"
proof -
  obtain amap acpus where "add_job_to_active a p s
      = upd_part p (\<lambda>q. q\<lparr>active_resmap := Some amap, active_cpus := acpus,
                             jobs_active := jobs_active q + 1\<rparr>) s"
    using add_job_to_active_upd by blast
  then show ?thesis
    by (intro exI[of _ "(gs_part_list s ! p)\<lparr>active_resmap := Some amap, active_cpus := acpus,
                             jobs_active := jobs_active (gs_part_list s ! p) + 1\<rparr>"]) simp
qed

lemma add_job_to_active_sorted [simp]:
  "gs_part_sorted (add_job_to_active a p s) = gs_part_sorted s"
  "gs_part_sorted_alloc (add_job_to_active a p s) = gs_part_sorted_alloc s"
  using add_job_to_active_upd[of a p s] by auto

lemma same_jobs_add_active [simp]: "same_jobs s (add_job_to_active a p s)"
proof -
  obtain x where x: "gs_part_list (add_job_to_active a p s) = (gs_part_list s)[p := x]"
    "priority x = priority (gs_part_list s ! p)" "job_list x = job_list (gs_part_list s ! p)"
    using add_job_to_active_parts by blast
  show ?thesis unfolding same_jobs_def x(1) by (simp add: map_update x(2,3) map_update_same)
qed

lemma shadows_wf_add_active:
  assumes "shadows_wf (gs_part_list s)"
  shows "shadows_wf (gs_part_list (add_job_to_active a p s))"
proof -
  obtain x where x: "gs_part_list (add_job_to_active a p s) = (gs_part_list s)[p := x]"
    "priority x = priority (gs_part_list s ! p)" "job_list x = job_list (gs_part_list s ! p)"
    "shadow x = shadow (gs_part_list s ! p)"
    using add_job_to_active_parts by blast
  show ?thesis unfolding x(1) by (rule shadows_wf_upd[OF assms]) (simp add: part_le_def x)
qed

lemma gs_inv_add_active: "gs_inv s \<Longrightarrow> gs_inv (add_job_to_active a p s)"
  by (rule gs_invI[of s]) (simp_all add: shadows_wf_add_active gs_inv_def)

lemma gs_inv_upd_job [simp]: "gs_inv (upd_job a f s) = gs_inv s"
  by (simp add: gs_inv_def sorted_ok_def)

lemma gs_inv_signal_job [simp]: "gs_inv (signal_job env jid sig s) = gs_inv s"
  by (simp add: gs_inv_def sorted_ok_def)

lemma gs_inv_clear: "gs_inv s \<Longrightarrow> gs_inv (clear_shadow a s)"
  by (rule gs_invI[of s]) (simp_all add: shadows_wf_clear gs_inv_def)

lemma gs_inv_cast:
  assumes "gs_inv s" "p < length (gs_part_list s)" "a \<in> set (job_list (part_at s p))"
  shows "gs_inv (cast_shadow a (priority (part_at s p)) s)"
proof (rule gs_invI[of s])
  have "part_at s p \<in> set (gs_part_list s)" using assms(2) by (simp add: part_at_def)
  then have "\<exists>o1\<in>set (gs_part_list s). a \<in> set (job_list o1) \<and> priority (part_at s p) \<le> priority o1"
    using assms(3) by (intro bexI[of _ "part_at s p"]) auto
  then show "shadows_wf (gs_part_list (cast_shadow a (priority (part_at s p)) s))"
    using assms(1) by (simp add: shadows_wf_cast gs_inv_def)
qed (simp_all add: assms)

lemma gs_inv_upd_part_active:
  assumes "gs_inv s" "\<And>q. priority (f q) = priority q" "\<And>q. job_list (f q) = job_list q"
    "\<And>q. shadow (f q) = shadow q"
  shows "gs_inv (upd_part p f s)"
proof (rule gs_invI[of s])
  show "same_jobs s (upd_part p f s)" by (rule same_jobs_upd_part) (simp_all add: assms)
  show "shadows_wf (gs_part_list (upd_part p f s))"
    using assms(1) by (simp add: gs_inv_def) (rule shadows_wf_upd, simp_all add: part_le_def assms)
qed (rule assms(1))

lemma cast_shadow_part_keep [simp]:
  "priority (cast_shadow_part a prio q) = priority q"
  "job_list (cast_shadow_part a prio q) = job_list q"
  "jobs_active (cast_shadow_part a prio q) = jobs_active q"
  "active_resmap (cast_shadow_part a prio q) = active_resmap q"
  "active_cpus (cast_shadow_part a prio q) = active_cpus q"
  by (simp_all add: cast_shadow_part_def)

lemma same_jobs_right [simp]:
  "same_jobs s (upd_job a f s') = same_jobs s s'"
  "same_jobs s (signal_job env jid sig s') = same_jobs s s'"
  "same_jobs s (clear_shadow a s') = same_jobs s s'"
  "same_jobs s (cast_shadow a prio s') = same_jobs s s'"
  by (simp_all add: same_jobs_def comp_def)

lemma same_jobs_right_add [simp]: "same_jobs s (add_job_to_active a p s') = same_jobs s s'"
  using same_jobs_add_active[of s' a p] unfolding same_jobs_def by auto

lemma inv_stepI: "gs_inv s' \<Longrightarrow> same_jobs s s' \<Longrightarrow> inv_step s s'"
  by (simp add: inv_step_def)

lemma inv_step_trans: "inv_step s s' \<Longrightarrow> inv_step s' s'' \<Longrightarrow> inv_step s s''"
  unfolding inv_step_def using same_jobs_trans by blast

lemma inv_step_refl: "gs_inv s \<Longrightarrow> inv_step s s"
  by (simp add: inv_step_def)

lemma fold_inv_step:
  assumes "\<And>a s'. a \<in> set xs \<Longrightarrow> inv_step s s' \<Longrightarrow> inv_step s' (f a s')"
    and "inv_step s s1"
  shows "inv_step s (fold f xs s1)"
  using assms
proof (induction xs arbitrary: s1)
  case Nil
  then show ?case by simp
next
  case (Cons x xs)
  have "inv_step s (f x s1)"
    using Cons.prems(1)[of x s1] Cons.prems(2) inv_step_trans by simp
  then show ?case using Cons.IH[of "f x s1"] Cons.prems(1) by simp
qed

lemma add_active_step: "gs_inv s \<Longrightarrow> inv_step s (add_job_to_active a p s)"
  by (simp add: inv_step_def gs_inv_add_active)

lemma cast_step:
  "gs_inv s \<Longrightarrow> p < length (gs_part_list s) \<Longrightarrow> a \<in> set (job_list (part_at s p))
    \<Longrightarrow> inv_step s (cast_shadow a (priority (part_at s p)) s)"
  by (simp add: inv_step_def gs_inv_cast)

lemma seat_step:
  assumes "gs_inv s" "p < length (gs_part_list s)" "a \<in> set (job_list (part_at s p))"
  shows "inv_step s (cast_shadow a (priority (part_at s p)) (add_job_to_active a p s))"
proof -
  let ?s1 = "add_job_to_active a p s"
  have 1: "inv_step s ?s1" using assms(1) by (rule add_active_step)
  then have sj: "same_jobs s ?s1" and g1: "gs_inv ?s1" by (simp_all add: inv_step_def)
  have l: "p < length (gs_part_list ?s1)" using same_jobs_length[OF sj] assms(2) by simp
  have j: "a \<in> set (job_list (part_at ?s1 p))" using same_jobs_job_list[OF sj assms(2)] assms(3) by simp
  have pr: "priority (part_at ?s1 p) = priority (part_at s p)" by (rule same_jobs_priority[OF sj assms(2)])
  from cast_step[OF g1 l j] have "inv_step ?s1 (cast_shadow a (priority (part_at s p)) ?s1)"
    unfolding pr .
  with 1 show ?thesis by (rule inv_step_trans)
qed

lemma suspend_preempted_step: "gs_inv s \<Longrightarrow> inv_step s (suspend_preempted env a s)"
  unfolding suspend_preempted_def Let_def inv_step_def
  by (auto simp: gs_inv_clear)

lemma update_row_existing_step:
  assumes "gs_inv s" "p < length (gs_part_list s)" "a \<in> set (job_list (part_at s p))"
  shows "inv_step s (update_row_existing env st p a s)"
  unfolding update_row_existing_def
  using seat_step[OF assms] suspend_preempted_step[OF assms(1)] inv_step_refl[OF assms(1)]
  by simp

lemma update_row_new_step:
  assumes "gs_inv s" "p < length (gs_part_list s)" "a \<in> set (job_list (part_at s p))"
  shows "inv_step s (update_row_new env p a s)"
proof -
  let ?s1 = "cast_shadow a (priority (part_at s p)) (add_job_to_active a p s)"
  have 1: "inv_step s ?s1" by (rule seat_step[OF assms])
  then have "inv_step s (upd_job a f ?s1)" "inv_step s (upd_job a g (signal_job env jid sig (upd_job a f ?s1)))"
    for f g jid sig
    by (simp_all add: inv_step_def same_jobs_def)
  then show ?thesis
    unfolding update_row_new_def Let_def using inv_step_refl[OF assms(1)] by simp
qed

lemma inv_step_gs: "inv_step s s' \<Longrightarrow> gs_inv s'"
  by (simp add: inv_step_def)

lemma inv_step_len: "inv_step s s' \<Longrightarrow> p < length (gs_part_list s) \<Longrightarrow> p < length (gs_part_list s')"
  using same_jobs_length[of s s'] by (simp add: inv_step_def)

lemma inv_step_mem:
  "inv_step s s' \<Longrightarrow> p < length (gs_part_list s) \<Longrightarrow> a \<in> set (job_list (part_at s p))
    \<Longrightarrow> a \<in> set (job_list (part_at s' p))"
  using same_jobs_job_list[of s s' p] by (simp add: inv_step_def)

lemma update_active_row_step:
  assumes "gs_inv s" "p < length (gs_part_list s)"
  shows "inv_step s (update_active_row env p b s)"
proof -
  define s0 where "s0 = upd_part p (\<lambda>q. q\<lparr>jobs_active := 0\<rparr>) s"
  define s1 where "s1 = fold (\<lambda>a. add_job_to_active a p) (shadow (part_at s0 p)) s0"
  define s2 where "s2 = fold (update_row_existing env GS_ACTIVE p) (job_list (part_at s1 p)) s1"
  define s3 where "s3 = fold (update_row_existing env GS_FILLER p) (job_list (part_at s2 p)) s2"
  define s4 where "s4 = fold (update_row_new env p) (job_list (part_at s3 p)) s3"
  have r0: "inv_step s s0"
    unfolding s0_def inv_step_def
    by (simp add: gs_inv_upd_part_active assms(1) same_jobs_upd_part)
  have r01: "inv_step s0 s1" unfolding s1_def
    by (rule fold_inv_step) (use r0 in \<open>auto simp: inv_step_def intro: add_active_step[unfolded inv_step_def, THEN conjunct1] same_jobs_add_active\<close>)
  have r1: "inv_step s s1" using r0 r01 by (rule inv_step_trans)
  have l1: "p < length (gs_part_list s1)" using inv_step_len[OF r1 assms(2)] by simp
  have r12: "inv_step s1 s2" unfolding s2_def
  proof (rule fold_inv_step)
    fix a s' assume a: "a \<in> set (job_list (part_at s1 p))" and i: "inv_step s1 s'"
    show "inv_step s' (update_row_existing env GS_ACTIVE p a s')"
      by (rule update_row_existing_step[OF inv_step_gs[OF i] inv_step_len[OF i l1] inv_step_mem[OF i l1 a]])
  qed (use r1 in \<open>simp add: inv_step_def\<close>)
  have r2: "inv_step s s2" using r1 r12 by (rule inv_step_trans)
  have l2: "p < length (gs_part_list s2)" using inv_step_len[OF r2 assms(2)] by simp
  have r23: "inv_step s2 s3" unfolding s3_def
  proof (rule fold_inv_step)
    fix a s' assume a: "a \<in> set (job_list (part_at s2 p))" and i: "inv_step s2 s'"
    show "inv_step s' (update_row_existing env GS_FILLER p a s')"
      by (rule update_row_existing_step[OF inv_step_gs[OF i] inv_step_len[OF i l2] inv_step_mem[OF i l2 a]])
  qed (use r2 in \<open>simp add: inv_step_def\<close>)
  have r3: "inv_step s s3" using r2 r23 by (rule inv_step_trans)
  have l3: "p < length (gs_part_list s3)" using inv_step_len[OF r3 assms(2)] by simp
  have r34: "inv_step s3 s4" unfolding s4_def
  proof (rule fold_inv_step)
    fix a s' assume a: "a \<in> set (job_list (part_at s3 p))" and i: "inv_step s3 s'"
    show "inv_step s' (update_row_new env p a s')"
      by (rule update_row_new_step[OF inv_step_gs[OF i] inv_step_len[OF i l3] inv_step_mem[OF i l3 a]])
  qed (use r3 in \<open>simp add: inv_step_def\<close>)
  have r4: "inv_step s s4" using r3 r34 by (rule inv_step_trans)
  show ?thesis
    unfolding update_active_row_def Let_def
    using r3 r4 unfolding s4_def s3_def s2_def s1_def s0_def by simp
qed

lemma gs_inv_sort:
  assumes "gs_inv s" "sort_partitions s = Inr s1"
  shows "gs_inv s1"
proof -
  have so: "sorted_ok s" using assms(1) by (simp add: gs_inv_def)
  note r = sort_partitions_sorted[OF so assms(2)]
  have p: "gs_part_list s1 = gs_part_list s" by (rule sort_partitions_parts[OF assms(2)])
  show ?thesis using r assms(1) unfolding gs_inv_def sorted_ok_def p by simp
qed

lemma sorted_valid:
  assumes "gs_inv s" "sort_partitions s = Inr s1" "p \<in> set (gs_part_sorted s1)"
  shows "p < length (gs_part_list s1)"
proof -
  have so: "sorted_ok s" using assms(1) by (simp add: gs_inv_def)
  have "mset (gs_part_sorted s1) = mset [0..<length (gs_part_list s)]"
    using sort_partitions_sorted[OF so assms(2)] by simp
  then have "set (gs_part_sorted s1) = set [0..<length (gs_part_list s)]"
    by (rule mset_eq_setD)
  then show ?thesis using assms(3) sort_partitions_parts[OF assms(2)] by simp
qed

lemma sort_partitions_ok:
  assumes "gs_inv s" "gs_part_list s \<noteq> []"
  shows "\<exists>s1. sort_partitions s = Inr s1"
  using sort_partitions_returns[OF _ assms(2)] assms(1) by (simp add: gs_inv_def)

lemma update_all_active_rows_step:
  assumes "gs_inv s" "sort_partitions s = Inr s1"
  shows "inv_step s1 (fold (\<lambda>p. update_active_row env p True) (gs_part_sorted s1) s1)"
proof (rule fold_inv_step)
  show "inv_step s1 s1"
    by (rule inv_step_refl) (rule gs_inv_sort[OF assms])
  fix p s' assume p: "p \<in> set (gs_part_sorted s1)"
    and i: "inv_step s1 s'"
  have "p < length (gs_part_list s1)" by (rule sorted_valid[OF assms p])
  then have "p < length (gs_part_list s')" by (rule inv_step_len[OF i])
  then show "inv_step s' (update_active_row env p True s')"
    by (rule update_active_row_step[OF inv_step_gs[OF i]])
qed

lemma cycle_reorder_mset:
  "cycle_reorder i jl h = (jl', h') \<Longrightarrow> mset jl' = mset jl"
proof (induction i jl h arbitrary: jl' h' rule: cycle_reorder.induct)
  case (1 i jl h)
  show ?case
  proof (cases "i < length jl")
    case False
    then show ?thesis using "1.prems" by (simp add: cycle_reorder.simps[of i jl h])
  next
    case True
    note i = True
    show ?thesis
    proof (cases "row_state (the (h (jl ! i))) = GS_ACTIVE")
      case True
      let ?jl = "take i jl @ drop (Suc i) jl @ [jl ! i]"
      have "cycle_reorder i ?jl (h(jl ! i \<mapsto> (the (h (jl ! i)))\<lparr>row_state := GS_NO_ACTIVE\<rparr>)) = (jl', h')"
        using "1.prems" i True by (simp add: cycle_reorder.simps[of i jl h])
      from "1.IH"(1)[OF i True this] have "mset jl' = mset ?jl" .
      also have "\<dots> = mset (take i jl @ jl ! i # drop (Suc i) jl)" by simp
      also have "\<dots> = mset jl" using i by (simp only: id_take_nth_drop[symmetric])
      finally show ?thesis .
    next
      case False
      have "cycle_reorder (Suc i) jl (if row_state (the (h (jl ! i))) = GS_FILLER
                    then h(jl ! i \<mapsto> (the (h (jl ! i)))\<lparr>row_state := GS_NO_ACTIVE\<rparr>)
                    else h) = (jl', h')"
        using "1.prems" i False by (simp add: cycle_reorder.simps[of i jl h])
      from "1.IH"(2)[OF i False this] show ?thesis .
    qed
  qed
qed

lemma build_active_row_step:
  assumes "gs_inv s"
  shows "inv_step s (build_active_row p s)"
proof -
  define s0 where "s0 = upd_part p (\<lambda>q. q\<lparr>jobs_active := 0\<rparr>) s"
  have r0: "inv_step s s0"
    unfolding s0_def inv_step_def
    by (simp add: gs_inv_upd_part_active assms(1) same_jobs_upd_part)
  define s1 where "s1 = fold (\<lambda>a. add_job_to_active a p) (shadow (part_at s0 p)) s0"
  have r01: "inv_step s0 s1" unfolding s1_def
    by (rule fold_inv_step) (use r0 in \<open>auto simp: inv_step_def gs_inv_add_active\<close>)
  have r1: "inv_step s s1" using r0 r01 by (rule inv_step_trans)
  have r12: "inv_step s1 (fold (\<lambda>a st. if job_fits_in_active_row st (job_at st a) (part_at st p)
                                then upd_job a (\<lambda>j. j\<lparr>row_state := GS_ACTIVE\<rparr>)
                                       (add_job_to_active a p st)
                                else st) (job_list (part_at s1 p)) s1)"
    by (rule fold_inv_step) (use r1 in \<open>auto simp: inv_step_def gs_inv_add_active\<close>)
  show ?thesis unfolding build_active_row_def Let_def
    using r0 inv_step_trans[OF r1 r12] unfolding s1_def s0_def by simp
qed

lemma suspend_not_active_step: "gs_inv s \<Longrightarrow> inv_step s (suspend_not_active env a s)"
  unfolding suspend_not_active_def inv_step_def by (auto simp: gs_inv_clear)

lemma resume_active_step:
  assumes "gs_inv s" "p < length (gs_part_list s)" "a \<in> set (job_list (part_at s p))"
  shows "inv_step s (resume_active env p a s)"
proof -
  let ?s1 = "upd_job a (\<lambda>j. j\<lparr>sig_state := GS_RESUME\<rparr>) (signal_job env (job_id (job_at s a)) GS_RESUME s)"
  have g: "gs_inv ?s1" "p < length (gs_part_list ?s1)" "a \<in> set (job_list (part_at ?s1 p))"
    using assms by simp_all
  from cast_step[OF g] have "inv_step s (cast_shadow a (priority (part_at s p)) ?s1)"
    by (simp add: inv_step_def)
  then show ?thesis unfolding resume_active_def using inv_step_refl[OF assms(1)] by simp
qed

lemma inv_len_length: "inv_len s s' \<Longrightarrow> length (gs_part_list s') = length (gs_part_list s)"
  unfolding inv_len_def by (metis length_map)

lemma inv_len_refl: "gs_inv s \<Longrightarrow> inv_len s s"
  by (simp add: inv_len_def)

lemma inv_len_trans: "inv_len s s' \<Longrightarrow> inv_len s' s'' \<Longrightarrow> inv_len s s''"
  by (simp add: inv_len_def)

lemma inv_step_len': "inv_step s s' \<Longrightarrow> inv_len s s'"
  by (simp add: inv_step_def inv_len_def same_jobs_def)

lemma cycle_job_list_len:
  assumes "gs_inv s" "p < length (gs_part_list s)"
  shows "inv_len s (cycle_job_list env p s)"
proof -
  obtain jl h where c: "cycle_reorder 0 (job_list (part_at s p)) (heap s) = (jl, h)"
    by (cases "cycle_reorder 0 (job_list (part_at s p)) (heap s)") auto
  have ms: "set jl = set (job_list (part_at s p))" using cycle_reorder_mset[OF c] by (rule mset_eq_setD)
  define s1 where "s1 = upd_part p (\<lambda>q. q\<lparr>job_list := jl\<rparr>) (s\<lparr>heap := h\<rparr>)"
  have w1: "shadows_wf (gs_part_list s1)"
    unfolding s1_def using assms(1) ms
    by (simp add: gs_inv_def) (rule shadows_wf_upd, simp_all add: part_le_def part_at_def)
  have g1: "inv_len s s1"
    unfolding inv_len_def gs_inv_def using w1 assms(1)
    by (simp add: s1_def gs_inv_def sorted_ok_def map_update map_update_same)
  then have gi1: "gs_inv s1" by (simp add: inv_len_def)
  have l1: "p < length (gs_part_list s1)" using inv_len_length[OF g1] assms(2) by simp
  define s2 where "s2 = build_active_row p s1"
  have r2: "inv_step s1 s2" unfolding s2_def by (rule build_active_row_step[OF gi1])
  define s3 where "s3 = fold (suspend_not_active env) (job_list (part_at s2 p)) s2"
  have r23: "inv_step s2 s3" unfolding s3_def
    by (rule fold_inv_step) (use r2 in \<open>auto simp: inv_step_def intro: suspend_not_active_step[unfolded inv_step_def, THEN conjunct1] suspend_not_active_step[unfolded inv_step_def, THEN conjunct2]\<close>)
  have r3: "inv_step s1 s3" using r2 r23 by (rule inv_step_trans)
  have l3: "p < length (gs_part_list s3)" by (rule inv_step_len[OF r3 l1])
  have r34: "inv_step s3 (fold (resume_active env p) (job_list (part_at s3 p)) s3)"
  proof (rule fold_inv_step)
    fix a s' assume a: "a \<in> set (job_list (part_at s3 p))" and i: "inv_step s3 s'"
    show "inv_step s' (resume_active env p a s')"
      by (rule resume_active_step[OF inv_step_gs[OF i] inv_step_len[OF i l3] inv_step_mem[OF i l3 a]])
  qed (use r3 in \<open>simp add: inv_step_def\<close>)
  have "inv_len s1 (fold (resume_active env p) (job_list (part_at s3 p)) s3)"
    by (rule inv_step_len'[OF inv_step_trans[OF r3 r34]])
  then have "inv_len s (fold (resume_active env p) (job_list (part_at s3 p)) s3)"
    by (rule inv_len_trans[OF g1])
  then show ?thesis unfolding cycle_job_list_def c Let_def s3_def s2_def s1_def by simp
qed

lemma fold_inv_len:
  assumes "\<And>a s'. a \<in> set xs \<Longrightarrow> inv_len s s' \<Longrightarrow> inv_len s' (f a s')"
    and "inv_len s s1"
  shows "inv_len s (fold f xs s1)"
  using assms
proof (induction xs arbitrary: s1)
  case Nil
  then show ?case by simp
next
  case (Cons x xs)
  have "inv_len s1 (f x s1)" using Cons.prems(1)[of x s1] Cons.prems(2) by simp
  then have "inv_len s (f x s1)" using Cons.prems(2) inv_len_trans by blast
  then show ?case using Cons.IH[of "f x s1"] Cons.prems(1) by simp
qed

lemma sort_partitions_len:
  assumes "gs_inv s" "sort_partitions s = Inr s1"
  shows "inv_len s s1"
  using gs_inv_sort[OF assms] sort_partitions_parts[OF assms(2)] by (simp add: inv_len_def)

lemma timeslicer_tick_len:
  assumes "gs_inv s" "timeslicer_tick env s = Inr r"
  shows "inv_len s r"
proof -
  obtain s1 where s1: "sort_partitions s = Inr s1"
    and r: "r = fold (\<lambda>p st. if jobs_active (part_at st p)
                                 < length (job_list (part_at st p)) + length (shadow (part_at st p))
                             then cycle_job_list env p st else st) (gs_part_sorted s1) s1"
    using assms(2) by (auto simp: timeslicer_tick_def split: sum.splits)
  have "inv_len s1 r" unfolding r
  proof (rule fold_inv_len)
    show "inv_len s1 s1"
      by (rule inv_len_refl) (rule gs_inv_sort[OF assms(1) s1])
    fix p s' assume p: "p \<in> set (gs_part_sorted s1)"
      and i: "inv_len s1 s'"
    have "p < length (gs_part_list s1)" by (rule sorted_valid[OF assms(1) s1 p])
    then have l: "p < length (gs_part_list s')" using inv_len_length[OF i] by simp
    have g: "gs_inv s'" using i by (simp add: inv_len_def)
    show "inv_len s' (if jobs_active (part_at s' p) < length (job_list (part_at s' p)) + length (shadow (part_at s' p))
                          then cycle_job_list env p s' else s')"
      using cycle_job_list_len[OF g l] inv_len_refl[OF g] by simp
  qed
  with sort_partitions_len[OF assms(1) s1] show ?thesis by (rule inv_len_trans)
qed

lemma timeslicer_tick_ok:
  assumes "gs_inv s" "gs_part_list s \<noteq> []"
  shows "\<exists>r. timeslicer_tick env s = Inr r"
  using sort_partitions_ok[OF assms] by (auto simp: timeslicer_tick_def)

lemma find_job_from_Some:
  "find_job_from h as jid k = Some i \<Longrightarrow> k \<le> i \<and> i - k < length as"
proof (induction as arbitrary: k)
  case Nil
  then show ?case by simp
next
  case (Cons a as)
  show ?case
  proof (cases "job_id (the (h a)) = jid")
    case True
    then show ?thesis using Cons.prems by simp
  next
    case False
    then have "find_job_from h as jid (Suc k) = Some i" using Cons.prems by simp
    from Cons.IH[OF this] show ?thesis by auto
  qed
qed

lemma find_job_index_Some:
  "find_job_index s p jid = Some i \<Longrightarrow> i < length (job_list (part_at s p))"
  unfolding find_job_index_def by (drule find_job_from_Some) simp

lemma find_part_from_Some:
  "find_part_from ps name k = Some i \<Longrightarrow> k \<le> i \<and> i - k < length ps"
proof (induction ps arbitrary: k)
  case Nil
  then show ?case by simp
next
  case (Cons q qs)
  show ?case
  proof (cases "name = part_name q")
    case True
    then show ?thesis using Cons.prems by simp
  next
    case False
    then have "find_part_from qs name (Suc k) = Some i" using Cons.prems by simp
    from Cons.IH[OF this] show ?thesis by auto
  qed
qed

lemma find_gs_part_Some: "find_gs_part s name = Some p \<Longrightarrow> p < length (gs_part_list s)"
  unfolding find_gs_part_def by (drule find_part_from_Some) simp

lemma shadows_wf_drop_job:
  assumes "shadows_wf ps" "\<forall>q \<in> set ps. a \<notin> set (shadow q)"
    and "set (job_list (ps ! p)) - {a} \<subseteq> set jl"
  shows "shadows_wf (ps[p := (ps ! p)\<lparr>job_list := jl\<rparr>])"
  unfolding shadows_wf_def shadow_prio_ok_def
proof (intro conjI ballI)
  let ?ps = "ps[p := (ps ! p)\<lparr>job_list := jl\<rparr>]"
  have nth: "shadow (?ps ! i) = shadow (ps ! i)" "priority (?ps ! i) = priority (ps ! i)"
      "set (job_list (ps ! i)) - {a} \<subseteq> set (job_list (?ps ! i))" if "i < length ps" for i
    using that assms(3) by (cases "i = p"; simp)+
  fix q' assume "q' \<in> set ?ps"
  then obtain i where i: "i < length ps" "q' = ?ps ! i" by (auto simp: in_set_conv_nth)
  have q: "ps ! i \<in> set ps" using i by simp
  show "distinct (shadow q')" using assms(1) q i nth(1) by (simp add: shadows_wf_def)
  fix b assume "b \<in> set (shadow q')"
  then have b: "b \<in> set (shadow (ps ! i))" using i nth(1) by simp
  then have ne: "b \<noteq> a" using assms(2) q by auto
  obtain o1 where o1: "o1 \<in> set ps" "b \<in> set (job_list o1)" "priority (ps ! i) < priority o1"
    using assms(1) q b unfolding shadows_wf_def shadow_prio_ok_def by blast
  then obtain k where k: "k < length ps" "o1 = ps ! k" by (auto simp: in_set_conv_nth)
  have "b \<in> set (job_list (?ps ! k))" using nth(3)[OF k(1)] o1(2) k(2) ne by auto
  moreover have "priority q' < priority (?ps ! k)" using o1(3) k i nth(2) by simp
  moreover have "?ps ! k \<in> set ?ps" using k by simp
  ultimately show "\<exists>q''\<in>set ?ps. b \<in> set (job_list q'') \<and> priority q' < priority q''" by blast
qed

lemma remove_job_from_part_len:
  assumes "gs_inv s" "\<forall>p. popt = Some p \<longrightarrow> p < length (gs_part_list s)"
  shows "inv_len s (remove_job_from_part env jid popt s)"
proof (cases "jid = 0 \<or> popt = None")
  case True
  then show ?thesis using assms(1) by (auto simp: remove_job_from_part_def inv_len_refl)
next
  case False
  then obtain p where p: "popt = Some p" "p < length (gs_part_list s)" "jid \<noteq> 0" using assms(2) by auto
  show ?thesis
  proof (cases "find_job_index s p jid")
    case None
    then show ?thesis using p assms(1) by (simp add: remove_job_from_part_def inv_len_refl)
  next
    case (Some i)
    define a where "a = job_list (part_at s p) ! i"
    define s1 where "s1 = clear_shadow a s"
    define jl where "jl = take i (job_list (part_at s p)) @ drop (Suc i) (job_list (part_at s p))"
    define s2 where "s2 = upd_part p (\<lambda>q. q\<lparr>job_list := take i (job_list q) @ drop (Suc i) (job_list q)\<rparr>) s1"
    have i: "i < length (job_list (part_at s p))" by (rule find_job_index_Some[OF Some])
    have w: "shadows_wf (gs_part_list s)" using assms(1) by (simp add: gs_inv_def)
    have w1: "shadows_wf (gs_part_list s1)" unfolding s1_def by (simp add: shadows_wf_clear[OF w])
    have n1: "\<forall>q \<in> set (gs_part_list s1). a \<notin> set (shadow q)"
      unfolding s1_def using cleared_notin[OF w] by simp
    have jl1: "job_list (gs_part_list s1 ! p) = job_list (part_at s p)"
      unfolding s1_def using p(2) by (simp add: part_at_def)
    have sub: "set (job_list (gs_part_list s1 ! p)) - {a} \<subseteq> set jl"
    proof
      fix b assume b: "b \<in> set (job_list (gs_part_list s1 ! p)) - {a}"
      then have "b \<in> set (take i (job_list (part_at s p)) @ job_list (part_at s p) ! i # drop (Suc i) (job_list (part_at s p)))"
        using i by (simp only: id_take_nth_drop[symmetric] jl1) simp
      then show "b \<in> set jl" using b unfolding jl_def a_def by auto
    qed
    have p2: "gs_part_list s2 = (gs_part_list s1)[p := (gs_part_list s1 ! p)\<lparr>job_list := jl\<rparr>]"
      unfolding s2_def jl_def jl1[symmetric] by simp
    have w2: "shadows_wf (gs_part_list s2)"
      unfolding p2 by (rule shadows_wf_drop_job[OF w1 n1 sub])
    have pr: "map priority (gs_part_list s2) = map priority (gs_part_list s)"
      unfolding p2 s1_def using p(2) by (simp add: map_update comp_def map_update_same)
    have so: "gs_part_sorted s2 = gs_part_sorted s" "gs_part_sorted_alloc s2 = gs_part_sorted_alloc s"
      unfolding s2_def s1_def by simp_all
    have len: "length (gs_part_list s2) = length (gs_part_list s)" using pr by (metis length_map)
    have g2: "gs_inv s2" using assms(1) w2 so len by (auto simp: gs_inv_def sorted_ok_def)
    have "inv_len s (s2'\<lparr>heap := hh\<rparr>)" if "s2' = s2 \<or> s2' = signal_job env jid' sig s2" for s2' hh jid' sig
      using that g2 pr by (auto simp: inv_len_def gs_inv_def sorted_ok_def)
    moreover have "\<exists>s2' hh jid' sig. (s2' = s2 \<or> s2' = signal_job env jid' sig s2)
        \<and> remove_job_from_part env jid popt s = s2'\<lparr>heap := hh\<rparr>"
      using p Some unfolding remove_job_from_part_def Let_def a_def s1_def s2_def
      by (cases "sig_state (job_at s2 a) = GS_SUSPEND") (auto simp: a_def s1_def s2_def)
    ultimately show ?thesis by metis
  qed
qed

lemma add_job_to_part_len:
  assumes "gs_inv s" "p < length (gs_part_list s)" "add_job_to_part env p jid bm s = Inr (st, r)"
  shows "inv_len s r"
proof -
  define s1 where "s1 = (case find_job_index s p jid of None \<Rightarrow> s
      | Some i \<Rightarrow> update_active_row env p False (remove_job_from_part env jid (Some p) s))"
  have r1: "inv_len s s1"
  proof (cases "find_job_index s p jid")
    case None
    then show ?thesis using assms(1) by (simp add: s1_def inv_len_refl)
  next
    case (Some i)
    have a: "inv_len s (remove_job_from_part env jid (Some p) s)"
      by (rule remove_job_from_part_len[OF assms(1)]) (simp add: assms(2))
    then have "inv_len (remove_job_from_part env jid (Some p) s)
        (update_active_row env p False (remove_job_from_part env jid (Some p) s))"
      using inv_len_length[OF a] assms(2)
      by (intro inv_step_len' update_active_row_step) (simp_all add: inv_len_def)
    with a show ?thesis using Some by (simp add: s1_def inv_len_trans)
  qed
  obtain rm where rm: "get_resmap env s1 bm jid = Inr rm" and j0: "jid \<noteq> 0"
    using assms(3) unfolding add_job_to_part_def s1_def[symmetric] Let_def
    by (auto split: if_splits sum.splits)
  define a where "a = next_job_ptr s1"
  define j where "j = \<lparr>job_id = jid, sig_state = GS_RESUME, row_state = GS_NO_ACTIVE, resmap = rm,
                        alloc_cpus = (if gr_type s1 = GS_CORE \<or> gr_type s1 = GS_CPU
                                      then Some (load_alloc_cpus env s1 jid rm bm)
                                      else None)\<rparr>"
  define s3 where "s3 = upd_part p (\<lambda>q. q\<lparr>job_list := job_list q @ [a]\<rparr>) (s1\<lparr>heap := (heap s1)(a \<mapsto> j), next_job_ptr := Suc a\<rparr>)"
  have g1: "gs_inv s1" using r1 by (simp add: inv_len_def)
  have l1: "p < length (gs_part_list s1)" using inv_len_length[OF r1] assms(2) by simp
  have w3: "shadows_wf (gs_part_list s3)"
    unfolding s3_def using g1
    by (simp add: gs_inv_def) (rule shadows_wf_upd, auto simp: part_le_def)
  have r3: "inv_len s1 s3"
    unfolding inv_len_def gs_inv_def using w3 g1
    by (simp add: s3_def gs_inv_def sorted_ok_def map_update map_update_same)
  then have g3: "gs_inv s3" by (simp add: inv_len_def)
  have l3: "p < length (gs_part_list s3)" using inv_len_length[OF r3] l1 by simp
  have m3: "a \<in> set (job_list (part_at s3 p))" unfolding s3_def using l1 by (simp add: part_at_def)
  have fit: "inv_len s3 (cast_shadow a (priority (part_at (upd_job a f (add_job_to_active a p s3)) p))
                  (upd_job a f (add_job_to_active a p s3)))" for f
  proof -
    let ?s4 = "add_job_to_active a p s3"
    have 4: "inv_step s3 ?s4" by (rule add_active_step[OF g3])
    have 5: "inv_step s3 (upd_job a f ?s4)" using 4 by (simp add: inv_step_def)
    from cast_step[OF inv_step_gs[OF 5] inv_step_len[OF 5 l3] inv_step_mem[OF 5 l3 m3]]
    show ?thesis using 5 inv_step_trans inv_step_len' by blast
  qed
  have nofit: "inv_len s3 (upd_job a f (signal_job env jid' sig s3))" for f jid' sig
    using g3 by (simp add: inv_len_def)
  have "(\<exists>f. r = cast_shadow a (priority (part_at (upd_job a f (add_job_to_active a p s3)) p))
                  (upd_job a f (add_job_to_active a p s3)))
      \<or> (\<exists>f jid' sig. r = upd_job a f (signal_job env jid' sig s3))"
    using assms(3) j0 rm
    unfolding add_job_to_part_def s1_def[symmetric] Let_def
    unfolding a_def j_def s3_def
    by (auto split: if_splits)
  then have "inv_len s3 r" using fit nofit by auto
  with r1 r3 show ?thesis using inv_len_trans by blast
qed

lemma update_all_active_rows_len:
  assumes "gs_inv s" "update_all_active_rows env s = Inr r"
  shows "inv_len s r"
proof -
  obtain s1 where s1: "sort_partitions s = Inr s1"
    and r: "r = fold (\<lambda>p. update_active_row env p True) (gs_part_sorted s1) s1"
    using assms(2) by (auto simp: update_all_active_rows_def split: sum.splits)
  have "inv_len s1 r" unfolding r
    by (rule inv_step_len'[OF update_all_active_rows_step[OF assms(1) s1]])
  with sort_partitions_len[OF assms(1) s1] show ?thesis by (rule inv_len_trans)
qed

lemma update_all_active_rows_ok:
  assumes "gs_inv s" "gs_part_list s \<noteq> []"
  shows "\<exists>r. update_all_active_rows env s = Inr r"
  using sort_partitions_ok[OF assms] by (auto simp: update_all_active_rows_def)

lemma efold_inv_len:
  assumes "\<And>x s' r. x \<in> set xs \<Longrightarrow> inv_len s s' \<Longrightarrow> f x s' = Inr r \<Longrightarrow> inv_len s' r"
    and "inv_len s s1" "efold f xs s1 = Inr r"
  shows "inv_len s r"
  using assms
proof (induction xs arbitrary: s1)
  case Nil
  then show ?case by simp
next
  case (Cons x xs)
  from Cons.prems(3) obtain s2 where s2: "f x s1 = Inr s2" "efold f xs s2 = Inr r"
    by (auto split: sum.splits)
  have "inv_len s1 s2" using Cons.prems(1)[of x s1 s2] Cons.prems(2) s2(1) by simp
  then have 2: "inv_len s s2" using Cons.prems(2) inv_len_trans by blast
  show ?case
  proof (rule Cons.IH[OF _ 2 s2(2)])
    fix y s' r' assume "y \<in> set xs" "inv_len s s'" "f y s' = Inr r'"
    then show "inv_len s' r'" using Cons.prems(1)[of y s' r'] by simp
  qed
qed

lemma gs_job_start_len:
  assumes "gs_inv s" "gs_job_start env jr s = Inr r"
  shows "inv_len s r"
proof (cases "find_gs_part s (jr_partition jr)")
  case None
  then show ?thesis using assms by (auto simp: gs_job_start_def inv_len_def gs_inv_def sorted_ok_def)
next
  case (Some p)
  then obtain st s1 where a: "add_job_to_part env p (jr_job_id jr) (jr_node_bitmap jr) s = Inr (st, s1)"
    and r: "(if st = GS_RESUME then update_all_active_rows env s1 else Inr s1) = Inr r"
    using assms(2) by (auto simp: gs_job_start_def split: sum.splits)
  have 1: "inv_len s s1" by (rule add_job_to_part_len[OF assms(1) find_gs_part_Some[OF Some] a])
  then have g1: "gs_inv s1" by (simp add: inv_len_def)
  have "inv_len s1 r"
  proof (cases "st = GS_RESUME")
    case True
    then show ?thesis using update_all_active_rows_len[OF g1] r by simp
  next
    case False
    then show ?thesis using r inv_len_refl[OF g1] by simp
  qed
  with 1 show ?thesis by (rule inv_len_trans)
qed

lemma gs_job_fini_len:
  assumes "gs_inv s"
  shows "\<exists>r. gs_job_fini env jr s = Inr r \<and> inv_len s r"
proof (cases "find_gs_part s (jr_partition jr)")
  case None
  then show ?thesis using assms by (simp add: gs_job_fini_def inv_len_refl)
next
  case (Some p)
  let ?s1 = "remove_job_from_part env (jr_job_id jr) (Some p) s"
  have 1: "inv_len s ?s1"
    by (rule remove_job_from_part_len[OF assms]) (simp add: find_gs_part_Some[OF Some])
  then have g1: "gs_inv ?s1" by (simp add: inv_len_def)
  have "length (gs_part_list ?s1) = length (gs_part_list s)" by (rule inv_len_length[OF 1])
  then have "gs_part_list ?s1 \<noteq> []" using find_gs_part_Some[OF Some] by auto
  from update_all_active_rows_ok[OF g1 this] obtain r where r: "update_all_active_rows env ?s1 = Inr r"
    by blast
  have "inv_len ?s1 r" by (rule update_all_active_rows_len[OF g1 r])
  with 1 have "inv_len s r" by (rule inv_len_trans)
  then show ?thesis using r Some by (simp add: gs_job_fini_def)
qed

lemma scan_job_len:
  assumes "gs_inv s" "scan_job env jr s = Inr r"
  shows "inv_len s r"
proof (cases "find_gs_part s (jr_partition jr)")
  case None
  then show ?thesis using assms by (auto simp: scan_job_def inv_len_refl split: if_splits)
next
  case (Some p)
  note l = find_gs_part_Some[OF Some]
  have "r = s
      \<or> (\<exists>st s1. (s1 = s \<or> s1 = signal_job env (jr_job_id jr) GS_RESUME s)
            \<and> add_job_to_part env p (jr_job_id jr) (jr_node_bitmap jr) s1 = Inr (st, r))
      \<or> r = remove_job_from_part env (jr_job_id jr) (Some p) s"
    using assms(2) Some unfolding scan_job_def Let_def
    by (auto split: if_splits option.splits sum.splits)
  then consider (same) "r = s"
    | (add) st s1 where "s1 = s \<or> s1 = signal_job env (jr_job_id jr) GS_RESUME s"
        "add_job_to_part env p (jr_job_id jr) (jr_node_bitmap jr) s1 = Inr (st, r)"
    | (rem) "r = remove_job_from_part env (jr_job_id jr) (Some p) s"
    by blast
  then show ?thesis
  proof cases
    case same
    then show ?thesis using assms(1) by (simp add: inv_len_refl)
  next
    case add
    have 1: "inv_len s s1" using assms(1) add(1) by (auto simp: inv_len_def)
    have "inv_len s1 r"
      by (rule add_job_to_part_len[OF _ _ add(2)]) (use assms(1) l add(1) in auto)
    with 1 show ?thesis by (rule inv_len_trans)
  next
    case rem
    then show ?thesis using remove_job_from_part_len[OF assms(1), of "Some p"] l by simp
  qed
qed

lemma scan_slurm_job_list_len:
  assumes "gs_inv s" "scan_slurm_job_list env s = Inr r"
  shows "inv_len s r"
proof (cases "ctld_job_list env")
  case None
  then show ?thesis using assms by (simp add: scan_slurm_job_list_def inv_len_refl)
next
  case (Some jl)
  then obtain s1 where s1: "efold (scan_job env) jl s = Inr s1" and r: "update_all_active_rows env s1 = Inr r"
    using assms(2) by (auto simp: scan_slurm_job_list_def split: sum.splits)
  have 1: "inv_len s s1"
    by (rule efold_inv_len[OF _ inv_len_refl[OF assms(1)] s1]) (rule scan_job_len, simp_all add: inv_len_def)
  then have "gs_inv s1" by (simp add: inv_len_def)
  then have "inv_len s1 r" using r by (rule update_all_active_rows_len)
  with 1 show ?thesis by (rule inv_len_trans)
qed

lemma gs_inv_build_parts: "gs_inv (build_parts env s)"
proof -
  have w: "shadows_wf (map new_part prs)" for prs
    by (auto simp: shadows_wf_def shadow_prio_ok_def new_part_def)
  have e: "shadows_wf []" by (simp add: shadows_wf_def shadow_prio_ok_def)
  show ?thesis
    unfolding build_parts_def Let_def gs_inv_def sorted_ok_def
    by (auto simp: w e destroy_parts_def)
qed

lemma gs_init_inv:
  assumes "gs_init env s = Inr r"
  shows "gs_inv r"
proof -
  obtain s4 where "scan_slurm_job_list env (build_parts env s4) = Inr r"
    using assms unfolding gs_init_def Let_def by blast
  from scan_slurm_job_list_len[OF gs_inv_build_parts this] show ?thesis by (simp add: inv_len_def)
qed

lemma resume_removed_len: "gs_inv s \<Longrightarrow> inv_len s (resume_removed env a s)"
  by (simp add: resume_removed_def inv_len_def)

lemma transfer_job_len:
  assumes "gs_inv s" "newp < length (gs_part_list s)" "transfer_job env newp a s = Inr r"
  shows "inv_len s r"
proof (cases "find_job_record env (job_id (job_at s a))")
  case None
  then show ?thesis using assms by (simp add: transfer_job_def inv_len_refl)
next
  case (Some jr)
  have "\<exists>s1. (s1 = s \<or> s1 = signal_job env (jr_job_id jr) GS_RESUME s)
      \<and> (r = s1 \<or> (\<exists>st. add_job_to_part env newp (jr_job_id jr) (jr_node_bitmap jr) s1 = Inr (st, r)))"
    using assms(3) Some unfolding transfer_job_def Let_def
    by (auto split: if_splits sum.splits)
  then obtain s1 where s1: "s1 = s \<or> s1 = signal_job env (jr_job_id jr) GS_RESUME s"
    and c: "r = s1 \<or> (\<exists>st. add_job_to_part env newp (jr_job_id jr) (jr_node_bitmap jr) s1 = Inr (st, r))"
    by blast
  have 1: "inv_len s s1" using assms(1) s1 by (auto simp: inv_len_def)
  from c show ?thesis
  proof
    assume "r = s1"
    then show ?thesis using 1 by simp
  next
    assume "\<exists>st. add_job_to_part env newp (jr_job_id jr) (jr_node_bitmap jr) s1 = Inr (st, r)"
    then obtain st where add: "add_job_to_part env newp (jr_job_id jr) (jr_node_bitmap jr) s1 = Inr (st, r)"
      by blast
    have "inv_len s1 r"
      by (rule add_job_to_part_len[OF _ _ add]) (use assms(1,2) s1 in auto)
    with 1 show ?thesis by (rule inv_len_trans)
  qed
qed

lemma transfer_part_len:
  assumes "gs_inv s" "transfer_part env q s = Inr r"
  shows "inv_len s r"
proof (cases "find_gs_part s (part_name q)")
  case None
  then have r: "r = fold (resume_removed env) (job_list q) s"
    using assms(2) by (simp add: transfer_part_def)
  show ?thesis unfolding r
    by (rule fold_inv_len[OF _ inv_len_refl[OF assms(1)]]) (rule resume_removed_len, simp add: inv_len_def)
next
  case (Some newp)
  note l = find_gs_part_Some[OF Some]
  show ?thesis
  proof (cases "job_list q = []")
    case True
    then show ?thesis using assms Some by (simp add: transfer_part_def inv_len_refl)
  next
    case False
    then have e: "efold (transfer_job env newp) (job_list q) s = Inr r"
      using assms(2) Some by (simp add: transfer_part_def)
    show ?thesis
    proof (rule efold_inv_len[OF _ inv_len_refl[OF assms(1)] e])
      fix x s' r' assume i: "inv_len s s'" and t: "transfer_job env newp x s' = Inr r'"
      show "inv_len s' r'"
        by (rule transfer_job_len[OF _ _ t]) (use i l inv_len_length[OF i] in \<open>simp_all add: inv_len_def\<close>)
    qed
  qed
qed

lemma gs_reconfig_inv:
  assumes "gs_reconfig env s = Inr r"
  shows "gs_inv r"
proof -
  let ?s1 = "build_parts env (s\<lparr>gs_part_list := []\<rparr>)"
  obtain s2 s3 where s2: "efold (transfer_part env) (gs_part_list s) ?s1 = Inr s2"
    and s3: "scan_slurm_job_list env s2 = Inr s3"
    and r: "r = s3\<lparr>heap := free_jobs (gs_part_list s) (heap s3)\<rparr>"
    using assms unfolding gs_reconfig_def Let_def by (auto split: sum.splits)
  have "inv_len ?s1 s2"
  proof (rule efold_inv_len[OF _ inv_len_refl[OF gs_inv_build_parts] s2])
    fix x s' r' assume i: "inv_len ?s1 s'" and t: "transfer_part env x s' = Inr r'"
    show "inv_len s' r'" by (rule transfer_part_len[OF _ t]) (use i in \<open>simp add: inv_len_def\<close>)
  qed
  then have "gs_inv s2" by (simp add: inv_len_def)
  from scan_slurm_job_list_len[OF this s3] have "gs_inv s3" by (simp add: inv_len_def)
  then show ?thesis unfolding r by (simp add: gs_inv_def sorted_ok_def)
qed

lemma gs_fini_inv: "gs_inv (gs_fini s)"
  by (simp add: gs_fini_def gs_inv_def sorted_ok_def destroy_parts_def shadows_wf_def shadow_prio_ok_def)

text \<open>Claim C6. Priority monotonicity is preserved by every operation: in a state where
  the shadow lists are well formed, every job in the shadow list of a partition belongs to
  a partition of strictly higher priority, and the same holds again after a rebuild of one
  partition or of all, a cycle, a pass of the timeslicer, the removal or addition of a job
  and each hook of the controller; start and reconfiguration establish it from any state.
  The rebuild of all partitions and the pass of the timeslicer stop in \<^verbatim>\<open>_sort_partitions\<close>
  only when there is no partition; the end of a job always returns.
  \<^verbatim>\<open>_cast_shadow\<close> never adds a job to a partition whose priority equals or exceeds that of
  the job's partition.\<close>

theorem priority_monotonicity_invariant:
  assumes "gs_inv s"
  shows "shadow_prio_ok (gs_part_list s)
    \<and> (p < length (gs_part_list s) \<longrightarrow> gs_inv (update_active_row env p b s))
    \<and> (case update_all_active_rows env s of Inl e \<Rightarrow> gs_part_list s = [] | Inr r \<Rightarrow> gs_inv r)
    \<and> (p < length (gs_part_list s) \<longrightarrow> gs_inv (cycle_job_list env p s))
    \<and> (case timeslicer_tick env s of Inl e \<Rightarrow> gs_part_list s = [] | Inr r \<Rightarrow> gs_inv r)
    \<and> ((\<forall>p. popt = Some p \<longrightarrow> p < length (gs_part_list s))
          \<longrightarrow> gs_inv (remove_job_from_part env jid popt s))
    \<and> (p < length (gs_part_list s)
          \<longrightarrow> (\<forall>st r. add_job_to_part env p jid bm s = Inr (st, r) \<longrightarrow> gs_inv r))
    \<and> (\<forall>r. gs_job_start env jr s = Inr r \<longrightarrow> gs_inv r)
    \<and> (\<exists>r. gs_job_fini env jr s = Inr r \<and> gs_inv r)
    \<and> (\<forall>r. gs_job_scan env s = Inr r \<longrightarrow> gs_inv r)
    \<and> (\<forall>r. gs_reconfig env s = Inr r \<longrightarrow> gs_inv r)
    \<and> (\<forall>r. gs_init env s = Inr r \<longrightarrow> gs_inv r)
    \<and> gs_inv (gs_fini s)"
proof -
  have 0: "shadow_prio_ok (gs_part_list s)" using assms by (simp add: gs_inv_def shadows_wf_def)
  have 1: "p < length (gs_part_list s) \<longrightarrow> gs_inv (update_active_row env p b s)"
    using update_active_row_step[OF assms] by (simp add: inv_step_def)
  have 2: "case update_all_active_rows env s of Inl e \<Rightarrow> gs_part_list s = [] | Inr r \<Rightarrow> gs_inv r"
    using update_all_active_rows_len[OF assms] update_all_active_rows_ok[OF assms, of env]
    by (cases "update_all_active_rows env s") (auto simp: inv_len_def)
  have 3: "p < length (gs_part_list s) \<longrightarrow> gs_inv (cycle_job_list env p s)"
    using cycle_job_list_len[OF assms] by (simp add: inv_len_def)
  have 4: "case timeslicer_tick env s of Inl e \<Rightarrow> gs_part_list s = [] | Inr r \<Rightarrow> gs_inv r"
    using timeslicer_tick_len[OF assms] timeslicer_tick_ok[OF assms, of env]
    by (cases "timeslicer_tick env s") (auto simp: inv_len_def)
  have 5: "(\<forall>p. popt = Some p \<longrightarrow> p < length (gs_part_list s))
          \<longrightarrow> gs_inv (remove_job_from_part env jid popt s)"
    using remove_job_from_part_len[OF assms] by (simp add: inv_len_def)
  have 6: "p < length (gs_part_list s)
          \<longrightarrow> (\<forall>st r. add_job_to_part env p jid bm s = Inr (st, r) \<longrightarrow> gs_inv r)"
    using add_job_to_part_len[OF assms] by (simp add: inv_len_def)
  have 7: "\<forall>r. gs_job_start env jr s = Inr r \<longrightarrow> gs_inv r"
    using gs_job_start_len[OF assms] by (simp add: inv_len_def)
  have 8: "\<exists>r. gs_job_fini env jr s = Inr r \<and> gs_inv r"
    using gs_job_fini_len[OF assms] by (auto simp: inv_len_def)
  have 9: "\<forall>r. gs_job_scan env s = Inr r \<longrightarrow> gs_inv r"
    using scan_slurm_job_list_len[OF assms] by (simp add: inv_len_def gs_job_scan_def)
  have 10: "\<forall>r. gs_reconfig env s = Inr r \<longrightarrow> gs_inv r" using gs_reconfig_inv by blast
  have 11: "\<forall>r. gs_init env s = Inr r \<longrightarrow> gs_inv r" using gs_init_inv by blast
  show ?thesis using 0 1 2 3 4 5 6 7 8 9 10 11 gs_fini_inv by (intro conjI)
qed

lemma perm_upt_sort: "(mset xs = mset [0..<n]) = (sort xs = [0..<n])"
proof
  assume "mset xs = mset [0..<n]"
  then show "sort xs = [0..<n]" by (intro properties_for_sort) simp_all
next
  assume "sort xs = [0..<n]"
  then have "mset (sort xs) = mset [0..<n]" by simp
  then show "mset xs = mset [0..<n]" by simp
qed

lemma gs_inv_check_iff: "gs_inv s = gs_inv_check s"
  unfolding gs_inv_def gs_inv_check_def sorted_ok_def shadows_wf_def shadow_prio_ok_def
    perm_upt_sort list_all_iff list_ex_iff
  by auto

theorem priority_monotonicity_invariant_witness:
  "gs_inv_check S4_running
   \<and> map shadow (gs_part_list S4_running) = [[1], []]
   \<and> gs_inv_check (update_active_row S1_env 0 True S4_running)
   \<and> map_sum id gs_inv_check (update_all_active_rows S1_env S4_running) = Inr True
   \<and> gs_inv_check (cycle_job_list S1_env 1 S4_running)
   \<and> map_sum id gs_inv_check (timeslicer_tick S1_env S4_running) = Inr True
   \<and> map_sum id gs_inv_check (gs_job_fini S1_env S4_jobY S4_running) = Inr True"
proof -
  have c: "gs_inv_check S4_running" by code_simp
  have sh: "map shadow (gs_part_list S4_running) = [[1], []]" by code_simp
  have l0: "(0::nat) < length (gs_part_list S4_running)" by code_simp
  have l1: "(1::nat) < length (gs_part_list S4_running)" by code_simp
  have ne: "gs_part_list S4_running \<noteq> []" using l0 by auto
  have h: "gs_inv S4_running" using c by (simp add: gs_inv_check_iff)
  note t0 = priority_monotonicity_invariant[OF h, where p=0 and env=S1_env and b=True and jr=S4_jobY]
  note t1 = priority_monotonicity_invariant[OF h, where p=1 and env=S1_env]
  have a: "gs_inv (update_active_row S1_env 0 True S4_running)" using t0 l0 by blast
  have "case update_all_active_rows S1_env S4_running of
          Inl e \<Rightarrow> gs_part_list S4_running = [] | Inr r \<Rightarrow> gs_inv r"
    using t0 by blast
  then have b: "map_sum id gs_inv_check (update_all_active_rows S1_env S4_running) = Inr True"
    using ne by (cases "update_all_active_rows S1_env S4_running") (simp_all add: gs_inv_check_iff)
  have d: "gs_inv (cycle_job_list S1_env 1 S4_running)" using t1 l1 by blast
  have "case timeslicer_tick S1_env S4_running of
          Inl e \<Rightarrow> gs_part_list S4_running = [] | Inr r \<Rightarrow> gs_inv r"
    using t0 by blast
  then have e: "map_sum id gs_inv_check (timeslicer_tick S1_env S4_running) = Inr True"
    using ne by (cases "timeslicer_tick S1_env S4_running") (simp_all add: gs_inv_check_iff)
  have "\<exists>r. gs_job_fini S1_env S4_jobY S4_running = Inr r \<and> gs_inv r" using t0 by blast
  then have f: "map_sum id gs_inv_check (gs_job_fini S1_env S4_jobY S4_running) = Inr True"
    by (auto simp: gs_inv_check_iff)
  show ?thesis using c sh a b d e f unfolding gs_inv_check_iff by (intro conjI)
qed
section \<open>The count of the active row\<close>

lemma distinct_concat_nth:
  assumes "distinct (concat xss)" "i < length xss" "j < length xss" "a \<in> set (xss ! i)" "a \<in> set (xss ! j)"
  shows "i = j"
  using assms
proof (induction xss arbitrary: i j)
  case Nil
  then show ?case by simp
next
  case (Cons xs xss)
  have d: "distinct (concat xss)" "set xs \<inter> set (concat xss) = {}" using Cons.prems(1) by auto
  have in_c: "k < length xss \<Longrightarrow> a \<in> set (xss ! k) \<Longrightarrow> a \<in> set (concat xss)" for k
    by (auto intro: nth_mem)
  show ?case
  proof (cases i)
    case 0
    show ?thesis
    proof (cases j)
      case 0
      then show ?thesis using \<open>i = 0\<close> by simp
    next
      case (Suc j')
      then have "a \<in> set (concat xss)" using Cons.prems(3,5) in_c[of j'] by simp
      moreover have "a \<in> set xs" using Cons.prems(4) 0 by simp
      ultimately show ?thesis using d(2) by auto
    qed
  next
    case (Suc i')
    show ?thesis
    proof (cases j)
      case 0
      have "a \<in> set (concat xss)" using Cons.prems(2,4) Suc in_c[of i'] by simp
      moreover have "a \<in> set xs" using Cons.prems(5) 0 by simp
      ultimately show ?thesis using d(2) by auto
    next
      case j: (Suc j')
      have "i' = j'" using Cons.IH[OF d(1), of i' j'] Cons.prems(2-5) Suc j by simp
      then show ?thesis using Suc j by simp
    qed
  qed
qed

lemma jobs_wf_owner:
  assumes "jobs_wf s" "p < length (gs_part_list s)" "q < length (gs_part_list s)"
    "a \<in> set (job_list (part_at s p))" "a \<in> set (job_list (part_at s q))"
  shows "p = q"
  using distinct_concat_nth[of "map job_list (gs_part_list s)" p q a] assms
  by (simp add: jobs_wf_def part_at_def)

lemma jobs_wf_distinct:
  assumes "jobs_wf s" "p < length (gs_part_list s)"
  shows "distinct (job_list (part_at s p))"
proof -
  have "job_list (part_at s p) \<in> set (map job_list (gs_part_list s))"
    using assms(2) by (simp add: part_at_def)
  then show ?thesis using assms(1) unfolding jobs_wf_def by (auto simp: distinct_concat_iff)
qed

text \<open>A job of \<open>p\<close> is in no shadow list of a partition at least as high as \<open>p\<close>.\<close>

lemma own_job_not_shadow:
  assumes "gs_inv s" "jobs_wf s" "p < length (gs_part_list s)" "q < length (gs_part_list s)"
    "a \<in> set (job_list (part_at s p))" "priority (part_at s p) \<le> priority (part_at s q)"
  shows "a \<notin> set (shadow (part_at s q))"
proof
  assume "a \<in> set (shadow (part_at s q))"
  moreover have "part_at s q \<in> set (gs_part_list s)" using assms(4) by (simp add: part_at_def)
  ultimately obtain q' where q': "q' \<in> set (gs_part_list s)" "a \<in> set (job_list q')"
      "priority (part_at s q) < priority q'"
    using assms(1) unfolding gs_inv_def shadows_wf_def shadow_prio_ok_def by blast
  then obtain i where i: "i < length (gs_part_list s)" "gs_part_list s ! i = q'"
    by (auto simp: in_set_conv_nth)
  have "i = p" using jobs_wf_owner[OF assms(2) i(1) assms(3)] q'(2) i(2) assms(5) by (simp add: part_at_def)
  then show False using q'(3) i(2) assms(6) by (simp add: part_at_def)
qed

subsection \<open>What the primitive steps leave alone\<close>

lemma job_at_upd_job: "job_at (upd_job a f s) b = (if b = a then f (job_at s a) else job_at s b)"
  by (simp add: upd_job_def job_at_def)

lemma job_at_signal_job [simp]: "job_at (signal_job env jid sig s) = job_at s"
  by (rule ext) (simp add: signal_job_def job_at_def Let_def)

lemma job_at_upd_part [simp]: "job_at (upd_part p f s) = job_at s"
  by (rule ext) (simp add: upd_part_def job_at_def)

lemma job_at_cast_shadow [simp]: "job_at (cast_shadow a prio s) = job_at s"
  by (rule ext) (simp add: cast_shadow_def job_at_def)

lemma job_at_clear_shadow [simp]: "job_at (clear_shadow a s) = job_at s"
  by (rule ext) (simp add: clear_shadow_def job_at_def)

lemma job_at_add_active [simp]: "job_at (add_job_to_active a p s) = job_at s"
  using add_job_to_active_upd[of a p s] by auto

lemma next_upd_job [simp]: "next_job_ptr (upd_job a f s) = next_job_ptr s"
  by (simp add: upd_job_def)

lemma next_signal_job [simp]: "next_job_ptr (signal_job env jid sig s) = next_job_ptr s"
  by (simp add: signal_job_def Let_def)

lemma next_upd_part [simp]: "next_job_ptr (upd_part p f s) = next_job_ptr s"
  by (simp add: upd_part_def)

lemma next_cast_shadow [simp]: "next_job_ptr (cast_shadow a prio s) = next_job_ptr s"
  by (simp add: cast_shadow_def)

lemma next_clear_shadow [simp]: "next_job_ptr (clear_shadow a s) = next_job_ptr s"
  by (simp add: clear_shadow_def)

lemma next_add_active [simp]: "next_job_ptr (add_job_to_active a p s) = next_job_ptr s"
  using add_job_to_active_upd[of a p s] by auto

lemma part_at_upd_part:
  "part_at (upd_part p f s) q = (if q = p \<and> p < length (gs_part_list s) then f (part_at s p) else part_at s q)"
  by (cases "p < length (gs_part_list s)") (auto simp: part_at_def upd_part_def nth_list_update list_update_beyond)

lemma part_at_cast_shadow:
  "q < length (gs_part_list s) \<Longrightarrow> part_at (cast_shadow a prio s) q = cast_shadow_part a prio (part_at s q)"
  by (simp add: part_at_def)

lemma part_at_clear_shadow:
  "q < length (gs_part_list s) \<Longrightarrow> part_at (clear_shadow a s) q = (part_at s q)\<lparr>shadow := remove1 a (shadow (part_at s q))\<rparr>"
  by (simp add: part_at_def)

lemma part_at_add_active:
  "\<exists>amap acpus. \<forall>q. part_at (add_job_to_active a p s) q
      = (if q = p \<and> p < length (gs_part_list s)
         then (part_at s p)\<lparr>active_resmap := Some amap, active_cpus := acpus,
                             jobs_active := jobs_active (part_at s p) + 1\<rparr>
         else part_at s q)"
proof -
  obtain amap acpus where e: "add_job_to_active a p s
      = upd_part p (\<lambda>q. q\<lparr>active_resmap := Some amap, active_cpus := acpus,
                             jobs_active := jobs_active q + 1\<rparr>) s"
    using add_job_to_active_upd by blast
  show ?thesis unfolding e by (intro exI[of _ amap] exI[of _ acpus]) (simp add: part_at_upd_part)
qed

lemma active_add_active:
  "p < length (gs_part_list s) \<Longrightarrow> jobs_active (part_at (add_job_to_active a p s) p) = Suc (jobs_active (part_at s p))"
  using part_at_add_active[of a p s] by auto

lemma shadow_add_active [simp]: "shadow (part_at (add_job_to_active a p s) q) = shadow (part_at s q)"
  using part_at_add_active[of a p s] by auto

lemma other_add_active: "q \<noteq> p \<Longrightarrow> part_at (add_job_to_active a p s) q = part_at s q"
  using part_at_add_active[of a p s] by auto

lemma active_cast_shadow:
  "q < length (gs_part_list s) \<Longrightarrow> jobs_active (part_at (cast_shadow a prio s) q) = jobs_active (part_at s q)"
  by (simp add: part_at_cast_shadow cast_shadow_part_def)

lemma active_clear_shadow:
  "q < length (gs_part_list s) \<Longrightarrow> jobs_active (part_at (clear_shadow a s) q) = jobs_active (part_at s q)"
  by (simp add: part_at_clear_shadow)

lemma row_frame_refl [simp]: "row_frame p s s"
  by (simp add: row_frame_def)

lemma row_frame_trans:
  assumes "row_frame p s s'" "row_frame p s' s''" "p < length (gs_part_list s)"
  shows "row_frame p s s''"
proof -
  have sj: "same_jobs s s'" "same_jobs s' s''" using assms by (simp_all add: row_frame_def)
  have len: "length (gs_part_list s') = length (gs_part_list s)" by (rule same_jobs_length[OF sj(1)])
  have pr: "q < length (gs_part_list s) \<Longrightarrow> priority (part_at s' q) = priority (part_at s q)" for q
    by (rule same_jobs_priority[OF sj(1)])
  have jl: "job_list (part_at s' p) = job_list (part_at s p)"
    by (rule same_jobs_job_list[OF sj(1) assms(3)])
  show ?thesis
    using assms(1,2) same_jobs_trans[OF sj] pr[OF assms(3)] pr
    unfolding row_frame_def len jl by auto
qed

lemma row_frame_upd_job:
  "a \<in> set (job_list (part_at s p)) \<Longrightarrow> row_frame p s (upd_job a f s)"
  by (auto simp: row_frame_def job_at_upd_job)

lemma row_frame_signal_job [simp]: "row_frame p s (signal_job env jid sig s)"
  by (simp add: row_frame_def)

lemma row_frame_add_active [simp]: "row_frame p s (add_job_to_active a p s)"
  by (simp add: row_frame_def other_add_active)

lemma row_frame_cast:
  "row_frame p s (cast_shadow a (priority (part_at s p)) s)"
  by (simp add: row_frame_def part_at_cast_shadow cast_shadow_part_def)

lemma row_frame_clear:
  assumes "gs_inv s" "jobs_wf s" "p < length (gs_part_list s)" "a \<in> set (job_list (part_at s p))"
  shows "row_frame p s (clear_shadow a s)"
  using own_job_not_shadow[OF assms(1,2,3) _ assms(4)]
  by (simp add: row_frame_def part_at_clear_shadow remove1_idem)

lemma row_frame_reset:
  "row_frame p s (upd_part p (\<lambda>q. q\<lparr>jobs_active := 0\<rparr>) s)"
  unfolding row_frame_def
  by (auto simp: part_at_upd_part intro: same_jobs_upd_part)

lemma jobs_wf_frame:
  assumes "same_jobs s s'" "next_job_ptr s' = next_job_ptr s" "jobs_wf s"
  shows "jobs_wf s'"
  using assms by (simp add: jobs_wf_def same_jobs_def)

lemma row_frame_jobs_wf: "row_frame p s s' \<Longrightarrow> jobs_wf s \<Longrightarrow> jobs_wf s'"
  using jobs_wf_frame[of s s'] by (simp add: row_frame_def)

subsection \<open>The steps of a rebuild\<close>

lemma jobs_wf_upd_job [simp]: "jobs_wf (upd_job a f s) = jobs_wf s"
  by (simp add: jobs_wf_def)

lemma jobs_wf_signal_job [simp]: "jobs_wf (signal_job env jid sig s) = jobs_wf s"
  by (simp add: jobs_wf_def)

lemma length_add_active [simp]: "length (gs_part_list (add_job_to_active a p s)) = length (gs_part_list s)"
  by (rule same_jobs_length) simp

lemma priority_add_active [simp]: "priority (part_at (add_job_to_active a p s) q) = priority (part_at s q)"
  using part_at_add_active[of a p s] by auto

lemma job_list_add_active [simp]: "job_list (part_at (add_job_to_active a p s) q) = job_list (part_at s q)"
  using part_at_add_active[of a p s] by auto

lemma seat_frame:
  assumes "p < length (gs_part_list s)"
  shows "row_frame p s (cast_shadow a (priority (part_at s p)) (add_job_to_active a p s))"
    and "jobs_active (part_at (cast_shadow a (priority (part_at s p)) (add_job_to_active a p s)) p)
           = Suc (jobs_active (part_at s p))"
proof -
  let ?s1 = "add_job_to_active a p s"
  have "row_frame p ?s1 (cast_shadow a (priority (part_at ?s1 p)) ?s1)" by (rule row_frame_cast)
  then have "row_frame p ?s1 (cast_shadow a (priority (part_at s p)) ?s1)" by simp
  with row_frame_add_active show "row_frame p s (cast_shadow a (priority (part_at s p)) ?s1)"
    using assms by (rule row_frame_trans)
  show "jobs_active (part_at (cast_shadow a (priority (part_at s p)) ?s1) p) = Suc (jobs_active (part_at s p))"
    using assms by (simp add: active_cast_shadow active_add_active)
qed

lemma suspend_preempted_frame:
  assumes "gs_inv s" "jobs_wf s" "p < length (gs_part_list s)" "a \<in> set (job_list (part_at s p))"
  shows "row_frame p s (suspend_preempted env a s)"
    and "jobs_active (part_at (suspend_preempted env a s) p) = jobs_active (part_at s p)"
    and "b \<noteq> a \<Longrightarrow> job_at (suspend_preempted env a s) b = job_at s b"
    and "row_state (job_at (suspend_preempted env a s) a) = GS_NO_ACTIVE"
proof -
  let ?s1 = "upd_job a (\<lambda>j. j\<lparr>sig_state := GS_SUSPEND\<rparr>) (signal_job env (job_id (job_at s a)) GS_SUSPEND s)"
  have f1: "row_frame p s ?s1"
    using assms(4) by (auto simp: row_frame_def job_at_upd_job)
  have "row_frame p ?s1 (clear_shadow a ?s1)"
    by (rule row_frame_clear) (use assms in simp_all)
  with f1 have f2: "row_frame p s (clear_shadow a ?s1)" using assms(3) by (rule row_frame_trans)
  have j: "a \<in> set (job_list (part_at (clear_shadow a ?s1) p))"
    using f2 assms(3,4) same_jobs_job_list[of s "clear_shadow a ?s1" p] by (simp add: row_frame_def)
  have f3: "row_frame p s (upd_job a f (clear_shadow a ?s1))" for f
    by (rule row_frame_trans[OF f2 row_frame_upd_job[OF j] assms(3)])
  have f4: "row_frame p s (upd_job a f s)" for f
    by (rule row_frame_upd_job[OF assms(4)])
  show "row_frame p s (suspend_preempted env a s)"
    unfolding suspend_preempted_def Let_def using f3 f4 by simp
  show "jobs_active (part_at (suspend_preempted env a s) p) = jobs_active (part_at s p)"
    unfolding suspend_preempted_def Let_def using assms(3) by (simp add: active_clear_shadow)
  show "b \<noteq> a \<Longrightarrow> job_at (suspend_preempted env a s) b = job_at s b"
    unfolding suspend_preempted_def Let_def by (simp add: job_at_upd_job)
  show "row_state (job_at (suspend_preempted env a s) a) = GS_NO_ACTIVE"
    unfolding suspend_preempted_def Let_def by (simp add: job_at_upd_job)
qed

lemma update_row_existing_frame:
  assumes "gs_inv s" "jobs_wf s" "p < length (gs_part_list s)" "a \<in> set (job_list (part_at s p))"
    and "st \<noteq> GS_NO_ACTIVE"
  shows "row_frame p s (update_row_existing env st p a s)"
    and "jobs_active (part_at (update_row_existing env st p a s) p)
           = jobs_active (part_at s p)
             + (if row_state (job_at (update_row_existing env st p a s) a) = st then 1 else 0)"
    and "b \<noteq> a \<Longrightarrow> job_at (update_row_existing env st p a s) b = job_at s b"
    and "row_state (job_at (update_row_existing env st p a s) a) = row_state (job_at s a)
         \<or> (row_state (job_at s a) = st
             \<and> row_state (job_at (update_row_existing env st p a s) a) = GS_NO_ACTIVE)"
proof -
  note sp = suspend_preempted_frame[OF assms(1-4), where env=env]
  note se = seat_frame[OF assms(3), where a=a]
  show "row_frame p s (update_row_existing env st p a s)"
    unfolding update_row_existing_def using sp(1) se(1) by simp
  show "jobs_active (part_at (update_row_existing env st p a s) p)
           = jobs_active (part_at s p)
             + (if row_state (job_at (update_row_existing env st p a s) a) = st then 1 else 0)"
    unfolding update_row_existing_def using sp(2,4) se(2) assms(5) by simp
  show "b \<noteq> a \<Longrightarrow> job_at (update_row_existing env st p a s) b = job_at s b"
    unfolding update_row_existing_def using sp(3) by simp
  show "row_state (job_at (update_row_existing env st p a s) a) = row_state (job_at s a)
         \<or> (row_state (job_at s a) = st
             \<and> row_state (job_at (update_row_existing env st p a s) a) = GS_NO_ACTIVE)"
    unfolding update_row_existing_def using sp(4) by simp
qed

lemma update_row_new_frame:
  assumes "p < length (gs_part_list s)" "a \<in> set (job_list (part_at s p))"
  shows "row_frame p s (update_row_new env p a s)"
    and "b \<noteq> a \<Longrightarrow> job_at (update_row_new env p a s) b = job_at s b"
    and "update_row_new env p a s = s
         \<or> (row_state (job_at s a) = GS_NO_ACTIVE
             \<and> row_state (job_at (update_row_new env p a s) a) = GS_FILLER
             \<and> jobs_active (part_at (update_row_new env p a s) p) = Suc (jobs_active (part_at s p)))"
proof -
  let ?s1 = "cast_shadow a (priority (part_at s p)) (add_job_to_active a p s)"
  note se = seat_frame[OF assms(1), where a=a]
  have j: "a \<in> set (job_list (part_at ?s1 p))"
    using se(1) assms same_jobs_job_list[of s ?s1 p] by (simp add: row_frame_def)
  have l: "p < length (gs_part_list ?s1)" using assms(1) by simp
  have f2: "row_frame p s (upd_job a f ?s1)" for f
    by (rule row_frame_trans[OF se(1) row_frame_upd_job[OF j] assms(1)])
  have j2: "a \<in> set (job_list (part_at (signal_job env jid sig (upd_job a f ?s1)) p))" for f jid sig
    using j by simp
  have "row_frame p (upd_job a f ?s1) (upd_job a g (signal_job env jid sig (upd_job a f ?s1)))" for f g jid sig
    using j by (auto simp: row_frame_def job_at_upd_job)
  then have f3: "row_frame p s (upd_job a g (signal_job env jid sig (upd_job a f ?s1)))" for f g jid sig
    using row_frame_trans[OF f2 _ assms(1)] by blast
  show "row_frame p s (update_row_new env p a s)"
    unfolding update_row_new_def Let_def using f2 f3 by simp
  show "b \<noteq> a \<Longrightarrow> job_at (update_row_new env p a s) b = job_at s b"
    unfolding update_row_new_def Let_def by (simp add: job_at_upd_job)
  show "update_row_new env p a s = s
         \<or> (row_state (job_at s a) = GS_NO_ACTIVE
             \<and> row_state (job_at (update_row_new env p a s) a) = GS_FILLER
             \<and> jobs_active (part_at (update_row_new env p a s) p) = Suc (jobs_active (part_at s p)))"
    unfolding update_row_new_def Let_def using se(2) by (simp add: job_at_upd_job)
qed

subsection \<open>The phases of a rebuild\<close>

lemma row_frame_job_list:
  "row_frame p s s' \<Longrightarrow> q < length (gs_part_list s) \<Longrightarrow> job_list (part_at s' q) = job_list (part_at s q)"
  using same_jobs_job_list[of s s' q] by (simp add: row_frame_def)

lemma row_frame_length: "row_frame p s s' \<Longrightarrow> length (gs_part_list s') = length (gs_part_list s)"
  using same_jobs_length[of s s'] by (simp add: row_frame_def)

lemma row_frame_shadow:
  "row_frame p s s' \<Longrightarrow> p < length (gs_part_list s) \<Longrightarrow> shadow (part_at s' p) = shadow (part_at s p)"
  by (simp add: row_frame_def)

lemma phase_shadows:
  assumes "p < length (gs_part_list s)"
  shows "row_frame p s (fold (\<lambda>a. add_job_to_active a p) xs s)
       \<and> jobs_active (part_at (fold (\<lambda>a. add_job_to_active a p) xs s) p) = jobs_active (part_at s p) + length xs"
  using assms
proof (induction xs arbitrary: s)
  case Nil
  then show ?case by simp
next
  case (Cons a xs)
  let ?s1 = "add_job_to_active a p s"
  have l: "p < length (gs_part_list ?s1)" using Cons.prems by simp
  note ih = Cons.IH[OF l]
  have "row_frame p s (fold (\<lambda>a. add_job_to_active a p) xs ?s1)"
    by (rule row_frame_trans[OF row_frame_add_active[of p s a] _ Cons.prems]) (use ih in simp)
  then show ?case using ih Cons.prems by (simp add: active_add_active)
qed

lemma phase_existing:
  assumes "gs_inv s" "jobs_wf s" "p < length (gs_part_list s)"
    and "set xs \<subseteq> set (job_list (part_at s p))" "distinct xs" "st \<noteq> GS_NO_ACTIVE"
  shows "inv_step s (fold (update_row_existing env st p) xs s)
    \<and> row_frame p s (fold (update_row_existing env st p) xs s)
    \<and> jobs_active (part_at (fold (update_row_existing env st p) xs s) p)
        = jobs_active (part_at s p)
          + length (filter (\<lambda>a. row_state (job_at (fold (update_row_existing env st p) xs s) a) = st) xs)
    \<and> (\<forall>b. row_state (job_at (fold (update_row_existing env st p) xs s) b) = row_state (job_at s b)
            \<or> (row_state (job_at s b) = st
                \<and> row_state (job_at (fold (update_row_existing env st p) xs s) b) = GS_NO_ACTIVE))
    \<and> (\<forall>b. b \<notin> set xs \<longrightarrow> job_at (fold (update_row_existing env st p) xs s) b = job_at s b)"
  using assms(1-5)
proof (induction xs arbitrary: s)
  case Nil
  then show ?case by (simp add: inv_step_refl)
next
  case (Cons a xs)
  let ?s1 = "update_row_existing env st p a s"
  let ?s' = "fold (update_row_existing env st p) xs ?s1"
  have a: "a \<in> set (job_list (part_at s p))" using Cons.prems(4) by simp
  note st = update_row_existing_frame[OF Cons.prems(1-3) a assms(6), where env=env]
  have i1: "inv_step s ?s1" by (rule update_row_existing_step[OF Cons.prems(1,3) a])
  have g1: "gs_inv ?s1" using i1 by (rule inv_step_gs)
  have w1: "jobs_wf ?s1" by (rule row_frame_jobs_wf[OF st(1) Cons.prems(2)])
  have l1: "p < length (gs_part_list ?s1)" using row_frame_length[OF st(1)] Cons.prems(3) by simp
  have j1: "set xs \<subseteq> set (job_list (part_at ?s1 p))"
    using row_frame_job_list[OF st(1) Cons.prems(3)] Cons.prems(4) by simp
  have d1: "distinct xs" "a \<notin> set xs" using Cons.prems(5) by simp_all
  note ih = Cons.IH[OF g1 w1 l1 j1 d1(1)]
  have r1: "inv_step s ?s'" using i1 ih inv_step_trans by blast
  have r2: "row_frame p s ?s'" by (rule row_frame_trans[OF st(1) _ Cons.prems(3)]) (use ih in simp)
  have keep: "job_at ?s' a = job_at ?s1 a" using ih d1(2) by simp
  have r3: "jobs_active (part_at ?s' p)
        = jobs_active (part_at s p) + length (filter (\<lambda>a. row_state (job_at ?s' a) = st) (a # xs))"
    using ih st(2) keep by simp
  have r4: "row_state (job_at ?s' b) = row_state (job_at s b)
            \<or> (row_state (job_at s b) = st \<and> row_state (job_at ?s' b) = GS_NO_ACTIVE)" for b
  proof (cases "b = a")
    case True
    then show ?thesis using st(4) keep by auto
  next
    case False
    then have "job_at ?s1 b = job_at s b" by (rule st(3))
    moreover have "row_state (job_at ?s' b) = row_state (job_at ?s1 b)
            \<or> (row_state (job_at ?s1 b) = st \<and> row_state (job_at ?s' b) = GS_NO_ACTIVE)"
      using ih by blast
    ultimately show ?thesis by simp
  qed
  have r5: "b \<notin> set (a # xs) \<Longrightarrow> job_at ?s' b = job_at s b" for b
    using ih st(3)[of b] by simp
  show ?case using r1 r2 r3 r4 r5 by simp
qed

lemma filter_flip:
  assumes "distinct xs" "a \<in> set xs" "\<not> P a" "Q a" "\<And>b. b \<noteq> a \<Longrightarrow> Q b = P b"
  shows "length (filter Q xs) = Suc (length (filter P xs))"
  using assms(1,2)
proof (induction xs)
  case Nil
  then show ?case by simp
next
  case (Cons x xs)
  show ?case
  proof (cases "x = a")
    case True
    then have "a \<notin> set xs" using Cons.prems(1) by simp
    then have "\<forall>b \<in> set xs. Q b = P b" using assms(5) by metis
    then have "filter Q xs = filter P xs" by (intro filter_cong) auto
    then show ?thesis using True assms(3,4) by simp
  next
    case False
    then have "length (filter Q xs) = Suc (length (filter P xs))" using Cons by simp
    then show ?thesis using False assms(5)[of x] by simp
  qed
qed

lemma length_filter_disj:
  assumes "\<And>x. \<not> (P x \<and> Q x)"
  shows "length (filter (\<lambda>x. P x \<or> Q x) xs) = length (filter P xs) + length (filter Q xs)"
  using assms by (induction xs) auto

lemma phase_new:
  assumes "gs_inv s" "p < length (gs_part_list s)"
    and "set xs \<subseteq> set (job_list (part_at s p))" "distinct (job_list (part_at s p))" "row_count_ok s p"
  shows "inv_step s (fold (update_row_new env p) xs s)
    \<and> row_frame p s (fold (update_row_new env p) xs s)
    \<and> row_count_ok (fold (update_row_new env p) xs s) p"
  using assms
proof (induction xs arbitrary: s)
  case Nil
  then show ?case by (simp add: inv_step_refl)
next
  case (Cons a xs)
  let ?s1 = "update_row_new env p a s"
  let ?s' = "fold (update_row_new env p) xs ?s1"
  have a: "a \<in> set (job_list (part_at s p))" using Cons.prems(3) by simp
  note st = update_row_new_frame[OF Cons.prems(2) a, where env=env]
  have i1: "inv_step s ?s1" by (rule update_row_new_step[OF Cons.prems(1,2) a])
  have g1: "gs_inv ?s1" using i1 by (rule inv_step_gs)
  have l1: "p < length (gs_part_list ?s1)" using row_frame_length[OF st(1)] Cons.prems(2) by simp
  have jl: "job_list (part_at ?s1 p) = job_list (part_at s p)"
    by (rule row_frame_job_list[OF st(1) Cons.prems(2)])
  have sh: "shadow (part_at ?s1 p) = shadow (part_at s p)"
    by (rule row_frame_shadow[OF st(1) Cons.prems(2)])
  have c1: "row_count_ok ?s1 p"
    using st(3)
  proof
    assume "?s1 = s"
    then show ?thesis using Cons.prems(5) by simp
  next
    assume h: "row_state (job_at s a) = GS_NO_ACTIVE \<and> row_state (job_at ?s1 a) = GS_FILLER
        \<and> jobs_active (part_at ?s1 p) = Suc (jobs_active (part_at s p))"
    have "length (filter (seated ?s1) (job_list (part_at s p)))
        = Suc (length (filter (seated s) (job_list (part_at s p))))"
      by (rule filter_flip[OF Cons.prems(4) a]) (use h st(2) in \<open>simp_all add: seated_def\<close>)
    then show ?thesis using h Cons.prems(5) unfolding row_count_ok_def jl sh by simp
  qed
  note ih = Cons.IH[OF g1 l1 _ _ c1, unfolded jl, OF _ Cons.prems(4)]
  have ih': "inv_step ?s1 ?s' \<and> row_frame p ?s1 ?s' \<and> row_count_ok ?s' p"
    using ih Cons.prems(3) by simp
  have r1: "inv_step s ?s'" using i1 ih' inv_step_trans by blast
  have r2: "row_frame p s ?s'" by (rule row_frame_trans[OF st(1) _ Cons.prems(2)]) (use ih' in simp)
  show ?case using r1 r2 ih' by simp
qed

lemma gs_inv_fold_add: "gs_inv s \<Longrightarrow> gs_inv (fold (\<lambda>a. add_job_to_active a p) xs s)"
  by (induction xs arbitrary: s) (simp_all add: gs_inv_add_active)

lemma update_active_row_count:
  assumes "gs_inv s" "jobs_wf s" "p < length (gs_part_list s)"
  shows "row_count_ok (update_active_row env p b s) p"
    and "row_frame p s (update_active_row env p b s)"
proof -
  define s0 where "s0 = upd_part p (\<lambda>q. q\<lparr>jobs_active := 0\<rparr>) s"
  define s1 where "s1 = fold (\<lambda>a. add_job_to_active a p) (shadow (part_at s0 p)) s0"
  define s2 where "s2 = fold (update_row_existing env GS_ACTIVE p) (job_list (part_at s1 p)) s1"
  define s3 where "s3 = fold (update_row_existing env GS_FILLER p) (job_list (part_at s2 p)) s2"
  define s4 where "s4 = fold (update_row_new env p) (job_list (part_at s3 p)) s3"
  define JL where "JL = job_list (part_at s p)"
  define SH where "SH = shadow (part_at s p)"
  have d: "distinct JL" unfolding JL_def by (rule jobs_wf_distinct[OF assms(2,3)])
  \<comment> \<open>reset\<close>
  have f0: "row_frame p s s0" unfolding s0_def by (rule row_frame_reset)
  have g0: "gs_inv s0" unfolding s0_def by (rule gs_inv_upd_part_active[OF assms(1)]) simp_all
  have l0: "p < length (gs_part_list s0)" using row_frame_length[OF f0] assms(3) by simp
  have c0: "jobs_active (part_at s0 p) = 0" unfolding s0_def using assms(3) by (simp add: part_at_upd_part)
  have sh0: "shadow (part_at s0 p) = SH" unfolding SH_def by (rule row_frame_shadow[OF f0 assms(3)])
  \<comment> \<open>shadows\<close>
  note ps = phase_shadows[OF l0, of "shadow (part_at s0 p)", folded s1_def]
  have f01: "row_frame p s0 s1" by (rule ps[THEN conjunct1])
  have f1: "row_frame p s s1" by (rule row_frame_trans[OF f0 f01 assms(3)])
  have g1: "gs_inv s1" unfolding s1_def by (rule gs_inv_fold_add[OF g0])
  have w1: "jobs_wf s1" by (rule row_frame_jobs_wf[OF f1 assms(2)])
  have l1: "p < length (gs_part_list s1)" using row_frame_length[OF f1] assms(3) by simp
  have c1: "jobs_active (part_at s1 p) = length SH" using ps[THEN conjunct2] c0 sh0 by simp
  have jl1: "job_list (part_at s1 p) = JL" unfolding JL_def by (rule row_frame_job_list[OF f1 assms(3)])
  \<comment> \<open>active jobs\<close>
  have sub1: "set (job_list (part_at s1 p)) \<subseteq> set (job_list (part_at s1 p))" by simp
  have d1: "distinct (job_list (part_at s1 p))" using d jl1 by simp
  have na: "GS_ACTIVE \<noteq> GS_NO_ACTIVE" "GS_FILLER \<noteq> GS_NO_ACTIVE" by simp_all
  note pa = phase_existing[OF g1 w1 l1 sub1 d1 na(1), where env=env, folded s2_def]
  have f12: "row_frame p s1 s2" by (rule pa[THEN conjunct2, THEN conjunct1])
  have f2: "row_frame p s s2" by (rule row_frame_trans[OF f1 f12 assms(3)])
  have g2: "gs_inv s2" by (rule inv_step_gs[OF pa[THEN conjunct1]])
  have w2: "jobs_wf s2" by (rule row_frame_jobs_wf[OF f2 assms(2)])
  have l2: "p < length (gs_part_list s2)" using row_frame_length[OF f2] assms(3) by simp
  have c2: "jobs_active (part_at s2 p) = length SH + length (filter (\<lambda>a. row_state (job_at s2 a) = GS_ACTIVE) JL)"
    using pa[THEN conjunct2, THEN conjunct2, THEN conjunct1] unfolding c1 jl1 .
  have jl2: "job_list (part_at s2 p) = JL" unfolding JL_def by (rule row_frame_job_list[OF f2 assms(3)])
  \<comment> \<open>fillers\<close>
  have sub2: "set (job_list (part_at s2 p)) \<subseteq> set (job_list (part_at s2 p))" by simp
  have d2: "distinct (job_list (part_at s2 p))" using d jl2 by simp
  note pf = phase_existing[OF g2 w2 l2 sub2 d2 na(2), where env=env, folded s3_def]
  have f23: "row_frame p s2 s3" by (rule pf[THEN conjunct2, THEN conjunct1])
  have f3: "row_frame p s s3" by (rule row_frame_trans[OF f2 f23 assms(3)])
  have g3: "gs_inv s3" by (rule inv_step_gs[OF pf[THEN conjunct1]])
  have l3: "p < length (gs_part_list s3)" using row_frame_length[OF f3] assms(3) by simp
  have jl3: "job_list (part_at s3 p) = JL" unfolding JL_def by (rule row_frame_job_list[OF f3 assms(3)])
  have sh3: "shadow (part_at s3 p) = SH" unfolding SH_def by (rule row_frame_shadow[OF f3 assms(3)])
  have pf4: "row_state (job_at s3 a) = row_state (job_at s2 a)
            \<or> (row_state (job_at s2 a) = GS_FILLER \<and> row_state (job_at s3 a) = GS_NO_ACTIVE)" for a
    using pf[THEN conjunct2, THEN conjunct2, THEN conjunct2, THEN conjunct1] by (rule spec)
  have same_act: "(row_state (job_at s3 a) = GS_ACTIVE) = (row_state (job_at s2 a) = GS_ACTIVE)" for a
    using pf4[of a] by auto
  have c3': "jobs_active (part_at s3 p)
      = jobs_active (part_at s2 p) + length (filter (\<lambda>a. row_state (job_at s3 a) = GS_FILLER) JL)"
    using pf[THEN conjunct2, THEN conjunct2, THEN conjunct1] unfolding jl2 .
  have c3: "jobs_active (part_at s3 p)
      = length SH + length (filter (\<lambda>a. row_state (job_at s3 a) = GS_ACTIVE) JL)
        + length (filter (\<lambda>a. row_state (job_at s3 a) = GS_FILLER) JL)"
    unfolding c3' c2 same_act ..
  have "length (filter (seated s3) JL)
      = length (filter (\<lambda>a. row_state (job_at s3 a) = GS_ACTIVE) JL)
        + length (filter (\<lambda>a. row_state (job_at s3 a) = GS_FILLER) JL)"
    unfolding seated_def by (rule length_filter_disj) simp
  then have r3: "row_count_ok s3 p" unfolding row_count_ok_def jl3 sh3 using c3 by simp
  \<comment> \<open>new jobs\<close>
  have sub3: "set (job_list (part_at s3 p)) \<subseteq> set (job_list (part_at s3 p))" by simp
  have d3: "distinct (job_list (part_at s3 p))" using d jl3 by simp
  note pn = phase_new[OF g3 l3 sub3 d3 r3, where env=env, folded s4_def]
  have f34: "row_frame p s3 s4" by (rule pn[THEN conjunct2, THEN conjunct1])
  have f4: "row_frame p s s4" by (rule row_frame_trans[OF f3 f34 assms(3)])
  have r4: "row_count_ok s4 p" by (rule pn[THEN conjunct2, THEN conjunct2])
  have e: "update_active_row env p b s = (if \<not> b then s3 else s4)"
    unfolding update_active_row_def Let_def s4_def s3_def s2_def s1_def s0_def by simp
  show "row_count_ok (update_active_row env p b s) p" unfolding e using r3 r4 by simp
  show "row_frame p s (update_active_row env p b s)" unfolding e using f3 f4 by simp
qed

subsection \<open>The rebuild of all partitions\<close>

lemma other_count_kept:
  assumes "row_frame p s s'" "jobs_wf s" "p < length (gs_part_list s)" "q < length (gs_part_list s)"
    and "q \<noteq> p" "priority (part_at s p) \<le> priority (part_at s q)" "row_count_ok s q"
  shows "row_count_ok s' q"
proof -
  have ja: "jobs_active (part_at s' q) = jobs_active (part_at s q)"
    using assms(1,4,5) by (simp add: row_frame_def)
  have sh: "shadow (part_at s' q) = shadow (part_at s q)"
    using assms(1,4,6) by (simp add: row_frame_def)
  have jl: "job_list (part_at s' q) = job_list (part_at s q)"
    by (rule row_frame_job_list[OF assms(1,4)])
  have "seated s' b = seated s b" if "b \<in> set (job_list (part_at s q))" for b
  proof -
    have "b \<notin> set (job_list (part_at s p))"
      using jobs_wf_owner[OF assms(2,3,4) _ that] assms(5) by auto
    then have "job_at s' b = job_at s b" using assms(1) by (simp add: row_frame_def)
    then show ?thesis by (simp add: seated_def)
  qed
  then have "filter (seated s') (job_list (part_at s q)) = filter (seated s) (job_list (part_at s q))"
    by (intro filter_cong) auto
  then show ?thesis using assms(7) unfolding row_count_ok_def ja sh jl by simp
qed

lemma rebuild_fold_count:
  assumes "gs_inv s" "jobs_wf s" "distinct xs" "\<forall>p \<in> set xs. p < length (gs_part_list s)"
    and "sorted_wrt (\<lambda>p q. priority (part_at s q) \<le> priority (part_at s p)) xs"
    and "\<forall>q \<in> D. q < length (gs_part_list s) \<and> row_count_ok s q
            \<and> (\<forall>p \<in> set xs. q \<noteq> p \<and> priority (part_at s p) \<le> priority (part_at s q))"
  shows "gs_inv (fold (\<lambda>p. update_active_row env p True) xs s)
       \<and> jobs_wf (fold (\<lambda>p. update_active_row env p True) xs s)
       \<and> (\<forall>q \<in> D \<union> set xs. row_count_ok (fold (\<lambda>p. update_active_row env p True) xs s) q)"
  using assms
proof (induction xs arbitrary: s D)
  case Nil
  then show ?case by simp
next
  case (Cons p xs)
  let ?s1 = "update_active_row env p True s"
  have lp: "p < length (gs_part_list s)" using Cons.prems(4) by simp
  note cnt = update_active_row_count[OF Cons.prems(1,2) lp, of env True]
  have i1: "inv_step s ?s1" by (rule update_active_row_step[OF Cons.prems(1) lp])
  have g1: "gs_inv ?s1" using i1 by (rule inv_step_gs)
  have w1: "jobs_wf ?s1" by (rule row_frame_jobs_wf[OF cnt(2) Cons.prems(2)])
  have len: "length (gs_part_list ?s1) = length (gs_part_list s)" by (rule row_frame_length[OF cnt(2)])
  have sj: "same_jobs s ?s1" using i1 by (simp add: inv_step_def)
  have pr: "q < length (gs_part_list s) \<Longrightarrow> priority (part_at ?s1 q) = priority (part_at s q)" for q
    by (rule same_jobs_priority[OF sj])
  have d1: "distinct xs" "p \<notin> set xs" using Cons.prems(3) by simp_all
  have v1: "\<forall>p \<in> set xs. p < length (gs_part_list ?s1)" using Cons.prems(4) len by simp
  have so: "sorted_wrt (\<lambda>p q. priority (part_at s q) \<le> priority (part_at s p)) xs"
    and hd: "\<forall>q \<in> set xs. priority (part_at s q) \<le> priority (part_at s p)"
    using Cons.prems(5) by simp_all
  have so1: "sorted_wrt (\<lambda>p q. priority (part_at ?s1 q) \<le> priority (part_at ?s1 p)) xs"
    using so Cons.prems(4) pr by (auto simp: sorted_wrt_iff_nth_less)
  have D1: "\<forall>q \<in> insert p D. q < length (gs_part_list ?s1) \<and> row_count_ok ?s1 q
            \<and> (\<forall>p' \<in> set xs. q \<noteq> p' \<and> priority (part_at ?s1 p') \<le> priority (part_at ?s1 q))"
  proof
    fix q assume q: "q \<in> insert p D"
    show "q < length (gs_part_list ?s1) \<and> row_count_ok ?s1 q
            \<and> (\<forall>p' \<in> set xs. q \<noteq> p' \<and> priority (part_at ?s1 p') \<le> priority (part_at ?s1 q))"
    proof (cases "q = p")
      case True
      then show ?thesis using lp len cnt(1) d1(2) hd pr Cons.prems(4) by auto
    next
      case False
      then have qD: "q \<in> D" using q by simp
      then have lq: "q < length (gs_part_list s)" and cq: "row_count_ok s q"
        and oq: "\<forall>p' \<in> set (p # xs). q \<noteq> p' \<and> priority (part_at s p') \<le> priority (part_at s q)"
        using Cons.prems(6) by auto
      have "row_count_ok ?s1 q"
        by (rule other_count_kept[OF cnt(2) Cons.prems(2) lp lq False _ cq]) (use oq in simp)
      then show ?thesis using lq len oq pr Cons.prems(4) by auto
    qed
  qed
  from Cons.IH[OF g1 w1 d1(1) v1 so1 D1] show ?case by simp
qed

lemma jobs_wf_sort:
  assumes "sort_partitions s = Inr s1" "jobs_wf s"
  shows "jobs_wf s1"
  using assms(2) by (subst sort_partitions_Inr[OF assms(1)]) (simp add: jobs_wf_def)

lemma part_at_sort:
  assumes "sort_partitions s = Inr s1"
  shows "part_at s1 = part_at s"
  by (rule ext) (simp add: part_at_def sort_partitions_parts[OF assms])

lemma update_all_active_rows_count:
  assumes "gs_inv s" "jobs_wf s" "update_all_active_rows env s = Inr r"
  shows "gs_inv r \<and> jobs_wf r \<and> (\<forall>q < length (gs_part_list r). row_count_ok r q)"
proof -
  obtain s1 where s1: "sort_partitions s = Inr s1"
    and r: "r = fold (\<lambda>p. update_active_row env p True) (gs_part_sorted s1) s1"
    using assms(3) by (auto simp: update_all_active_rows_def split: sum.splits)
  have g1: "gs_inv s1" by (rule gs_inv_sort[OF assms(1) s1])
  have w1: "jobs_wf s1" by (rule jobs_wf_sort[OF s1 assms(2)])
  have pl: "gs_part_list s1 = gs_part_list s" by (rule sort_partitions_parts[OF s1])
  have so: "sorted_ok s" using assms(1) by (simp add: gs_inv_def)
  note ss = sort_partitions_sorted[OF so s1]
  have ms: "mset (gs_part_sorted s1) = mset [0..<length (gs_part_list s1)]" using ss pl by simp
  have d: "distinct (gs_part_sorted s1)" using ms by (metis distinct_upt mset_eq_imp_distinct_iff)
  have st: "set (gs_part_sorted s1) = {0..<length (gs_part_list s1)}"
    using mset_eq_setD[OF ms] by simp
  have v: "\<forall>p \<in> set (gs_part_sorted s1). p < length (gs_part_list s1)" using st by simp
  have sw: "sorted_wrt (\<lambda>p q. priority (part_at s1 q) \<le> priority (part_at s1 p)) (gs_part_sorted s1)"
    using ss unfolding prio_desc_def part_at_def pl by simp
  have "gs_inv r \<and> jobs_wf r \<and> (\<forall>q \<in> {} \<union> set (gs_part_sorted s1). row_count_ok r q)"
    unfolding r by (rule rebuild_fold_count[OF g1 w1 d v sw]) simp
  moreover have "length (gs_part_list r) = length (gs_part_list s1)"
    using update_all_active_rows_step[OF assms(1) s1, of env] same_jobs_length[of s1 r]
    unfolding r by (simp add: inv_step_def)
  ultimately show ?thesis using st by simp
qed

subsection \<open>The cycle of a partition\<close>

lemma cycle_reorder_unseated:
  assumes "cycle_reorder i jl h = (jl', h')"
    and "\<forall>k < i. k < length jl \<longrightarrow> row_state (the (h (jl ! k))) \<noteq> GS_ACTIVE
                                   \<and> row_state (the (h (jl ! k))) \<noteq> GS_FILLER"
  shows "\<forall>a \<in> set jl'. row_state (the (h' a)) \<noteq> GS_ACTIVE \<and> row_state (the (h' a)) \<noteq> GS_FILLER"
  using assms
proof (induction i jl h arbitrary: jl' h' rule: cycle_reorder.induct)
  case (1 i jl h)
  show ?case
  proof (cases "i < length jl")
    case False
    then have e: "jl' = jl" "h' = h" using "1.prems"(1) by (simp_all add: cycle_reorder.simps[of i jl h])
    show ?thesis unfolding e using "1.prems"(2) False by (auto simp: in_set_conv_nth)
  next
    case True
    note i = True
    show ?thesis
    proof (cases "row_state (the (h (jl ! i))) = GS_ACTIVE")
      case True
      let ?jl = "take i jl @ drop (Suc i) jl @ [jl ! i]"
      let ?h = "h(jl ! i \<mapsto> (the (h (jl ! i)))\<lparr>row_state := GS_NO_ACTIVE\<rparr>)"
      have c: "cycle_reorder i ?jl ?h = (jl', h')"
        using "1.prems"(1) i True by (simp add: cycle_reorder.simps[of i jl h])
      have pre: "\<forall>k < i. k < length ?jl \<longrightarrow> row_state (the (?h (?jl ! k))) \<noteq> GS_ACTIVE
                                   \<and> row_state (the (?h (?jl ! k))) \<noteq> GS_FILLER"
      proof (intro allI impI)
        fix k assume k: "k < i" "k < length ?jl"
        have "?jl ! k = jl ! k" using k i by (simp add: nth_append)
        then show "row_state (the (?h (?jl ! k))) \<noteq> GS_ACTIVE \<and> row_state (the (?h (?jl ! k))) \<noteq> GS_FILLER"
          using "1.prems"(2) k i by auto
      qed
      from "1.IH"(1)[OF i True c pre] show ?thesis .
    next
      case False
      let ?h = "if row_state (the (h (jl ! i))) = GS_FILLER
                    then h(jl ! i \<mapsto> (the (h (jl ! i)))\<lparr>row_state := GS_NO_ACTIVE\<rparr>)
                    else h"
      have c: "cycle_reorder (Suc i) jl ?h = (jl', h')"
        using "1.prems"(1) i False by (simp add: cycle_reorder.simps[of i jl h])
      have pre: "\<forall>k < Suc i. k < length jl \<longrightarrow> row_state (the (?h (jl ! k))) \<noteq> GS_ACTIVE
                                   \<and> row_state (the (?h (jl ! k))) \<noteq> GS_FILLER"
      proof (intro allI impI)
        fix k assume k: "k < Suc i" "k < length jl"
        show "row_state (the (?h (jl ! k))) \<noteq> GS_ACTIVE \<and> row_state (the (?h (jl ! k))) \<noteq> GS_FILLER"
        proof (cases "k = i")
          case True
          then show ?thesis using False by auto
        next
          case nk: False
          then have "k < i" using k by simp
          then show ?thesis using "1.prems"(2) k by auto
        qed
      qed
      from "1.IH"(2)[OF i False c pre] show ?thesis .
    qed
  qed
qed

lemma count_inv_frame:
  assumes "count_inv p JL s" "inv_step s s'" "row_frame p s s'"
    and "jobs_active (part_at s' p) = jobs_active (part_at s p)"
    and "\<And>b. row_state (job_at s' b) = row_state (job_at s b)"
  shows "count_inv p JL s'"
proof -
  have l: "p < length (gs_part_list s)" using assms(1) by (simp add: count_inv_def)
  have "seated s' = seated s" by (rule ext) (simp add: seated_def assms(5))
  then have "row_count_ok s' p"
    using assms(1,4) row_frame_job_list[OF assms(3) l] row_frame_shadow[OF assms(3) l]
    by (simp add: count_inv_def row_count_ok_def)
  then show ?thesis
    using assms(1) inv_step_gs[OF assms(2)] row_frame_jobs_wf[OF assms(3)] row_frame_length[OF assms(3)]
      row_frame_job_list[OF assms(3) l]
    by (simp add: count_inv_def)
qed

lemma suspend_not_active_count:
  assumes "count_inv p JL s" "a \<in> set JL"
  shows "count_inv p JL (suspend_not_active env a s)"
proof (cases "row_state (job_at s a) = GS_NO_ACTIVE \<and> sig_state (job_at s a) = GS_RESUME")
  case False
  then have "suspend_not_active env a s = s" by (auto simp: suspend_not_active_def)
  then show ?thesis using assms(1) by simp
next
  case True
  have g: "gs_inv s" "jobs_wf s" "p < length (gs_part_list s)" "a \<in> set (job_list (part_at s p))"
    using assms by (simp_all add: count_inv_def)
  let ?s1 = "upd_job a (\<lambda>j. j\<lparr>sig_state := GS_SUSPEND\<rparr>) (signal_job env (job_id (job_at s a)) GS_SUSPEND s)"
  have e: "suspend_not_active env a s = clear_shadow a ?s1" using True by (simp add: suspend_not_active_def)
  have f1: "row_frame p s ?s1" using g(4) by (auto simp: row_frame_def job_at_upd_job)
  have "row_frame p ?s1 (clear_shadow a ?s1)" by (rule row_frame_clear) (use g in simp_all)
  with f1 have f2: "row_frame p s (clear_shadow a ?s1)" using g(3) by (rule row_frame_trans)
  show ?thesis unfolding e
  proof (rule count_inv_frame[OF assms(1) _ f2])
    show "inv_step s (clear_shadow a ?s1)" using suspend_not_active_step[OF g(1), of env a] unfolding e .
    show "jobs_active (part_at (clear_shadow a ?s1) p) = jobs_active (part_at s p)"
      using g(3) by (simp add: active_clear_shadow)
    show "row_state (job_at (clear_shadow a ?s1) b) = row_state (job_at s b)" for b
      by (simp add: job_at_upd_job)
  qed
qed

lemma resume_active_count:
  assumes "count_inv p JL s" "a \<in> set JL"
  shows "count_inv p JL (resume_active env p a s)"
proof (cases "row_state (job_at s a) = GS_ACTIVE \<and> sig_state (job_at s a) = GS_SUSPEND")
  case False
  then have "resume_active env p a s = s" by (auto simp: resume_active_def)
  then show ?thesis using assms(1) by simp
next
  case True
  have g: "gs_inv s" "jobs_wf s" "p < length (gs_part_list s)" "a \<in> set (job_list (part_at s p))"
    using assms by (simp_all add: count_inv_def)
  let ?s1 = "upd_job a (\<lambda>j. j\<lparr>sig_state := GS_RESUME\<rparr>) (signal_job env (job_id (job_at s a)) GS_RESUME s)"
  have e: "resume_active env p a s = cast_shadow a (priority (part_at s p)) ?s1"
    using True by (simp add: resume_active_def)
  have f1: "row_frame p s ?s1" using g(4) by (auto simp: row_frame_def job_at_upd_job)
  have "row_frame p ?s1 (cast_shadow a (priority (part_at ?s1 p)) ?s1)" by (rule row_frame_cast)
  then have "row_frame p ?s1 (cast_shadow a (priority (part_at s p)) ?s1)" by simp
  with f1 have f2: "row_frame p s (cast_shadow a (priority (part_at s p)) ?s1)" using g(3) by (rule row_frame_trans)
  show ?thesis unfolding e
  proof (rule count_inv_frame[OF assms(1) _ f2])
    show "inv_step s (cast_shadow a (priority (part_at s p)) ?s1)"
      using resume_active_step[OF g(1,3,4), of env] unfolding e .
    show "jobs_active (part_at (cast_shadow a (priority (part_at s p)) ?s1) p) = jobs_active (part_at s p)"
      using g(3) by (simp add: active_cast_shadow)
    show "row_state (job_at (cast_shadow a (priority (part_at s p)) ?s1) b) = row_state (job_at s b)" for b
      by (simp add: job_at_upd_job)
  qed
qed

lemma count_inv_fold:
  assumes "\<And>a s. a \<in> set JL \<Longrightarrow> count_inv p JL s \<Longrightarrow> count_inv p JL (f a s)"
    and "count_inv p JL s" "set xs \<subseteq> set JL"
  shows "count_inv p JL (fold f xs s)"
  using assms(2,3) by (induction xs arbitrary: s) (simp_all add: assms(1))

lemma build_fold_count:
  assumes "count_inv p JL s" "set xs \<subseteq> set JL" "distinct xs" "\<forall>a \<in> set xs. \<not> seated s a"
  shows "count_inv p JL (fold (\<lambda>a st. if job_fits_in_active_row st (job_at st a) (part_at st p)
                                then upd_job a (\<lambda>j. j\<lparr>row_state := GS_ACTIVE\<rparr>)
                                       (add_job_to_active a p st)
                                else st) xs s)"
  using assms
proof (induction xs arbitrary: s)
  case Nil
  then show ?case by simp
next
  case (Cons a xs)
  let ?g = "\<lambda>a st. if job_fits_in_active_row st (job_at st a) (part_at st p)
                                then upd_job a (\<lambda>j. j\<lparr>row_state := GS_ACTIVE\<rparr>)
                                       (add_job_to_active a p st)
                                else st"
  have g: "gs_inv s" "jobs_wf s" "p < length (gs_part_list s)" "job_list (part_at s p) = JL" "row_count_ok s p"
    using Cons.prems(1) by (simp_all add: count_inv_def)
  have a: "a \<in> set (job_list (part_at s p))" "a \<notin> set xs" "\<not> seated s a"
    using Cons.prems(2,3,4) g(4) by simp_all
  have d: "distinct JL" using jobs_wf_distinct[OF g(2,3)] g(4) by simp
  have "count_inv p JL (?g a s) \<and> (\<forall>b \<in> set xs. \<not> seated (?g a s) b)"
  proof (cases "job_fits_in_active_row s (job_at s a) (part_at s p)")
    case False
    then show ?thesis using Cons.prems(1,4) by simp
  next
    case True
    let ?s1 = "upd_job a (\<lambda>j. j\<lparr>row_state := GS_ACTIVE\<rparr>) (add_job_to_active a p s)"
    have e: "?g a s = ?s1" using True by simp
    have f: "row_frame p s ?s1"
      by (rule row_frame_trans[OF row_frame_add_active[of p s a] row_frame_upd_job g(3)]) (use a(1) in simp)
    have gi: "gs_inv ?s1" using g(1) by (simp add: gs_inv_add_active)
    have ja: "jobs_active (part_at ?s1 p) = Suc (jobs_active (part_at s p))"
      using g(3) by (simp add: active_add_active)
    have "length (filter (seated ?s1) JL) = Suc (length (filter (seated s) JL))"
      by (rule filter_flip[OF d]) (use a g(4) in \<open>simp_all add: seated_def job_at_upd_job\<close>)
    then have "row_count_ok ?s1 p"
      using g(5) ja row_frame_job_list[OF f g(3)] row_frame_shadow[OF f g(3)] g(4)
      by (simp add: row_count_ok_def)
    then have "count_inv p JL ?s1"
      using gi row_frame_jobs_wf[OF f g(2)] row_frame_length[OF f] row_frame_job_list[OF f g(3)] g(3,4)
      by (simp add: count_inv_def)
    moreover have "\<forall>b \<in> set xs. \<not> seated ?s1 b"
      using Cons.prems(4) a(2) by (auto simp: seated_def job_at_upd_job)
    ultimately show ?thesis unfolding e by simp
  qed
  then show ?case using Cons.IH[of "?g a s"] Cons.prems(2,3) by simp
qed

lemma build_active_row_count:
  assumes "gs_inv s" "jobs_wf s" "p < length (gs_part_list s)" "job_list (part_at s p) \<noteq> []"
    and "\<forall>a \<in> set (job_list (part_at s p)). \<not> seated s a"
  shows "count_inv p (job_list (part_at s p)) (build_active_row p s)"
proof -
  define JL where "JL = job_list (part_at s p)"
  define s0 where "s0 = upd_part p (\<lambda>q. q\<lparr>jobs_active := 0\<rparr>) s"
  define s1 where "s1 = fold (\<lambda>a. add_job_to_active a p) (shadow (part_at s0 p)) s0"
  have f0: "row_frame p s s0" unfolding s0_def by (rule row_frame_reset)
  have g0: "gs_inv s0" unfolding s0_def by (rule gs_inv_upd_part_active[OF assms(1)]) simp_all
  have l0: "p < length (gs_part_list s0)" using row_frame_length[OF f0] assms(3) by simp
  have c0: "jobs_active (part_at s0 p) = 0" unfolding s0_def using assms(3) by (simp add: part_at_upd_part)
  have jl0: "job_list (part_at s0 p) = JL" unfolding JL_def by (rule row_frame_job_list[OF f0 assms(3)])
  note ps = phase_shadows[OF l0, of "shadow (part_at s0 p)", folded s1_def]
  have f01: "row_frame p s0 s1" by (rule ps[THEN conjunct1])
  have f1: "row_frame p s s1" by (rule row_frame_trans[OF f0 f01 assms(3)])
  have g1: "gs_inv s1" unfolding s1_def by (rule gs_inv_fold_add[OF g0])
  have w1: "jobs_wf s1" by (rule row_frame_jobs_wf[OF f1 assms(2)])
  have l1: "p < length (gs_part_list s1)" using row_frame_length[OF f1] assms(3) by simp
  have jl1: "job_list (part_at s1 p) = JL" unfolding JL_def by (rule row_frame_job_list[OF f1 assms(3)])
  have sh1: "shadow (part_at s1 p) = shadow (part_at s0 p)" by (rule row_frame_shadow[OF f01 l0])
  have c1: "jobs_active (part_at s1 p) = length (shadow (part_at s1 p))"
    using ps[THEN conjunct2] c0 sh1 by simp
  have un1: "\<forall>a \<in> set JL. \<not> seated s1 a"
  proof
    fix a assume a: "a \<in> set JL"
    have "job_at s1 a = job_at s0 a"
    proof -
      have "job_at (fold (\<lambda>a. add_job_to_active a p) xs t) = job_at t" for xs t
        by (induction xs arbitrary: t) simp_all
      then show ?thesis unfolding s1_def by simp
    qed
    then have "job_at s1 a = job_at s a" unfolding s0_def by simp
    then show "\<not> seated s1 a" using assms(5) a unfolding JL_def seated_def by simp
  qed
  then have "filter (seated s1) JL = []" by (simp add: filter_empty_conv)
  then have r1: "row_count_ok s1 p" unfolding row_count_ok_def jl1 using c1 by simp
  have ci: "count_inv p JL s1" using g1 w1 l1 jl1 r1 by (simp add: count_inv_def)
  have d: "distinct JL" unfolding JL_def by (rule jobs_wf_distinct[OF assms(2,3)])
  have sub: "set JL \<subseteq> set JL" by simp
  note bf = build_fold_count[OF ci sub d un1]
  have ne: "job_list (part_at s0 p) \<noteq> []" using jl0 assms(4) JL_def by simp
  have e: "build_active_row p s = fold (\<lambda>a st. if job_fits_in_active_row st (job_at st a) (part_at st p)
                                then upd_job a (\<lambda>j. j\<lparr>row_state := GS_ACTIVE\<rparr>)
                                       (add_job_to_active a p st)
                                else st) JL s1"
    unfolding build_active_row_def Let_def s0_def[symmetric] using ne
    by (simp add: s1_def[symmetric] jl1)
  show ?thesis unfolding e JL_def[symmetric] by (rule bf)
qed

lemma mset_concat_update:
  assumes "p < length ps" "mset (f (g (ps ! p))) = mset (f (ps ! p))"
  shows "mset (concat (map f (ps[p := g (ps ! p)]))) = mset (concat (map f ps))"
proof -
  have "map (mset \<circ> f) (ps[p := g (ps ! p)]) = (map (mset \<circ> f) ps)[p := (mset \<circ> f) (ps ! p)]"
    using assms(2) by (simp add: map_update)
  also have "\<dots> = map (mset \<circ> f) ps" by (rule map_update_same)
  finally show ?thesis by (simp add: mset_concat)
qed

lemma cycle_job_list_count:
  assumes "gs_inv s" "jobs_wf s" "p < length (gs_part_list s)" "job_list (part_at s p) \<noteq> []"
  shows "row_count_ok (cycle_job_list env p s) p"
    and "jobs_wf (cycle_job_list env p s)"
proof -
  obtain jl h where c: "cycle_reorder 0 (job_list (part_at s p)) (heap s) = (jl, h)"
    by (cases "cycle_reorder 0 (job_list (part_at s p)) (heap s)") auto
  have mm: "mset jl = mset (job_list (part_at s p))" by (rule cycle_reorder_mset[OF c])
  have ms: "set jl = set (job_list (part_at s p))" using mm by (rule mset_eq_setD)
  have ne: "jl \<noteq> []" using mm assms(4) by auto
  define s1 where "s1 = upd_part p (\<lambda>q. q\<lparr>job_list := jl\<rparr>) (s\<lparr>heap := h\<rparr>)"
  have w1: "shadows_wf (gs_part_list s1)"
    unfolding s1_def using assms(1) ms
    by (simp add: gs_inv_def) (rule shadows_wf_upd, simp_all add: part_le_def part_at_def)
  have g1: "gs_inv s1"
    unfolding gs_inv_def using w1 assms(1)
    by (simp add: s1_def gs_inv_def sorted_ok_def)
  have l1: "p < length (gs_part_list s1)" using assms(3) by (simp add: s1_def)
  have jl1: "job_list (part_at s1 p) = jl" using assms(3) by (simp add: s1_def part_at_upd_part)
  have mc: "mset (concat (map job_list (gs_part_list s1))) = mset (concat (map job_list (gs_part_list s)))"
    unfolding s1_def using mset_concat_update[OF assms(3), of job_list "\<lambda>q. q\<lparr>job_list := jl\<rparr>"] mm
    by (simp add: part_at_def)
  have jw1: "jobs_wf s1"
    using assms(2) mset_eq_imp_distinct_iff[OF mc] mset_eq_setD[OF mc]
    unfolding jobs_wf_def list_all_iff by (simp add: s1_def)
  have un: "\<forall>a \<in> set (job_list (part_at s1 p)). \<not> seated s1 a"
    using cycle_reorder_unseated[OF c] unfolding jl1
    by (simp add: seated_def job_at_def s1_def upd_part_def)
  note b = build_active_row_count[OF g1 jw1 l1 _ un, unfolded jl1, OF ne]
  define s2 where "s2 = build_active_row p s1"
  define s3 where "s3 = fold (suspend_not_active env) (job_list (part_at s2 p)) s2"
  have c2: "count_inv p jl s2" unfolding s2_def by (rule b)
  have jl2: "job_list (part_at s2 p) = jl" using c2 by (simp add: count_inv_def)
  have c3: "count_inv p jl s3" unfolding s3_def jl2
    by (rule count_inv_fold[OF _ c2]) (simp_all add: suspend_not_active_count)
  have jl3: "job_list (part_at s3 p) = jl" using c3 by (simp add: count_inv_def)
  have c4: "count_inv p jl (fold (resume_active env p) (job_list (part_at s3 p)) s3)" unfolding jl3
    by (rule count_inv_fold[OF _ c3]) (simp_all add: resume_active_count)
  have e: "cycle_job_list env p s = fold (resume_active env p) (job_list (part_at s3 p)) s3"
    unfolding cycle_job_list_def c Let_def s3_def s2_def s1_def by simp
  show "row_count_ok (cycle_job_list env p s) p" unfolding e using c4 by (simp add: count_inv_def)
  show "jobs_wf (cycle_job_list env p s)" unfolding e using c4 by (simp add: count_inv_def)
qed

subsection \<open>The job pointers\<close>

lemma jobs_rng_0: "jobs_rng 0 s = jobs_wf s"
  by (simp add: jobs_rng_def list_all_iff)

lemma jobs_rng_wf: "jobs_rng n0 s \<Longrightarrow> jobs_wf s"
  by (simp add: jobs_rng_def)

lemma concat_update_split:
  assumes "p < length xss"
  shows "concat (xss[p := ys]) = concat (take p xss) @ ys @ concat (drop (Suc p) xss)"
    and "concat xss = concat (take p xss) @ xss ! p @ concat (drop (Suc p) xss)"
proof -
  show "concat (xss[p := ys]) = concat (take p xss) @ ys @ concat (drop (Suc p) xss)"
    using assms by (simp add: upd_conv_take_nth_drop)
  have "concat xss = concat (take p xss @ xss ! p # drop (Suc p) xss)"
    using assms by (simp only: id_take_nth_drop[symmetric])
  then show "concat xss = concat (take p xss) @ xss ! p @ concat (drop (Suc p) xss)" by simp
qed

lemma mset_concat_sub:
  assumes "p < length xss" "mset ys \<subseteq># mset (xss ! p)"
  shows "mset (concat (xss[p := ys])) \<subseteq># mset (concat xss)"
proof -
  note a = concat_update_split(1)[OF assms(1), of ys]
  note b = concat_update_split(2)[OF assms(1)]
  have "mset (concat (take p xss) @ ys @ concat (drop (Suc p) xss))
      \<subseteq># mset (concat (take p xss) @ xss ! p @ concat (drop (Suc p) xss))"
    using assms(2) by simp
  then show ?thesis using a b by simp
qed

lemma mset_concat_add:
  assumes "p < length xss"
  shows "mset (concat (xss[p := xss ! p @ [a]])) = mset (concat xss) + {#a#}"
proof -
  note a = concat_update_split(1)[OF assms(1), of "xss ! p @ [a]"]
  note b = concat_update_split(2)[OF assms(1)]
  have "mset (concat (take p xss) @ (xss ! p @ [a]) @ concat (drop (Suc p) xss))
      = mset (concat (take p xss) @ xss ! p @ concat (drop (Suc p) xss)) + {#a#}"
    by simp
  then show ?thesis using a b by simp
qed

lemma count_le1_distinct: "(\<And>a. count (mset xs) a \<le> 1) \<Longrightarrow> distinct xs"
proof (induction xs)
  case Nil
  then show ?case by simp
next
  case (Cons x xs)
  have c: "count (mset xs) a \<le> 1" for a
  proof -
    have "count (mset xs) a \<le> count (mset (x # xs)) a" by simp
    then show ?thesis using Cons.prems[of a] by (rule order_trans)
  qed
  have "count (mset xs) x = 0" using Cons.prems[of x] by simp
  then have "x \<notin> set xs" by simp
  then show ?case using Cons.IH[OF c] by simp
qed

lemma distinct_mset_sub: 
  assumes "mset xs \<subseteq># mset ys" "distinct ys" shows "distinct xs"
proof (rule count_le1_distinct)
  fix a
  have "count (mset ys) a \<le> 1" using assms(2) by (simp add: distinct_count_atmost_1)
  then show "count (mset xs) a \<le> 1" using mset_subset_eq_count[OF assms(1), of a] by simp
qed

lemma mset_take_drop_Suc: "mset (take i xs @ drop (Suc i) xs) \<subseteq># mset xs"
proof -
  have "mset (drop (Suc i) xs) \<subseteq># mset (drop i xs)"
  proof (cases "i < length xs")
    case True
    then have "drop i xs = xs ! i # drop (Suc i) xs" by (simp add: Cons_nth_drop_Suc)
    then show ?thesis by simp
  next
    case False
    then show ?thesis by simp
  qed
  then have "mset (take i xs) + mset (drop (Suc i) xs) \<subseteq># mset (take i xs) + mset (drop i xs)"
    by simp
  also have "\<dots> = mset xs" by (metis append_take_drop_id mset_append)
  finally show ?thesis by simp
qed

lemma jobs_rng_same:
  assumes "jobs_rng n0 s" "map job_list (gs_part_list s') = map job_list (gs_part_list s)"
    "next_job_ptr s' = next_job_ptr s"
  shows "jobs_rng n0 s'"
  using assms by (simp add: jobs_rng_def jobs_wf_def)

lemma jobs_rng_sub:
  assumes "jobs_rng n0 s"
    and "mset (concat (map job_list (gs_part_list s'))) \<subseteq># mset (concat (map job_list (gs_part_list s)))"
    and "next_job_ptr s' = next_job_ptr s"
  shows "jobs_rng n0 s'"
proof -
  let ?c = "concat (map job_list (gs_part_list s))"
  let ?c' = "concat (map job_list (gs_part_list s'))"
  have d: "distinct ?c" using assms(1) by (simp add: jobs_rng_def jobs_wf_def)
  have d': "distinct ?c'" by (rule distinct_mset_sub[OF assms(2) d])
  have "set ?c' \<subseteq> set ?c" using set_mset_mono[OF assms(2)] by simp
  then show ?thesis using assms(1,3) d' unfolding jobs_rng_def jobs_wf_def list_all_iff by auto
qed

lemma jobs_rng_add:
  assumes "jobs_rng n0 s"
    and "mset (concat (map job_list (gs_part_list s')))
          = mset (concat (map job_list (gs_part_list s))) + {#next_job_ptr s#}"
    and "next_job_ptr s' = Suc (next_job_ptr s)"
  shows "jobs_rng n0 s'"
proof -
  let ?c = "concat (map job_list (gs_part_list s))"
  let ?c' = "concat (map job_list (gs_part_list s'))"
  have a: "distinct ?c" "\<forall>a \<in> set ?c. a < next_job_ptr s" "\<forall>a \<in> set ?c. n0 \<le> a" "n0 \<le> next_job_ptr s"
    using assms(1) by (simp_all add: jobs_rng_def jobs_wf_def list_all_iff)
  have m: "mset ?c' = mset (next_job_ptr s # ?c)" using assms(2) by simp
  have "distinct (next_job_ptr s # ?c)" using a(1,2) by auto
  then have d': "distinct ?c'" using mset_eq_imp_distinct_iff[OF m] by simp
  have st: "set ?c' = insert (next_job_ptr s) (set ?c)" using mset_eq_setD[OF m] by simp
  have b1: "\<forall>a \<in> set ?c'. a < next_job_ptr s'"
  proof
    fix b assume "b \<in> set ?c'"
    then have "b = next_job_ptr s \<or> b \<in> set ?c" unfolding st by simp
    then show "b < next_job_ptr s'" unfolding assms(3) using a(2) by (auto simp: less_Suc_eq)
  qed
  have b2: "\<forall>a \<in> set ?c'. n0 \<le> a"
  proof
    fix b assume "b \<in> set ?c'"
    then have "b = next_job_ptr s \<or> b \<in> set ?c" unfolding st by simp
    then show "n0 \<le> b" using a(3,4) by auto
  qed
  have b3: "n0 \<le> next_job_ptr s'" unfolding assms(3) using a(4) by simp
  show ?thesis unfolding jobs_rng_def jobs_wf_def list_all_iff using d' b1 b2 b3 by (intro conjI)
qed

lemma row_frame_jobs_rng: "row_frame p s s' \<Longrightarrow> jobs_rng n0 s \<Longrightarrow> jobs_rng n0 s'"
  by (rule jobs_rng_same) (simp_all add: row_frame_def same_jobs_def)

lemma remove_job_from_part_lists:
  assumes "\<forall>p. popt = Some p \<longrightarrow> p < length (gs_part_list s)"
  shows "next_job_ptr (remove_job_from_part env jid popt s) = next_job_ptr s
       \<and> mset (concat (map job_list (gs_part_list (remove_job_from_part env jid popt s))))
           \<subseteq># mset (concat (map job_list (gs_part_list s)))"
proof (cases "jid = 0 \<or> popt = None")
  case True
  then show ?thesis by (auto simp: remove_job_from_part_def)
next
  case False
  then obtain p where p: "popt = Some p" "p < length (gs_part_list s)" "jid \<noteq> 0" using assms by auto
  show ?thesis
  proof (cases "find_job_index s p jid")
    case None
    then show ?thesis using p by (simp add: remove_job_from_part_def)
  next
    case (Some i)
    let ?xss = "map job_list (gs_part_list s)"
    have e: "map job_list (gs_part_list (remove_job_from_part env jid popt s))
        = ?xss[p := take i (?xss ! p) @ drop (Suc i) (?xss ! p)]"
      using p Some unfolding remove_job_from_part_def Let_def
      by (simp add: map_update comp_def)
    have n: "next_job_ptr (remove_job_from_part env jid popt s) = next_job_ptr s"
      using p Some unfolding remove_job_from_part_def Let_def by simp
    have "mset (take i (?xss ! p) @ drop (Suc i) (?xss ! p)) \<subseteq># mset (?xss ! p)"
      by (rule mset_take_drop_Suc)
    then show ?thesis unfolding e n using mset_concat_sub[of p ?xss] p(2) by simp
  qed
qed

lemma remove_job_from_part_rng:
  assumes "jobs_rng n0 s" "\<forall>p. popt = Some p \<longrightarrow> p < length (gs_part_list s)"
  shows "jobs_rng n0 (remove_job_from_part env jid popt s)"
  using remove_job_from_part_lists[OF assms(2), of env jid] jobs_rng_sub[OF assms(1)] by blast

lemma add_job_to_part_rng:
  assumes "gs_inv s" "jobs_rng n0 s" "p < length (gs_part_list s)"
    and "add_job_to_part env p jid bm s = Inr (st, r)"
  shows "jobs_rng n0 r"
proof -
  define s1 where "s1 = (case find_job_index s p jid of None \<Rightarrow> s
      | Some i \<Rightarrow> update_active_row env p False (remove_job_from_part env jid (Some p) s))"
  have r1: "inv_len s s1 \<and> jobs_rng n0 s1"
  proof (cases "find_job_index s p jid")
    case None
    then show ?thesis using assms(1,2) by (simp add: s1_def inv_len_refl)
  next
    case (Some i)
    let ?s0 = "remove_job_from_part env jid (Some p) s"
    have a: "inv_len s ?s0"
      by (rule remove_job_from_part_len[OF assms(1)]) (simp add: assms(3))
    have w0: "jobs_rng n0 ?s0" by (rule remove_job_from_part_rng[OF assms(2)]) (simp add: assms(3))
    have g0: "gs_inv ?s0" using a by (simp add: inv_len_def)
    have l0: "p < length (gs_part_list ?s0)" using inv_len_length[OF a] assms(3) by simp
    have "inv_len ?s0 (update_active_row env p False ?s0)"
      by (rule inv_step_len'[OF update_active_row_step[OF g0 l0]])
    moreover have "jobs_rng n0 (update_active_row env p False ?s0)"
      by (rule row_frame_jobs_rng[OF update_active_row_count(2)[OF g0 jobs_rng_wf[OF w0] l0] w0])
    ultimately show ?thesis using a Some by (simp add: s1_def inv_len_trans)
  qed
  obtain rm where rm: "get_resmap env s1 bm jid = Inr rm" and j0: "jid \<noteq> 0"
    using assms(4) unfolding add_job_to_part_def s1_def[symmetric] Let_def
    by (auto split: if_splits sum.splits)
  define a where "a = next_job_ptr s1"
  define j where "j = \<lparr>job_id = jid, sig_state = GS_RESUME, row_state = GS_NO_ACTIVE, resmap = rm,
                        alloc_cpus = (if gr_type s1 = GS_CORE \<or> gr_type s1 = GS_CPU
                                      then Some (load_alloc_cpus env s1 jid rm bm)
                                      else None)\<rparr>"
  define s3 where "s3 = upd_part p (\<lambda>q. q\<lparr>job_list := job_list q @ [a]\<rparr>) (s1\<lparr>heap := (heap s1)(a \<mapsto> j), next_job_ptr := Suc a\<rparr>)"
  have l1: "p < length (gs_part_list s1)" using inv_len_length[OF r1[THEN conjunct1]] assms(3) by simp
  have e3: "map job_list (gs_part_list s3)
      = (map job_list (gs_part_list s1))[p := map job_list (gs_part_list s1) ! p @ [a]]"
    unfolding s3_def using l1 by (simp add: map_update)
  have "mset (concat (map job_list (gs_part_list s3)))
      = mset (concat (map job_list (gs_part_list s1))) + {#next_job_ptr s1#}"
    unfolding e3 a_def using mset_concat_add[of p "map job_list (gs_part_list s1)"] l1 by simp
  moreover have "next_job_ptr s3 = Suc (next_job_ptr s1)" by (simp add: s3_def a_def)
  ultimately have w3: "jobs_rng n0 s3" using jobs_rng_add[OF r1[THEN conjunct2]] by blast
  have "(\<exists>f. r = cast_shadow a (priority (part_at (upd_job a f (add_job_to_active a p s3)) p))
                  (upd_job a f (add_job_to_active a p s3)))
      \<or> (\<exists>f jid' sig. r = upd_job a f (signal_job env jid' sig s3))"
    using assms(4) j0 rm
    unfolding add_job_to_part_def s1_def[symmetric] Let_def
    unfolding a_def j_def s3_def
    by (auto split: if_splits)
  then have "same_jobs s3 r \<and> next_job_ptr r = next_job_ptr s3" by auto
  then show ?thesis using jobs_rng_same[OF w3, of r] by (simp add: same_jobs_def)
qed

lemma scan_job_rng:
  assumes "gs_inv s" "jobs_rng n0 s" "scan_job env jr s = Inr r"
  shows "jobs_rng n0 r"
proof (cases "find_gs_part s (jr_partition jr)")
  case None
  then show ?thesis using assms by (auto simp: scan_job_def split: if_splits)
next
  case (Some p)
  note l = find_gs_part_Some[OF Some]
  have "r = s
      \<or> (\<exists>st s1. (s1 = s \<or> s1 = signal_job env (jr_job_id jr) GS_RESUME s)
            \<and> add_job_to_part env p (jr_job_id jr) (jr_node_bitmap jr) s1 = Inr (st, r))
      \<or> r = remove_job_from_part env (jr_job_id jr) (Some p) s"
    using assms(3) Some unfolding scan_job_def Let_def
    by (auto split: if_splits option.splits sum.splits)
  then consider (same) "r = s"
    | (add) st s1 where "s1 = s \<or> s1 = signal_job env (jr_job_id jr) GS_RESUME s"
        "add_job_to_part env p (jr_job_id jr) (jr_node_bitmap jr) s1 = Inr (st, r)"
    | (rem) "r = remove_job_from_part env (jr_job_id jr) (Some p) s"
    by blast
  then show ?thesis
  proof cases
    case same
    then show ?thesis using assms(2) by simp
  next
    case add
    have 1: "gs_inv s1" "jobs_rng n0 s1" "p < length (gs_part_list s1)"
      using assms(1,2) add(1) l by (auto intro: jobs_rng_same)
    show ?thesis by (rule add_job_to_part_rng[OF 1 add(2)])
  next
    case rem
    then show ?thesis using remove_job_from_part_rng[OF assms(2), of "Some p"] l by simp
  qed
qed

lemma efold_wf_rng:
  assumes "\<And>x s' r. x \<in> set xs \<Longrightarrow> wf_rng n0 s' \<Longrightarrow> f x s' = Inr r \<Longrightarrow> wf_rng n0 r"
    and "wf_rng n0 s" "efold f xs s = Inr r"
  shows "wf_rng n0 r"
  using assms
proof (induction xs arbitrary: s)
  case Nil
  then show ?case by simp
next
  case (Cons x xs)
  from Cons.prems(3) obtain s2 where s2: "f x s = Inr s2" "efold f xs s2 = Inr r"
    by (auto split: sum.splits)
  have 2: "wf_rng n0 s2" using Cons.prems(1)[of x s s2] Cons.prems(2) s2(1) by simp
  show ?case
  proof (rule Cons.IH[OF _ 2 s2(2)])
    fix y s' r' assume "y \<in> set xs" "wf_rng n0 s'" "f y s' = Inr r'"
    then show "wf_rng n0 r'" using Cons.prems(1)[of y s' r'] by simp
  qed
qed

lemma scan_job_wf:
  assumes "wf_rng n0 s" "scan_job env jr s = Inr r"
  shows "wf_rng n0 r"
  using assms scan_job_len[of s env jr r] scan_job_rng[of s n0 env jr r]
  by (simp add: wf_rng_def inv_len_def)

subsection \<open>The hooks\<close>

lemma all_rows_ok_iff: "all_rows_ok s = (\<forall>q < length (gs_part_list s). row_count_ok s q)"
  by (auto simp: all_rows_ok_def list_all_iff)

lemma rebuild_fold_rng:
  assumes "gs_inv s" "jobs_rng n0 s" "\<forall>p \<in> set xs. p < length (gs_part_list s)"
  shows "jobs_rng n0 (fold (\<lambda>p. update_active_row env p True) xs s)"
  using assms
proof (induction xs arbitrary: s)
  case Nil
  then show ?case by simp
next
  case (Cons p xs)
  let ?s1 = "update_active_row env p True s"
  have lp: "p < length (gs_part_list s)" using Cons.prems(3) by simp
  note f = update_active_row_count(2)[OF Cons.prems(1) jobs_rng_wf[OF Cons.prems(2)] lp, of env True]
  have g1: "gs_inv ?s1" by (rule inv_step_gs[OF update_active_row_step[OF Cons.prems(1) lp]])
  have w1: "jobs_rng n0 ?s1" by (rule row_frame_jobs_rng[OF f Cons.prems(2)])
  have v1: "\<forall>p \<in> set xs. p < length (gs_part_list ?s1)"
    using Cons.prems(3) row_frame_length[OF f] by simp
  from Cons.IH[OF g1 w1 v1] show ?case by simp
qed

lemma update_all_active_rows_wf:
  assumes "wf_rng n0 s" "update_all_active_rows env s = Inr r"
  shows "wf_rng n0 r \<and> all_rows_ok r"
proof -
  have g: "gs_inv s" "jobs_rng n0 s" using assms(1) by (simp_all add: wf_rng_def)
  obtain s1 where s1: "sort_partitions s = Inr s1"
    and r: "r = fold (\<lambda>p. update_active_row env p True) (gs_part_sorted s1) s1"
    using assms(2) by (auto simp: update_all_active_rows_def split: sum.splits)
  have g1: "gs_inv s1" by (rule gs_inv_sort[OF g(1) s1])
  have w1: "jobs_rng n0 s1"
    using g(2) by (subst sort_partitions_Inr[OF s1]) (simp add: jobs_rng_def jobs_wf_def)
  have v: "\<forall>p \<in> set (gs_part_sorted s1). p < length (gs_part_list s1)"
    using sorted_valid[OF g(1) s1] by blast
  have "jobs_rng n0 r" unfolding r by (rule rebuild_fold_rng[OF g1 w1 v])
  then show ?thesis
    using update_all_active_rows_count[OF g(1) jobs_rng_wf[OF g(2)] assms(2)]
    by (simp add: wf_rng_def all_rows_ok_iff)
qed

lemma remove_job_from_part_wf:
  assumes "wf_rng n0 s" "\<forall>p. popt = Some p \<longrightarrow> p < length (gs_part_list s)"
  shows "wf_rng n0 (remove_job_from_part env jid popt s)"
  using remove_job_from_part_len[OF _ assms(2), of env jid] remove_job_from_part_rng[OF _ assms(2), of n0 env jid]
    assms(1)
  by (simp add: wf_rng_def inv_len_def)

lemma add_job_to_part_wf:
  assumes "wf_rng n0 s" "p < length (gs_part_list s)" "add_job_to_part env p jid bm s = Inr (st, r)"
  shows "wf_rng n0 r"
  using add_job_to_part_len[OF _ assms(2,3)] add_job_to_part_rng[OF _ _ assms(2,3), of n0] assms(1)
  by (simp add: wf_rng_def inv_len_def)

lemma gs_job_fini_count:
  assumes "wf_rng n0 s" "find_gs_part s (jr_partition jr) \<noteq> None"
  shows "\<exists>r. gs_job_fini env jr s = Inr r \<and> wf_rng n0 r \<and> all_rows_ok r"
proof -
  obtain p where p: "find_gs_part s (jr_partition jr) = Some p" using assms(2) by auto
  let ?s1 = "remove_job_from_part env (jr_job_id jr) (Some p) s"
  have w1: "wf_rng n0 ?s1"
    by (rule remove_job_from_part_wf[OF assms(1)]) (simp add: find_gs_part_Some[OF p])
  have "inv_len s ?s1"
    by (rule remove_job_from_part_len) (use assms(1) find_gs_part_Some[OF p] in \<open>simp_all add: wf_rng_def\<close>)
  then have "length (gs_part_list ?s1) = length (gs_part_list s)" by (rule inv_len_length)
  then have ne: "gs_part_list ?s1 \<noteq> []" using find_gs_part_Some[OF p] by auto
  obtain r where r: "update_all_active_rows env ?s1 = Inr r"
    using update_all_active_rows_ok[OF _ ne, of env] w1 by (auto simp: wf_rng_def)
  show ?thesis using update_all_active_rows_wf[OF w1 r] r p by (simp add: gs_job_fini_def)
qed

lemma scan_slurm_job_list_count:
  assumes "wf_rng n0 s" "ctld_job_list env \<noteq> None" "scan_slurm_job_list env s = Inr r"
  shows "wf_rng n0 r \<and> all_rows_ok r"
proof -
  obtain jl where jl: "ctld_job_list env = Some jl" using assms(2) by auto
  obtain s1 where s1: "efold (scan_job env) jl s = Inr s1" and r: "update_all_active_rows env s1 = Inr r"
    using assms(3) jl by (auto simp: scan_slurm_job_list_def split: sum.splits)
  have "wf_rng n0 s1"
    by (rule efold_wf_rng[OF _ assms(1) s1]) (rule scan_job_wf)
  then show ?thesis using r by (rule update_all_active_rows_wf)
qed

lemma gs_job_start_count:
  assumes "wf_rng n0 s" "find_gs_part s (jr_partition jr) = Some p"
    and "add_job_to_part env p (jr_job_id jr) (jr_node_bitmap jr) s = Inr (GS_RESUME, s1)"
    and "gs_job_start env jr s = Inr r"
  shows "wf_rng n0 r \<and> all_rows_ok r"
proof -
  have w1: "wf_rng n0 s1"
    by (rule add_job_to_part_wf[OF assms(1) find_gs_part_Some[OF assms(2)] assms(3)])
  have "update_all_active_rows env s1 = Inr r"
    using assms(2,3,4) by (simp add: gs_job_start_def)
  with w1 show ?thesis by (rule update_all_active_rows_wf)
qed

lemma build_parts_wf: "wf_rng (next_job_ptr s) (build_parts env s)"
proof -
  have c: "concat (map (\<lambda>x. []) xs) = ([] :: nat list)" for xs :: "part_record list"
    by (induction xs) simp_all
  have "jobs_rng (next_job_ptr s) (build_parts env s)"
    unfolding build_parts_def Let_def jobs_rng_def jobs_wf_def
    by (auto simp: destroy_parts_def new_part_def comp_def list_all_iff c)
  then show ?thesis by (simp add: wf_rng_def gs_inv_build_parts)
qed

lemma build_parts_rows: "all_rows_ok (build_parts env s)"
  unfolding all_rows_ok_iff row_count_ok_def build_parts_def Let_def part_at_def
  by (auto simp: destroy_parts_def new_part_def)

lemma gs_init_count:
  assumes "gs_init env s = Inr r"
  shows "all_rows_ok r"
proof -
  obtain s4 where s4: "scan_slurm_job_list env (build_parts env s4) = Inr r"
    using assms unfolding gs_init_def Let_def by blast
  show ?thesis
  proof (cases "ctld_job_list env")
    case None
    then have "r = build_parts env s4" using s4 by (simp add: scan_slurm_job_list_def)
    then show ?thesis by (simp add: build_parts_rows)
  next
    case (Some jl)
    then show ?thesis using scan_slurm_job_list_count[OF build_parts_wf _ s4] by simp
  qed
qed

lemma resume_removed_wf: "wf_rng n0 s \<Longrightarrow> wf_rng n0 (resume_removed env a s)"
  by (auto simp: resume_removed_def wf_rng_def intro: jobs_rng_same)

lemma fold_resume_removed_wf: "wf_rng n0 s \<Longrightarrow> wf_rng n0 (fold (resume_removed env) xs s)"
  by (induction xs arbitrary: s) (simp_all add: resume_removed_wf)

lemma transfer_job_wf:
  assumes "wf_rng n0 s" "newp < length (gs_part_list s)" "transfer_job env newp a s = Inr r"
  shows "wf_rng n0 r"
proof (cases "find_job_record env (job_id (job_at s a))")
  case None
  then show ?thesis using assms by (simp add: transfer_job_def)
next
  case (Some jr)
  have "\<exists>s1. (s1 = s \<or> s1 = signal_job env (jr_job_id jr) GS_RESUME s)
      \<and> (r = s1 \<or> (\<exists>st. add_job_to_part env newp (jr_job_id jr) (jr_node_bitmap jr) s1 = Inr (st, r)))"
    using assms(3) Some unfolding transfer_job_def Let_def
    by (auto split: if_splits sum.splits)
  then obtain s1 where s1: "s1 = s \<or> s1 = signal_job env (jr_job_id jr) GS_RESUME s"
    and c: "r = s1 \<or> (\<exists>st. add_job_to_part env newp (jr_job_id jr) (jr_node_bitmap jr) s1 = Inr (st, r))"
    by blast
  have 1: "wf_rng n0 s1" "newp < length (gs_part_list s1)"
    using assms(1,2) s1 by (auto simp: wf_rng_def intro: jobs_rng_same)
  from c show ?thesis
  proof
    assume "r = s1"
    then show ?thesis using 1 by simp
  next
    assume "\<exists>st. add_job_to_part env newp (jr_job_id jr) (jr_node_bitmap jr) s1 = Inr (st, r)"
    then obtain st where add: "add_job_to_part env newp (jr_job_id jr) (jr_node_bitmap jr) s1 = Inr (st, r)"
      by blast
    show ?thesis by (rule add_job_to_part_wf[OF 1 add])
  qed
qed

lemma efold_transfer_job_wf:
  assumes "wf_rng n0 s" "newp < length (gs_part_list s)" "efold (transfer_job env newp) xs s = Inr r"
  shows "wf_rng n0 r"
  using assms
proof (induction xs arbitrary: s)
  case Nil
  then show ?case by simp
next
  case (Cons x xs)
  from Cons.prems(3) obtain s2 where s2: "transfer_job env newp x s = Inr s2"
      "efold (transfer_job env newp) xs s2 = Inr r"
    by (auto split: sum.splits)
  have w2: "wf_rng n0 s2" by (rule transfer_job_wf[OF Cons.prems(1,2) s2(1)])
  have "inv_len s s2" by (rule transfer_job_len[OF _ Cons.prems(2) s2(1)]) (use Cons.prems(1) in \<open>simp add: wf_rng_def\<close>)
  then have l2: "newp < length (gs_part_list s2)" using inv_len_length[of s s2] Cons.prems(2) by simp
  show ?case by (rule Cons.IH[OF w2 l2 s2(2)])
qed

lemma transfer_part_wf:
  assumes "wf_rng n0 s" "transfer_part env q s = Inr r"
  shows "wf_rng n0 r"
proof (cases "find_gs_part s (part_name q)")
  case None
  then have r: "r = fold (resume_removed env) (job_list q) s"
    using assms(2) by (simp add: transfer_part_def)
  show ?thesis unfolding r by (rule fold_resume_removed_wf[OF assms(1)])
next
  case (Some newp)
  note l = find_gs_part_Some[OF Some]
  show ?thesis
  proof (cases "job_list q = []")
    case True
    then show ?thesis using assms Some by (simp add: transfer_part_def)
  next
    case False
    then have e: "efold (transfer_job env newp) (job_list q) s = Inr r"
      using assms(2) Some by (simp add: transfer_part_def)
    show ?thesis by (rule efold_transfer_job_wf[OF assms(1) l e])
  qed
qed

lemma free_jobs_frame:
  "b \<notin> set (concat (map job_list parts)) \<Longrightarrow> free_jobs parts h b = h b"
proof -
  have "b \<notin> set xs \<Longrightarrow> fold (\<lambda>a h. h(a := None)) xs h b = h b" for xs
    by (induction xs arbitrary: h) auto
  then show "b \<notin> set (concat (map job_list parts)) \<Longrightarrow> free_jobs parts h b = h b"
    unfolding free_jobs_def by blast
qed

lemma gs_reconfig_count:
  assumes "jobs_wf s" "ctld_job_list env \<noteq> None" "gs_reconfig env s = Inr r"
  shows "all_rows_ok r"
proof -
  let ?s1 = "build_parts env (s\<lparr>gs_part_list := []\<rparr>)"
  define n0 where "n0 = next_job_ptr s"
  obtain s2 s3 where s2: "efold (transfer_part env) (gs_part_list s) ?s1 = Inr s2"
    and s3: "scan_slurm_job_list env s2 = Inr s3"
    and r: "r = s3\<lparr>heap := free_jobs (gs_part_list s) (heap s3)\<rparr>"
    using assms(3) unfolding gs_reconfig_def Let_def by (auto split: sum.splits)
  have w1: "wf_rng n0 ?s1" using build_parts_wf[of "s\<lparr>gs_part_list := []\<rparr>" env] by (simp add: n0_def)
  have w2: "wf_rng n0 s2"
    by (rule efold_wf_rng[OF _ w1 s2]) (rule transfer_part_wf)
  note c3 = scan_slurm_job_list_count[OF w2 assms(2) s3]
  have old: "\<forall>b \<in> set (concat (map job_list (gs_part_list s))). b < n0"
    using assms(1) unfolding jobs_wf_def list_all_iff n0_def by blast
  have new: "\<forall>b \<in> set (concat (map job_list (gs_part_list s3))). n0 \<le> b"
    using c3 unfolding wf_rng_def jobs_rng_def list_all_iff by blast
  have pa: "part_at r = part_at s3" by (rule ext) (simp add: r part_at_def)
  have len: "length (gs_part_list r) = length (gs_part_list s3)" by (simp add: r)
  have "row_count_ok r q" if q: "q < length (gs_part_list s3)" for q
  proof -
    have "seated r b = seated s3 b" if b: "b \<in> set (job_list (part_at s3 q))" for b
    proof -
      have "b \<in> set (concat (map job_list (gs_part_list s3)))"
        using b q by (auto simp: part_at_def)
      then have "n0 \<le> b" using new by blast
      then have "b \<notin> set (concat (map job_list (gs_part_list s)))" using old by (meson not_less)
      then have "heap r b = heap s3 b" unfolding r by (simp add: free_jobs_frame)
      then show ?thesis by (simp add: seated_def job_at_def)
    qed
    then have "filter (seated r) (job_list (part_at s3 q)) = filter (seated s3) (job_list (part_at s3 q))"
      by (intro filter_cong) auto
    moreover have "row_count_ok s3 q" using c3 q by (simp add: all_rows_ok_iff)
    ultimately show ?thesis unfolding row_count_ok_def pa by simp
  qed
  then show ?thesis unfolding all_rows_ok_iff len by blast
qed

lemma gs_fini_rows: "all_rows_ok (gs_fini s)"
  by (simp add: all_rows_ok_def gs_fini_def destroy_parts_def)

subsection \<open>The job lists stay well formed\<close>

lemma cycle_job_list_wf:
  assumes "gs_inv s" "jobs_wf s" "p < length (gs_part_list s)"
  shows "jobs_wf (cycle_job_list env p s)"
proof (cases "job_list (part_at s p) = []")
  case False
  then show ?thesis by (rule cycle_job_list_count(2)[OF assms])
next
  case True
  have c: "cycle_reorder 0 [] (heap s) = ([], heap s)" by (simp add: cycle_reorder.simps[of 0 "[]"])
  have "cycle_job_list env p s = upd_part p (\<lambda>q. q\<lparr>jobs_active := 0\<rparr>) (upd_part p (\<lambda>q. q\<lparr>job_list := []\<rparr>) s)"
    unfolding cycle_job_list_def True c using assms(3)
    by (simp add: Let_def build_active_row_def part_at_upd_part)
  moreover have "map job_list (gs_part_list (upd_part p (\<lambda>q. q\<lparr>jobs_active := 0\<rparr>) (upd_part p (\<lambda>q. q\<lparr>job_list := []\<rparr>) s)))
      = map job_list (gs_part_list s)"
    using True assms(3) by (simp add: map_update part_at_def map_update_same[symmetric] list_update_same_conv)
  ultimately show ?thesis using assms(2) by (simp add: jobs_wf_def)
qed

lemma timeslicer_tick_wf:
  assumes "gs_inv s" "jobs_wf s" "timeslicer_tick env s = Inr r"
  shows "jobs_wf r"
proof -
  obtain s1 where s1: "sort_partitions s = Inr s1"
    and r: "r = fold (\<lambda>p st. if jobs_active (part_at st p)
                                 < length (job_list (part_at st p)) + length (shadow (part_at st p))
                             then cycle_job_list env p st else st) (gs_part_sorted s1) s1"
    using assms(3) by (auto simp: timeslicer_tick_def split: sum.splits)
  have g1: "gs_inv s1" by (rule gs_inv_sort[OF assms(1) s1])
  have w1: "jobs_wf s1" by (rule jobs_wf_sort[OF s1 assms(2)])
  have v: "\<forall>p \<in> set (gs_part_sorted s1). p < length (gs_part_list s1)"
    using sorted_valid[OF assms(1) s1] by blast
  have "gs_inv t \<Longrightarrow> jobs_wf t \<Longrightarrow> \<forall>p \<in> set xs. p < length (gs_part_list t) \<Longrightarrow>
      jobs_wf (fold (\<lambda>p st. if jobs_active (part_at st p)
                                 < length (job_list (part_at st p)) + length (shadow (part_at st p))
                             then cycle_job_list env p st else st) xs t)" for xs t
  proof (induction xs arbitrary: t)
    case Nil
    then show ?case by simp
  next
    case (Cons p xs)
    let ?t1 = "if jobs_active (part_at t p) < length (job_list (part_at t p)) + length (shadow (part_at t p))
               then cycle_job_list env p t else t"
    have lp: "p < length (gs_part_list t)" using Cons.prems(3) by simp
    have i: "inv_len t ?t1" using cycle_job_list_len[OF Cons.prems(1) lp, of env] inv_len_refl[OF Cons.prems(1)] by simp
    have g: "gs_inv ?t1" using i by (simp add: inv_len_def)
    have w: "jobs_wf ?t1" using cycle_job_list_wf[OF Cons.prems(1,2) lp, of env] Cons.prems(2) by simp
    have v: "\<forall>p \<in> set xs. p < length (gs_part_list ?t1)" using Cons.prems(3) inv_len_length[OF i] by simp
    from Cons.IH[OF g w v] show ?case by simp
  qed
  from this[OF g1 w1 v] show ?thesis unfolding r .
qed

lemma jobs_wf_preserved:
  assumes "gs_inv s" "jobs_wf s"
  shows "(p < length (gs_part_list s) \<longrightarrow> jobs_wf (update_active_row env p b s))
    \<and> (\<forall>r. update_all_active_rows env s = Inr r \<longrightarrow> jobs_wf r)
    \<and> (p < length (gs_part_list s) \<longrightarrow> jobs_wf (cycle_job_list env p s))
    \<and> (\<forall>r. timeslicer_tick env s = Inr r \<longrightarrow> jobs_wf r)
    \<and> (\<forall>r. gs_job_start env jr s = Inr r \<longrightarrow> jobs_wf r)
    \<and> (\<forall>r. gs_job_fini env jr s = Inr r \<longrightarrow> jobs_wf r)
    \<and> (\<forall>r. gs_job_scan env s = Inr r \<longrightarrow> jobs_wf r)
    \<and> (\<forall>r. gs_reconfig env s = Inr r \<longrightarrow> jobs_wf r)
    \<and> (\<forall>r. gs_init env s = Inr r \<longrightarrow> jobs_wf r)
    \<and> jobs_wf (gs_fini s)"
proof -
  have w: "wf_rng 0 s" using assms by (simp add: wf_rng_def jobs_rng_0)
  have wfD: "wf_rng n0 t \<Longrightarrow> jobs_wf t" for n0 t by (simp add: wf_rng_def jobs_rng_def)
  have 1: "p < length (gs_part_list s) \<longrightarrow> jobs_wf (update_active_row env p b s)"
    using row_frame_jobs_wf[OF update_active_row_count(2)[OF assms], of p env b] assms(2) by blast
  have 2: "\<forall>r. update_all_active_rows env s = Inr r \<longrightarrow> jobs_wf r"
    using update_all_active_rows_wf[OF w] wfD by blast
  have 3: "p < length (gs_part_list s) \<longrightarrow> jobs_wf (cycle_job_list env p s)"
    using cycle_job_list_wf[OF assms] by blast
  have 4: "\<forall>r. timeslicer_tick env s = Inr r \<longrightarrow> jobs_wf r"
    using timeslicer_tick_wf[OF assms] by blast
  have 5: "\<forall>r. gs_job_start env jr s = Inr r \<longrightarrow> jobs_wf r"
  proof (intro allI impI)
    fix r assume r: "gs_job_start env jr s = Inr r"
    show "jobs_wf r"
    proof (cases "find_gs_part s (jr_partition jr)")
      case None
      then have "r = s\<lparr>errlog := errlog s @ [PartitionNotFound (jr_partition jr) (jr_job_id jr)]\<rparr>"
        using r by (simp add: gs_job_start_def)
      then show ?thesis using assms(2) by (simp add: jobs_wf_def)
    next
      case (Some p')
      then obtain st s1 where a: "add_job_to_part env p' (jr_job_id jr) (jr_node_bitmap jr) s = Inr (st, s1)"
        and e: "(if st = GS_RESUME then update_all_active_rows env s1 else Inr s1) = Inr r"
        using r by (auto simp: gs_job_start_def split: sum.splits)
      have w1: "wf_rng 0 s1" by (rule add_job_to_part_wf[OF w find_gs_part_Some[OF Some] a])
      show ?thesis
      proof (cases "st = GS_RESUME")
        case True
        then show ?thesis using update_all_active_rows_wf[OF w1, of env r] e wfD by auto
      next
        case False
        then show ?thesis using e wfD[OF w1] by simp
      qed
    qed
  qed
  have 6: "\<forall>r. gs_job_fini env jr s = Inr r \<longrightarrow> jobs_wf r"
  proof (cases "find_gs_part s (jr_partition jr)")
    case None
    then show ?thesis using assms(2) by (simp add: gs_job_fini_def)
  next
    case (Some p')
    then show ?thesis using gs_job_fini_count[OF w, of jr env] wfD by auto
  qed
  have 7: "\<forall>r. gs_job_scan env s = Inr r \<longrightarrow> jobs_wf r"
  proof (cases "ctld_job_list env")
    case None
    then show ?thesis using assms(2) by (simp add: gs_job_scan_def scan_slurm_job_list_def)
  next
    case (Some jl)
    then show ?thesis using scan_slurm_job_list_count[OF w, of env] wfD by (auto simp: gs_job_scan_def)
  qed
  have 8: "\<forall>r. gs_reconfig env s = Inr r \<longrightarrow> jobs_wf r"
  proof (intro allI impI)
    fix r assume a: "gs_reconfig env s = Inr r"
    let ?s1 = "build_parts env (s\<lparr>gs_part_list := []\<rparr>)"
    obtain s2 s3 where s2: "efold (transfer_part env) (gs_part_list s) ?s1 = Inr s2"
      and s3: "scan_slurm_job_list env s2 = Inr s3"
      and r: "r = s3\<lparr>heap := free_jobs (gs_part_list s) (heap s3)\<rparr>"
      using a unfolding gs_reconfig_def Let_def by (auto split: sum.splits)
    have w1: "wf_rng (next_job_ptr (s\<lparr>gs_part_list := []\<rparr>)) ?s1" by (rule build_parts_wf)
    have w2: "wf_rng (next_job_ptr (s\<lparr>gs_part_list := []\<rparr>)) s2"
      by (rule efold_wf_rng[OF _ w1 s2]) (rule transfer_part_wf)
    have "jobs_wf s3"
    proof (cases "ctld_job_list env")
      case None
      then show ?thesis using s3 wfD[OF w2] by (simp add: scan_slurm_job_list_def)
    next
      case (Some jl)
      then show ?thesis using scan_slurm_job_list_count[OF w2 _ s3] wfD by auto
    qed
    then show "jobs_wf r" by (simp add: r jobs_wf_def)
  qed
  have 9: "\<forall>r. gs_init env s = Inr r \<longrightarrow> jobs_wf r"
  proof (intro allI impI)
    fix r assume a: "gs_init env s = Inr r"
    obtain s4 where s4: "scan_slurm_job_list env (build_parts env s4) = Inr r"
      using a unfolding gs_init_def Let_def by blast
    show "jobs_wf r"
    proof (cases "ctld_job_list env")
      case None
      then have "r = build_parts env s4" using s4 by (simp add: scan_slurm_job_list_def)
      then show ?thesis using wfD[OF build_parts_wf] by simp
    next
      case (Some jl)
      then show ?thesis using scan_slurm_job_list_count[OF build_parts_wf _ s4] wfD by auto
    qed
  qed
  have 10: "jobs_wf (gs_fini s)" by (simp add: gs_fini_def destroy_parts_def jobs_wf_def)
  show ?thesis using 1 2 3 4 5 6 7 8 9 10 by (intro conjI)
qed

text \<open>Claim C2, as stated, fails. The count of a partition is written only when that
  partition itself is rebuilt or cycled, while its shadow list is changed by the rebuild or
  cycle of every partition of higher priority. After the four jobs have started and the high
  partition has been cycled once, every partition has the count the claim states; the next
  cycle of the high partition seats two other jobs, the low partition now has two shadows and
  no seated job, and its count is still 1. The second half is the case the claim names: in a
  state where the low partition has one shadow and no job (count 1, as the claim states), its
  cycle leaves the count 0 and the shadow in place.\<close>

theorem active_count_counterexample:
  "gs_inv_check C2_cycled \<and> jobs_wf C2_cycled \<and> all_rows_ok C2_cycled
   \<and> jobs_active (part_at (cycle_job_list S1_env 1 C2_cycled) 0) = 1
   \<and> filter (seated (cycle_job_list S1_env 1 C2_cycled))
        (job_list (part_at (cycle_job_list S1_env 1 C2_cycled) 0)) = []
   \<and> shadow (part_at (cycle_job_list S1_env 1 C2_cycled) 0) = [1, 2]
   \<and> \<not> row_count_ok (cycle_job_list S1_env 1 C2_cycled) 0
   \<and> gs_inv_check C2_shadowed \<and> jobs_wf C2_shadowed \<and> all_rows_ok C2_shadowed
   \<and> job_list (part_at C2_shadowed 0) = [] \<and> shadow (part_at C2_shadowed 0) = [0]
   \<and> jobs_active (part_at (cycle_job_list S1_env 0 C2_shadowed) 0) = 0
   \<and> shadow (part_at (cycle_job_list S1_env 0 C2_shadowed) 0) = [0]
   \<and> \<not> row_count_ok (cycle_job_list S1_env 0 C2_shadowed) 0"
proof -
  have 1: "gs_inv_check C2_cycled" by code_simp
  have 2: "jobs_wf C2_cycled" by code_simp
  have 3: "all_rows_ok C2_cycled" by code_simp
  have 4: "jobs_active (part_at (cycle_job_list S1_env 1 C2_cycled) 0) = 1" by code_simp
  have 5: "filter (seated (cycle_job_list S1_env 1 C2_cycled))
        (job_list (part_at (cycle_job_list S1_env 1 C2_cycled) 0)) = []" by code_simp
  have 6: "shadow (part_at (cycle_job_list S1_env 1 C2_cycled) 0) = [1, 2]" by code_simp
  have 7: "\<not> row_count_ok (cycle_job_list S1_env 1 C2_cycled) 0" by code_simp
  have 8: "gs_inv_check C2_shadowed" by code_simp
  have 9: "jobs_wf C2_shadowed" by code_simp
  have 10: "all_rows_ok C2_shadowed" by code_simp
  have 11: "job_list (part_at C2_shadowed 0) = []" by code_simp
  have 12: "shadow (part_at C2_shadowed 0) = [0]" by code_simp
  have 13: "jobs_active (part_at (cycle_job_list S1_env 0 C2_shadowed) 0) = 0" by code_simp
  have 14: "shadow (part_at (cycle_job_list S1_env 0 C2_shadowed) 0) = [0]" by code_simp
  have 15: "\<not> row_count_ok (cycle_job_list S1_env 0 C2_shadowed) 0" by code_simp
  show ?thesis using 1 2 3 4 5 6 7 8 9 10 11 12 13 14 15 by (intro conjI)
qed

text \<open>Claim C2, amended. In a state with well-formed shadow lists (\<open>gs_inv\<close>) in which no
  job is in two job lists or twice in one (\<open>jobs_wf\<close>; both are kept by every operation):
  after the rebuild of a partition the count of that partition is the number of its jobs
  with row state Active or Filler plus the number of its shadows; the same holds for a
  partition after its cycle when it has at least one job; after the rebuild of all
  partitions it holds for every partition, and so it does at the end of every hook that
  ends with that rebuild: the end of a job of a known partition, the scan, start and
  reconfiguration when the controller has a job list, and the start of a job that the
  partition lets run. The rebuild of all partitions stops only when there is no partition.
  After the end of the plugin there is no partition left.\<close>

theorem active_count_after_rebuild:
  assumes "gs_inv s" "jobs_wf s"
  shows "(p < length (gs_part_list s) \<longrightarrow> row_count_ok (update_active_row env p b s) p)
    \<and> (p < length (gs_part_list s) \<and> job_list (part_at s p) \<noteq> []
          \<longrightarrow> row_count_ok (cycle_job_list env p s) p)
    \<and> (case update_all_active_rows env s of Inl e \<Rightarrow> gs_part_list s = [] | Inr r \<Rightarrow> all_rows_ok r)
    \<and> (find_gs_part s (jr_partition jr) \<noteq> None
          \<longrightarrow> (\<exists>r. gs_job_fini env jr s = Inr r \<and> all_rows_ok r))
    \<and> (ctld_job_list env \<noteq> None \<longrightarrow> (\<forall>r. gs_job_scan env s = Inr r \<longrightarrow> all_rows_ok r))
    \<and> (\<forall>q s1 r. find_gs_part s (jr_partition jr) = Some q
            \<and> add_job_to_part env q (jr_job_id jr) (jr_node_bitmap jr) s = Inr (GS_RESUME, s1)
            \<and> gs_job_start env jr s = Inr r \<longrightarrow> all_rows_ok r)
    \<and> (\<forall>r. gs_init env s = Inr r \<longrightarrow> all_rows_ok r)
    \<and> (ctld_job_list env \<noteq> None \<longrightarrow> (\<forall>r. gs_reconfig env s = Inr r \<longrightarrow> all_rows_ok r))
    \<and> all_rows_ok (gs_fini s)"
proof -
  have w: "wf_rng 0 s" using assms by (simp add: wf_rng_def jobs_rng_0)
  have 1: "p < length (gs_part_list s) \<longrightarrow> row_count_ok (update_active_row env p b s) p"
    using update_active_row_count(1)[OF assms] by blast
  have 2: "p < length (gs_part_list s) \<and> job_list (part_at s p) \<noteq> []
          \<longrightarrow> row_count_ok (cycle_job_list env p s) p"
    using cycle_job_list_count(1)[OF assms] by blast
  have 3: "case update_all_active_rows env s of Inl e \<Rightarrow> gs_part_list s = [] | Inr r \<Rightarrow> all_rows_ok r"
  proof (cases "update_all_active_rows env s")
    case (Inl e)
    then show ?thesis using update_all_active_rows_ok[OF assms(1), of env] by auto
  next
    case (Inr r)
    then show ?thesis using update_all_active_rows_wf[OF w Inr] by simp
  qed
  have 4: "find_gs_part s (jr_partition jr) \<noteq> None
          \<longrightarrow> (\<exists>r. gs_job_fini env jr s = Inr r \<and> all_rows_ok r)"
    using gs_job_fini_count[OF w, of jr env] by blast
  have 5: "ctld_job_list env \<noteq> None \<longrightarrow> (\<forall>r. gs_job_scan env s = Inr r \<longrightarrow> all_rows_ok r)"
    using scan_slurm_job_list_count[OF w, of env] unfolding gs_job_scan_def by blast
  have 6: "\<forall>q s1 r. find_gs_part s (jr_partition jr) = Some q
            \<and> add_job_to_part env q (jr_job_id jr) (jr_node_bitmap jr) s = Inr (GS_RESUME, s1)
            \<and> gs_job_start env jr s = Inr r \<longrightarrow> all_rows_ok r"
    using gs_job_start_count[OF w, of jr _ env] by blast
  have 7: "\<forall>r. gs_init env s = Inr r \<longrightarrow> all_rows_ok r" using gs_init_count by blast
  have 8: "ctld_job_list env \<noteq> None \<longrightarrow> (\<forall>r. gs_reconfig env s = Inr r \<longrightarrow> all_rows_ok r)"
    using gs_reconfig_count[OF assms(2)] by blast
  show ?thesis using 1 2 3 4 5 6 7 8 gs_fini_rows by (intro conjI)
qed

theorem active_count_after_rebuild_witness:
  "gs_inv_check S4_running \<and> jobs_wf S4_running
   \<and> map shadow (gs_part_list S4_running) = [[1], []]
   \<and> row_count_ok (update_active_row C2_env 0 True S4_running) 0
   \<and> row_count_ok (cycle_job_list C2_env 1 S4_running) 1
   \<and> map_sum id all_rows_ok (update_all_active_rows C2_env S4_running) = Inr True
   \<and> map_sum id all_rows_ok (gs_job_fini C2_env S4_jobY S4_running) = Inr True
   \<and> map_sum id all_rows_ok (gs_job_scan C2_env S4_running) = Inr True
   \<and> map_sum id all_rows_ok (gs_job_start C2_env C2_jobC S4_running) = Inr True
   \<and> map_sum id all_rows_ok (gs_init C2_env S4_running) = Inr True
   \<and> map_sum id all_rows_ok (gs_reconfig C2_env S4_running) = Inr True
   \<and> all_rows_ok (gs_fini S4_running)"
proof -
  have c: "gs_inv_check S4_running" by code_simp
  have j: "jobs_wf S4_running" by code_simp
  have sh: "map shadow (gs_part_list S4_running) = [[1], []]" by code_simp
  have h: "gs_inv S4_running" using c by (simp add: gs_inv_check_iff)
  have l0: "(0::nat) < length (gs_part_list S4_running)" by code_simp
  have l1: "(1::nat) < length (gs_part_list S4_running) \<and> job_list (part_at S4_running 1) \<noteq> []"
    by code_simp
  have ne: "gs_part_list S4_running \<noteq> []" using l0 by auto
  have f: "find_gs_part S4_running (jr_partition S4_jobY) \<noteq> None" by code_simp
  have jl: "ctld_job_list C2_env \<noteq> None" by (simp add: C2_env_def)
  have fc: "find_gs_part S4_running (jr_partition C2_jobC) = Some 1" by code_simp
  have ac: "map_sum id fst (add_job_to_part C2_env 1 (jr_job_id C2_jobC) (jr_node_bitmap C2_jobC) S4_running)
      = Inr GS_RESUME" by code_simp
  have r5: "map_sum id (\<lambda>_. ()) (gs_job_scan C2_env S4_running) = Inr ()" by code_simp
  have r6: "map_sum id (\<lambda>_. ()) (gs_job_start C2_env C2_jobC S4_running) = Inr ()" by code_simp
  have r7: "map_sum id (\<lambda>_. ()) (gs_init C2_env S4_running) = Inr ()" by code_simp
  have r8: "map_sum id (\<lambda>_. ()) (gs_reconfig C2_env S4_running) = Inr ()" by code_simp
  note t0 = active_count_after_rebuild[OF h j, where p=0 and env=C2_env and b=True and jr=S4_jobY]
  note t1 = active_count_after_rebuild[OF h j, where p=1 and env=C2_env and jr=C2_jobC]
  have 1: "row_count_ok (update_active_row C2_env 0 True S4_running) 0" using t0 l0 by blast
  have 2: "row_count_ok (cycle_job_list C2_env 1 S4_running) 1" using t1 l1 by blast
  have "case update_all_active_rows C2_env S4_running of
          Inl e \<Rightarrow> gs_part_list S4_running = [] | Inr r \<Rightarrow> all_rows_ok r"
    using t0 by blast
  then have 3: "map_sum id all_rows_ok (update_all_active_rows C2_env S4_running) = Inr True"
    using ne by (cases "update_all_active_rows C2_env S4_running") simp_all
  have "\<exists>r. gs_job_fini C2_env S4_jobY S4_running = Inr r \<and> all_rows_ok r" using t0 f by blast
  then have 4: "map_sum id all_rows_ok (gs_job_fini C2_env S4_jobY S4_running) = Inr True" by auto
  have "\<forall>r. gs_job_scan C2_env S4_running = Inr r \<longrightarrow> all_rows_ok r" using t0 jl by blast
  then have 5: "map_sum id all_rows_ok (gs_job_scan C2_env S4_running) = Inr True"
    using r5 by (cases "gs_job_scan C2_env S4_running") simp_all
  obtain s1 where s1: "add_job_to_part C2_env 1 (jr_job_id C2_jobC) (jr_node_bitmap C2_jobC) S4_running
      = Inr (GS_RESUME, s1)"
    using ac by (cases "add_job_to_part C2_env 1 (jr_job_id C2_jobC) (jr_node_bitmap C2_jobC) S4_running") auto
  have "\<forall>r. gs_job_start C2_env C2_jobC S4_running = Inr r \<longrightarrow> all_rows_ok r" using t1 fc s1 by blast
  then have 6: "map_sum id all_rows_ok (gs_job_start C2_env C2_jobC S4_running) = Inr True"
    using r6 by (cases "gs_job_start C2_env C2_jobC S4_running") simp_all
  have "\<forall>r. gs_init C2_env S4_running = Inr r \<longrightarrow> all_rows_ok r" using t0 by blast
  then have 7: "map_sum id all_rows_ok (gs_init C2_env S4_running) = Inr True"
    using r7 by (cases "gs_init C2_env S4_running") simp_all
  have "\<forall>r. gs_reconfig C2_env S4_running = Inr r \<longrightarrow> all_rows_ok r" using t0 jl by blast
  then have 8: "map_sum id all_rows_ok (gs_reconfig C2_env S4_running) = Inr True"
    using r8 by (cases "gs_reconfig C2_env S4_running") simp_all
  have 9: "all_rows_ok (gs_fini S4_running)" using t0 by blast
  show ?thesis using c j sh 1 2 3 4 5 6 7 8 9 by (intro conjI)
qed


end
